(* ===== verification/Prelude.thy ===== *)
theory Prelude
  imports
    Main
    "HOL-Library.Word"
    "HOL-Library.Char_ord"
    "HOL-Library.List_Lexorder"
    "HOL-Library.Sublist"
begin

text \<open>
  Shared vocabulary of the development.  A \<open>std::string\<close> or \<open>std::string_view\<close> is a
  \<open>string\<close> (a list of 8-bit \<open>char\<close>, ordered as \<open>std::char_traits<char>::lt\<close> orders
  them, that is unsigned); a wire buffer of \<open>std::uint8_t\<close> is a list of \<open>byte\<close>.
  The searches of the C++ standard library that the code uses (\<open>find\<close>, \<open>rfind\<close>,
  \<open>memchr\<close>, \<open>tolower\<close>, \<open>std::to_string\<close>) are defined here, with \<open>None\<close> for
  \<open>npos\<close>, together with the lemmas on them that the component theories share.
\<close>

unbundle bit_operations_syntax

type_synonym byte = "8 word"
type_synonym u16 = "16 word"
type_synonym u32 = "32 word"
type_synonym u64 = "64 word"

named_theorems find_simps \<open>rewrite rules for the library searches\<close>
named_theorems bit_masks \<open>the bits of the mask literals of the code\<close>

section \<open>Bytes and characters\<close>

definition chr8 :: "byte \<Rightarrow> char" where
  "chr8 b = char_of (unat b)"

definition ord8 :: "char \<Rightarrow> byte" where
  "ord8 c = of_char c"

definition bytes_of :: "string \<Rightarrow> byte list" where
  "bytes_of s = map ord8 s"

definition string_of :: "byte list \<Rightarrow> string" where
  "string_of bs = map chr8 bs"

definition chcode :: "char \<Rightarrow> nat" where
  "chcode c = of_char c"

definition CR :: char where
  "CR = CHR 0x0D"

definition LF :: char where
  "LF = CHR 0x0A"

definition TAB :: char where
  "TAB = CHR 0x09"

definition NUL :: char where
  "NUL = CHR 0x00"

abbreviation CRLF :: string where
  "CRLF \<equiv> [CR, LF]"

text \<open>\<open>std::tolower\<close> in the \<open>"C"\<close> locale.\<close>

definition tolower :: "char \<Rightarrow> char" where
  "tolower c = (if 65 \<le> chcode c \<and> chcode c \<le> 90 then char_of (chcode c + 32) else c)"

definition is_digit :: "char \<Rightarrow> bool" where
  "is_digit c \<longleftrightarrow> 48 \<le> chcode c \<and> chcode c \<le> 57"

definition digit_val :: "char \<Rightarrow> nat" where
  "digit_val c = chcode c - 48"

definition digit_char :: "nat \<Rightarrow> char" where
  "digit_char n = char_of (48 + n)"

section \<open>Searching\<close>

text \<open>\<open>memchr\<close> and \<open>find(c)\<close>: the index of the first occurrence.\<close>

primrec find_char :: "char \<Rightarrow> string \<Rightarrow> nat option" where
  "find_char c [] = None"
| "find_char c (x # xs) = (if x = c then Some 0 else map_option Suc (find_char c xs))"

text \<open>\<open>find(c, pos)\<close>.\<close>

definition find_char_from :: "char \<Rightarrow> nat \<Rightarrow> string \<Rightarrow> nat option" where
  "find_char_from c pos s = map_option (\<lambda>i. pos + i) (find_char c (drop pos s))"

text \<open>\<open>find_last_of(c)\<close>.\<close>

primrec rfind_char :: "char \<Rightarrow> string \<Rightarrow> nat option" where
  "rfind_char c [] = None"
| "rfind_char c (x # xs) =
     (case rfind_char c xs of Some i \<Rightarrow> Some (Suc i)
      | None \<Rightarrow> if x = c then Some 0 else None)"

text \<open>\<open>find(pattern)\<close>.\<close>

fun find_sub :: "string \<Rightarrow> string \<Rightarrow> nat option" where
  "find_sub p [] = (if p = [] then Some 0 else None)"
| "find_sub p (x # xs) =
     (if prefix p (x # xs) then Some 0 else map_option Suc (find_sub p xs))"

text \<open>\<open>substr(pos, len)\<close> for \<open>pos\<close> within the string.\<close>

definition substr :: "nat \<Rightarrow> nat \<Rightarrow> string \<Rightarrow> string" where
  "substr pos len s = take len (drop pos s)"

text \<open>
  The segments between the occurrences of a separator.  No function of the library is
  written this way; it is the reference the scanning loops are compared with.
\<close>

fun split_on :: "char \<Rightarrow> string \<Rightarrow> string list" where
  "split_on c [] = [[]]"
| "split_on c (x # xs) =
     (if x = c then [] # split_on c xs
      else case split_on c xs of [] \<Rightarrow> [[x]] | s # ss \<Rightarrow> (x # s) # ss)"

section \<open>Decimal numbers\<close>

text \<open>\<open>std::to_string\<close>.\<close>

fun to_string_nat :: "nat \<Rightarrow> string" where
  "to_string_nat n =
     (if n < 10 then [digit_char n] else to_string_nat (n div 10) @ [digit_char (n mod 10)])"

declare to_string_nat.simps [simp del]

definition to_string_int :: "int \<Rightarrow> string" where
  "to_string_int i = (if i < 0 then CHR ''-'' # to_string_nat (nat (- i)) else to_string_nat (nat i))"

text \<open>The value a run of decimal digits denotes, accumulated left to right.\<close>

definition dec_value :: "string \<Rightarrow> nat" where
  "dec_value s = foldl (\<lambda>v c. v * 10 + digit_val c) 0 s"

text \<open>
  Accumulation in an \<open>int64_t\<close>.  Signed overflow is undefined in C++; it wraps here, as in the
  code compilers emit, and no property relies on it.
\<close>

definition wrap64 :: "int \<Rightarrow> int" where
  "wrap64 i = (i + 2 ^ 63) mod 2 ^ 64 - 2 ^ 63"

fun accumulate_digits :: "string \<Rightarrow> int \<Rightarrow> int option" where
  "accumulate_digits [] v = Some v"
| "accumulate_digits (c # cs) v =
     (if \<not> is_digit c then None else accumulate_digits cs (wrap64 (v * 10 + int (digit_val c))))"

section \<open>Results of the incremental parsers\<close>

text \<open>
  Every \<open>try_parse\<close> returns a \<open>ptrdiff_t\<close>: positive for the number of bytes consumed,
  zero for ``need more data'', negative for ``malformed''.
\<close>

datatype 'a parsed = NeedMore | Malformed | Parsed nat 'a

text \<open>
  The prologue all three share: find the newline, drop one carriage return before it.
  The result is the line without its terminator and the number of bytes it took.
\<close>

definition take_line :: "string \<Rightarrow> (string \<times> nat) option" where
  "take_line data =
     (case find_char LF data of
        None \<Rightarrow> None
      | Some nl \<Rightarrow>
          let line_len = (if 0 < nl \<and> data ! (nl - 1) = CR then nl - 1 else nl)
          in Some (take line_len data, nl + 1))"

section \<open>Lemmas on bytes and characters\<close>

lemma unat_byte_less [simp]: "unat (b :: byte) < 256"
  using unsigned_less [where w = b] by simp

lemma ord8_chr8 [simp]: "ord8 (chr8 b) = b"
proof -
  have "ord8 (chr8 b) = of_nat (of_char (char_of (unat b) :: char) :: nat)"
    by (simp only: ord8_def chr8_def of_nat_of_char)
  also have "\<dots> = of_nat (unat b)"
    by (simp add: unat_byte_less)
  finally show ?thesis by simp
qed

lemma chcode_less [simp]: "chcode c < 256"
  by (simp add: chcode_def)

lemma unat_ord8: "unat (ord8 c) = chcode c"
proof -
  have "unat (ord8 c) = unat (of_nat (of_char c :: nat) :: byte)"
    by (simp add: ord8_def of_nat_of_char)
  then show ?thesis
    by (simp add: unat_of_nat chcode_def)
qed

lemma chr8_ord8 [simp]: "chr8 (ord8 c) = c"
  by (simp add: chr8_def unat_ord8) (simp add: chcode_def)

lemma chcode_chr8 [simp]: "chcode (chr8 b) = unat b"
  by (metis ord8_chr8 unat_ord8)

lemma string_of_bytes_of [simp]: "string_of (bytes_of s) = s"
  by (simp add: string_of_def bytes_of_def comp_def)

lemma bytes_of_string_of [simp]: "bytes_of (string_of bs) = bs"
  by (simp add: string_of_def bytes_of_def comp_def)

lemma length_bytes_of [simp]: "length (bytes_of s) = length s"
  by (simp add: bytes_of_def)

lemma length_string_of [simp]: "length (string_of s) = length s"
  by (simp add: string_of_def)

lemma bytes_of_append: "bytes_of (s @ t) = bytes_of s @ bytes_of t"
  by (simp add: bytes_of_def)

lemma chcode_char_of [simp]: "n < 256 \<Longrightarrow> chcode (char_of n) = n"
  by (simp add: chcode_def)

lemma char_of_chcode [simp]: "char_of (chcode c) = c"
  by (simp add: chcode_def)

lemma chcode_inject [simp]: "chcode c = chcode d \<longleftrightarrow> c = d"
  by (simp add: chcode_def)

lemma crlf_codes [simp]: "chcode CR = 13" "chcode LF = 10" "chcode TAB = 9" "chcode NUL = 0"
  by (simp_all add: CR_def LF_def TAB_def NUL_def chcode_def)

lemma CR_neq_LF [simp]: "CR \<noteq> LF" "LF \<noteq> CR"
  by (simp_all add: CR_def LF_def)

lemma tolower_idem [simp]: "tolower (tolower c) = tolower c"
  by (simp add: tolower_def)

lemma is_digit_digit_char [simp]: "n < 10 \<Longrightarrow> is_digit (digit_char n)"
  by (simp add: is_digit_def digit_char_def)

lemma digit_val_digit_char [simp]: "n < 10 \<Longrightarrow> digit_val (digit_char n) = n"
  by (simp add: digit_val_def digit_char_def)

lemma bit_int_mask: "k = 2 ^ m - 1 \<Longrightarrow> bit (k :: int) n \<longleftrightarrow> n < m"
  by (simp add: bit_mask_iff flip: mask_eq_exp_minus_1)

lemma mask_literals [bit_masks]:
  "bit (0xff :: int) n \<longleftrightarrow> n < 8" "bit (0xffffff :: int) n \<longleftrightarrow> n < 24"
  "bit (0x7fffffff :: int) n \<longleftrightarrow> n < 31" "bit (0x7f :: int) n \<longleftrightarrow> n < 7"
  "bit (0x3f :: int) n \<longleftrightarrow> n < 6" "bit (0x0f :: int) n \<longleftrightarrow> n < 4"
  by (rule bit_int_mask, simp)+

section \<open>Lemmas on searching\<close>

lemma find_char_None [find_simps]: "find_char c s = None \<longleftrightarrow> c \<notin> set s"
  by (induction s) auto

lemma find_char_append [find_simps]:
  "find_char c (xs @ ys) =
     (if c \<in> set xs then find_char c xs else map_option (\<lambda>i. length xs + i) (find_char c ys))"
  by (induction xs) (auto simp: option.map_comp comp_def plus_nat.add_0 [abs_def] option.map_ident)

lemma find_char_hit [find_simps]: "c \<notin> set xs \<Longrightarrow> find_char c (xs @ c # ys) = Some (length xs)"
  by (induction xs) auto

lemma find_char_SomeD:
  "find_char c s = Some i \<Longrightarrow> s = take i s @ c # drop (Suc i) s \<and> c \<notin> set (take i s) \<and> i < length s"
  by (induction s arbitrary: i) (auto split: if_splits)

lemma find_char_Some_iff:
  "find_char c s = Some i \<longleftrightarrow> i < length s \<and> s ! i = c \<and> c \<notin> set (take i s)"
  by (induction s arbitrary: i) (auto simp: nth_Cons take_Cons split: if_splits nat.splits)

lemma find_char_less: "find_char c s = Some i \<Longrightarrow> i < length s"
  by (simp add: find_char_Some_iff)

lemma rfind_char_None [find_simps]: "rfind_char c s = None \<longleftrightarrow> c \<notin> set s"
  by (induction s) (auto split: option.splits)

lemma rfind_char_hit [find_simps]: "c \<notin> set ys \<Longrightarrow> rfind_char c (xs @ c # ys) = Some (length xs)"
  by (induction xs) (auto simp: find_simps split: option.splits)

lemma find_sub_Some_iff:
  "find_sub p s = Some i \<longleftrightarrow>
     i \<le> length s \<and> prefix p (drop i s) \<and> (\<forall>j<i. \<not> prefix p (drop j s))"
proof (induction s arbitrary: i)
  case Nil
  then show ?case by auto
next
  case (Cons x xs)
  show ?case
  proof (cases i)
    case 0
    then show ?thesis by auto
  next
    case (Suc k)
    then show ?thesis
      using Cons.IH [of k] by (auto simp: less_Suc_eq_0_disj)
  qed
qed

lemma find_sub_None_iff: "find_sub p s = None \<longleftrightarrow> (\<forall>j\<le>length s. \<not> prefix p (drop j s))"
proof (induction s)
  case Nil
  then show ?case by auto
next
  case (Cons x xs)
  then show ?case
    by (simp add: All_less_Suc2 flip: less_Suc_eq_le)
qed

lemma find_sub_found_iff: "find_sub p s \<noteq> None \<longleftrightarrow> sublist p s"
proof (induction s)
  case Nil
  then show ?case by auto
next
  case (Cons x xs)
  then show ?case by (auto simp: sublist_Cons_right)
qed

lemma split_on_nonempty [simp]: "split_on c s \<noteq> []"
  by (cases s) (auto split: list.splits)

lemma split_on_miss: "c \<notin> set s \<Longrightarrow> split_on c s = [s]"
  by (induction s) auto

lemma split_on_hit: "c \<notin> set s \<Longrightarrow> split_on c (s @ c # r) = s # split_on c r"
  by (induction s) auto

lemma split_on_find:
  "split_on c s = (case find_char c s of None \<Rightarrow> [s] | Some i \<Rightarrow> take i s # split_on c (drop (Suc i) s))"
proof (cases "find_char c s")
  case None
  moreover from None have "c \<notin> set s" using find_char_None by blast
  ultimately show ?thesis by (simp add: split_on_miss)
next
  case (Some i)
  then have "s = take i s @ c # drop (Suc i) s" and "c \<notin> set (take i s)"
    using find_char_SomeD by blast+
  then show ?thesis
    using Some split_on_hit [of c "take i s" "drop (Suc i) s"] by simp
qed

lemma split_on_no_sep: "s \<in> set (split_on c t) \<Longrightarrow> c \<notin> set s"
  by (induction t arbitrary: s) (auto split: if_splits list.splits)

section \<open>Lemmas on decimal numbers\<close>

lemma to_string_nat_digits: "\<forall>c \<in> set (to_string_nat n). is_digit c"
proof (induction n rule: to_string_nat.induct)
  case (1 n)
  then show ?case by (subst to_string_nat.simps) auto
qed

lemma to_string_nat_nonempty [simp]: "to_string_nat n \<noteq> []"
  by (subst to_string_nat.simps) simp

lemma dec_value_snoc [simp]: "dec_value (s @ [c]) = dec_value s * 10 + digit_val c"
  by (simp add: dec_value_def)

lemma dec_value_Nil [simp]: "dec_value [] = 0"
  by (simp add: dec_value_def)

lemma dec_value_to_string_nat [simp]: "dec_value (to_string_nat n) = n"
proof (induction n rule: to_string_nat.induct)
  case (1 n)
  show ?case
  proof (cases "n < 10")
    case True
    then show ?thesis
      by (subst to_string_nat.simps) (simp add: dec_value_def)
  next
    case False
    with 1 have "dec_value (to_string_nat (n div 10)) = n div 10" by simp
    with False show ?thesis
      by (subst to_string_nat.simps) simp
  qed
qed

lemma wrap64_id: "- (2 ^ 63) \<le> i \<Longrightarrow> i < 2 ^ 63 \<Longrightarrow> wrap64 i = i"
  by (simp add: wrap64_def)

lemma foldl_digits_mono: "v \<le> foldl (\<lambda>v c. v * 10 + digit_val c) (v :: nat) s"
proof (induction s arbitrary: v)
  case (Cons c s)
  have "v \<le> v * 10 + digit_val c" by simp
  also have "\<dots> \<le> foldl (\<lambda>v c. v * 10 + digit_val c) (v * 10 + digit_val c) s" by (rule Cons.IH)
  finally show ?case by simp
qed simp

lemma accumulate_digits_foldl:
  "foldl (\<lambda>v c. v * 10 + digit_val c) v s < 2 ^ 63 \<Longrightarrow>
   accumulate_digits s (int v) =
     (if \<forall>c \<in> set s. is_digit c then Some (int (foldl (\<lambda>v c. v * 10 + digit_val c) v s)) else None)"
proof (induction s arbitrary: v)
  case (Cons c s)
  have "v * 10 + digit_val c < 2 ^ 63"
    using foldl_digits_mono [of "v * 10 + digit_val c" s] Cons.prems by simp
  then have "wrap64 (int v * 10 + int (digit_val c)) = int (v * 10 + digit_val c)"
    by (subst wrap64_id) auto
  with Cons.prems Cons.IH [of "v * 10 + digit_val c"] show ?case by simp
qed simp

lemma accumulate_digits_dec_value:
  "dec_value s < 2 ^ 63 \<Longrightarrow>
   accumulate_digits s 0 = (if \<forall>c \<in> set s. is_digit c then Some (int (dec_value s)) else None)"
  using accumulate_digits_foldl [of 0 s] by (simp add: dec_value_def)

lemma to_string_nat_no_char: "\<not> is_digit c \<Longrightarrow> c \<notin> set (to_string_nat n)"
  using to_string_nat_digits by blast

section \<open>Lemmas on lines\<close>

lemma take_line_None: "take_line d = None \<longleftrightarrow> LF \<notin> set d"
  by (simp add: take_line_def Let_def flip: find_char_None split: option.splits)

lemma take_line_crlf:
  "LF \<notin> set l \<Longrightarrow> take_line (l @ CR # LF # r) = Some (l, length l + 2)"
  using find_char_hit [of LF "l @ [CR]" r]
  by (simp add: take_line_def nth_append)

text \<open>Bytes after the newline are never looked at.\<close>

lemma take_line_append: "take_line d = Some (l, n) \<Longrightarrow> take_line (d @ e) = Some (l, n)"
proof -
  assume a: "take_line d = Some (l, n)"
  then obtain nl where nl: "find_char LF d = Some nl"
    by (auto simp: take_line_def split: option.splits)
  then have "LF \<in> set d" and less: "nl < length d"
    using find_char_None [of LF d] find_char_less by auto
  then have "find_char LF (d @ e) = Some nl"
    using nl by (simp add: find_char_append)
  with nl a less show ?thesis
    by (auto simp: take_line_def nth_append Let_def split: if_splits)
qed

lemma take_line_consumed:
  "take_line d = Some (l, n) \<Longrightarrow> 0 < n \<and> n \<le> length d \<and> length l < n \<and> LF \<notin> set l"
  by (auto simp: take_line_def find_char_Some_iff Let_def split: option.splits if_splits)
     (meson in_set_takeD nat_le_linear diff_le_self set_take_subset_set_take subsetD)+

section \<open>Binary search\<close>

text \<open>
  The search behind \<open>std::lower_bound\<close> and \<open>std::upper_bound\<close>: the range that still holds the
  first position where \<open>p\<close> fails is halved.
\<close>

function partition_point :: "(nat \<Rightarrow> bool) \<Rightarrow> nat \<Rightarrow> nat \<Rightarrow> nat" where
  "partition_point p first count =
     (if count = 0 then first
      else let half = count div 2; mid = first + half in
        if p mid then partition_point p (mid + 1) (count - half - 1) else partition_point p first half)"
  by pat_completeness auto
termination by (relation "measure (\<lambda>(_, _, n). n)") auto

declare partition_point.simps [simp del]

lemma partition_point_spec:
  "\<lbrakk>\<forall>i j. i \<le> j \<longrightarrow> j < n \<longrightarrow> p j \<longrightarrow> p i; first + count \<le> n; \<forall>i < first. p i; \<forall>i < n. first + count \<le> i \<longrightarrow> \<not> p i\<rbrakk> \<Longrightarrow>
   partition_point p first count \<le> n \<and> (\<forall>i < n. p i \<longleftrightarrow> i < partition_point p first count)"
proof (induction p first count rule: partition_point.induct)
  case (1 p first count)
  show ?case
  proof (cases "count = 0")
    case True
    with "1.prems" show ?thesis by (subst (1 2) partition_point.simps) (auto simp: not_less)
  next
    case False
    let ?mid = "first + count div 2"
    have mid: "?mid < n" using False "1.prems"(2) by (simp add: less_le_trans)
    have down: "p i" if "p j" "i \<le> j" "j < n" for i j using "1.prems"(1) that by blast
    show ?thesis
    proof (cases "p ?mid")
      case True
      have "\<forall>i < ?mid + 1. p i" using down [OF True _ mid] by (simp add: less_Suc_eq_le)
      moreover have "?mid + 1 + (count - count div 2 - 1) = first + count" using False by simp
      ultimately have "partition_point p (?mid + 1) (count - count div 2 - 1) \<le> n \<and>
          (\<forall>i < n. p i \<longleftrightarrow> i < partition_point p (?mid + 1) (count - count div 2 - 1))"
        using "1.IH"(1) [OF False refl refl True "1.prems"(1)] "1.prems"(2,4) by simp
      then show ?thesis using True False by (subst (1 2) partition_point.simps) (simp add: Let_def)
    next
      case no: False
      have above: "\<not> p i" if "i < n" "?mid \<le> i" for i using no down [of i ?mid] that by auto
      have "partition_point p first (count div 2) \<le> n \<and>
          (\<forall>i < n. p i \<longleftrightarrow> i < partition_point p first (count div 2))"
        by (rule "1.IH"(2) [OF False refl refl no "1.prems"(1) less_imp_le [OF mid] "1.prems"(3)]) (intro allI impI above)
      then show ?thesis using no False by (subst (1 2) partition_point.simps) (simp add: Let_def)
    qed
  qed
qed

lemma partition_point_all:
  assumes "\<forall>i j. i \<le> j \<longrightarrow> j < n \<longrightarrow> p j \<longrightarrow> p i"
  shows "partition_point p 0 n \<le> n" "i < n \<Longrightarrow> p i \<longleftrightarrow> i < partition_point p 0 n"
  using partition_point_spec [OF assms, of 0 n] by auto

end
