(* ===== verification/Dictionary.thy ===== *)
theory Dictionary
  imports Prelude
begin

text \<open>
  The contract of the string-keyed dictionaries of the library, and \<open>std::map\<close>.
  Four classes keep key/value pairs: \<open>std::map\<close> (query strings, MIME parameters),
  \<open>http_headers\<close> (a vector compared case-insensitively), \<open>capture_map\<close> (a vector
  compared exactly) and \<open>tag_storage\<close>.  The locale states what a lookup returns after a
  store, up to the key comparison of the class; each class interprets it in its own theory.
\<close>

locale dictionary =
  fixes lookup :: "'m \<Rightarrow> 'k \<Rightarrow> 'v option"
    and store :: "'k \<Rightarrow> 'v \<Rightarrow> 'm \<Rightarrow> 'm"
    and same :: "'k \<Rightarrow> 'k \<Rightarrow> bool"
    and invar :: "'m \<Rightarrow> bool"
  assumes same_refl: "same k k"
    and same_sym: "same k k' \<Longrightarrow> same k' k"
    and same_trans: "same k k' \<Longrightarrow> same k' k'' \<Longrightarrow> same k k''"
    and lookup_store: "invar m \<Longrightarrow> lookup (store k v m) k' = (if same k k' then Some v else lookup m k')"
    and invar_store: "invar m \<Longrightarrow> invar (store k v m)"
begin

text \<open>Storing a list of pairs from left to right.\<close>

definition store_all :: "('k \<times> 'v) list \<Rightarrow> 'm \<Rightarrow> 'm" where
  "store_all kvs m = foldl (\<lambda>m (k, v). store k v m) m kvs"

lemma invar_store_all: "invar m \<Longrightarrow> invar (store_all kvs m)"
  unfolding store_all_def
  by (induction kvs arbitrary: m) (auto intro: invar_store)

text \<open>The last pair whose key compares equal wins; without one the old entry stays.\<close>

lemma lookup_store_all:
  "invar m \<Longrightarrow> lookup (store_all kvs m) k =
     (case find (\<lambda>(k', v). same k' k) (rev kvs) of Some (_, v) \<Rightarrow> Some v | None \<Rightarrow> lookup m k)"
proof (induction kvs rule: rev_induct)
  case Nil
  then show ?case by (simp add: store_all_def)
next
  case (snoc kv kvs)
  obtain k' v where kv: "kv = (k', v)" by force
  have "lookup (store_all (kvs @ [kv]) m) k = lookup (store k' v (store_all kvs m)) k"
    by (simp add: store_all_def kv)
  also have "\<dots> = (if same k' k then Some v else lookup (store_all kvs m) k)"
    using snoc.prems by (intro lookup_store invar_store_all)
  finally show ?case
    using snoc by (simp add: kv)
qed

lemma store_overwrites: "invar m \<Longrightarrow> lookup (store k v (store k w m)) k' = lookup (store k v m) k'"
  by (simp add: lookup_store invar_store)

end

section \<open>The ordered map \<open>std::map<std::string, \<dots>>\<close>\<close>

text \<open>
  An ordered map is its sorted sequence of entries, which is what iterating over it yields.
  \<open>omap_assign\<close> is \<open>m[k] = v\<close>, \<open>omap_emplace\<close> is \<open>m.emplace(k, v)\<close>, which keeps an
  existing entry.
\<close>

type_synonym ('k, 'v) omap = "('k \<times> 'v) list"

definition omap_find :: "('k, 'v) omap \<Rightarrow> 'k \<Rightarrow> 'v option" where
  "omap_find m k = map_of m k"

fun omap_assign :: "'k::linorder \<Rightarrow> 'v \<Rightarrow> ('k, 'v) omap \<Rightarrow> ('k, 'v) omap" where
  "omap_assign k v [] = [(k, v)]"
| "omap_assign k v ((k', v') # m) =
     (if k < k' then (k, v) # (k', v') # m
      else if k = k' then (k', v) # m
      else (k', v') # omap_assign k v m)"

definition omap_emplace :: "'k::linorder \<Rightarrow> 'v \<Rightarrow> ('k, 'v) omap \<Rightarrow> ('k, 'v) omap" where
  "omap_emplace k v m = (case omap_find m k of None \<Rightarrow> omap_assign k v m | Some _ \<Rightarrow> m)"

definition omap_inv :: "('k::linorder, 'v) omap \<Rightarrow> bool" where
  "omap_inv m \<longleftrightarrow> sorted_wrt (<) (map fst m)"

lemma omap_assign_keys: "set (map fst (omap_assign k v m)) = insert k (set (map fst m))"
  by (induction k v m rule: omap_assign.induct) auto

lemma omap_find_Nil [simp]: "omap_find [] k = None"
  by (simp add: omap_find_def)

lemma omap_inv_Nil [simp]: "omap_inv []"
  by (simp add: omap_inv_def)

lemma omap_inv_assign: "omap_inv m \<Longrightarrow> omap_inv (omap_assign k v m)"
  unfolding omap_inv_def
proof (induction k v m rule: omap_assign.induct)
  case (2 k v k' v' m)
  then show ?case
    using omap_assign_keys [of k v m] by (auto simp del: set_map)
qed simp

lemma omap_find_assign: "omap_find (omap_assign k v m) k' = (if k = k' then Some v else omap_find m k')"
  unfolding omap_find_def by (induction k v m rule: omap_assign.induct) auto

interpretation omap: dictionary omap_find omap_assign "(=)" omap_inv
  by unfold_locales (auto simp: omap_find_assign omap_inv_assign)

lemma omap_inv_emplace: "omap_inv m \<Longrightarrow> omap_inv (omap_emplace k v m)"
  by (simp add: omap_emplace_def omap_inv_assign split: option.splits)

lemma omap_find_emplace:
  "omap_find (omap_emplace k v m) k' =
     (if k = k' \<and> omap_find m k = None then Some v else omap_find m k')"
  by (auto simp: omap_emplace_def omap_find_assign split: option.splits)

text \<open>Assigning a key above all others appends it: this is how a sorted sequence is rebuilt.\<close>

lemma omap_assign_snoc:
  "omap_inv (m @ [(k, v)]) \<Longrightarrow> omap_assign k v m = m @ [(k, v)]"
  unfolding omap_inv_def by (induction m) (auto simp: sorted_wrt_append)

lemma omap_assign_all: "omap_inv (ms @ m) \<Longrightarrow> foldl (\<lambda>a (k, v). omap_assign k v a) ms m = ms @ m"
proof (induction m arbitrary: ms)
  case (Cons kv m)
  obtain k v where kv: "kv = (k, v)" by force
  from Cons.prems have "omap_inv (ms @ [(k, v)])"
    by (auto simp: omap_inv_def sorted_wrt_append kv)
  with Cons show ?case
    by (simp add: kv omap_assign_snoc)
qed simp

end
