(* ===== verification/Url.thy ===== *)
theory Url
  imports Dictionary
begin

text \<open>
  \<open>src/src/protocol/urlencode.cpp\<close> and \<open>http_query_string.cpp\<close>: percent coding and the
  query string.  Decoding inverts encoding on every byte string, and parsing the query
  string that the reverse proxy prints gives back the map it was printed from.
\<close>

section \<open>Percent coding\<close>

definition hex_value :: "char \<Rightarrow> int" where
  "hex_value c =
     (if 48 \<le> chcode c \<and> chcode c \<le> 57 then int (chcode c) - 48
      else if 97 \<le> chcode c \<and> chcode c \<le> 102 then int (chcode c) - 97 + 10
      else if 65 \<le> chcode c \<and> chcode c \<le> 70 then int (chcode c) - 65 + 10
      else -1)"

definition is_unreserved :: "char \<Rightarrow> bool" where
  "is_unreserved c =
     (if 65 \<le> chcode c \<and> chcode c \<le> 90 \<or> 97 \<le> chcode c \<and> chcode c \<le> 122 \<or> 48 \<le> chcode c \<and> chcode c \<le> 57
      then True
      else c = CHR ''-'' \<or> c = CHR ''_'' \<or> c = CHR ''.'' \<or> c = CHR ''~'')"

definition to_hex_digit :: "nat \<Rightarrow> char" where
  "to_hex_digit v = char_of (if v < 10 then 48 + v else 65 + (v - 10))"

fun url_decode :: "string \<Rightarrow> string" where
  "url_decode [] = []"
| "url_decode (c # s) =
     (if c = CHR ''+'' then CHR '' '' # url_decode s
      else case s of
        h # l # r \<Rightarrow>
          (if c = CHR ''%'' \<and> 0 \<le> hex_value h \<and> 0 \<le> hex_value l
           then char_of (nat (hex_value h) * 16 + nat (hex_value l)) # url_decode r
           else c # url_decode s)
      | _ \<Rightarrow> c # url_decode s)"

definition url_encode_char :: "char \<Rightarrow> string" where
  "url_encode_char c =
     (if is_unreserved c then [c]
      else if c = CHR '' '' then ''+''
      else [CHR ''%'', to_hex_digit (chcode c div 16), to_hex_digit (chcode c mod 16)])"

definition url_encode :: "string \<Rightarrow> string" where
  "url_encode s = concat (map url_encode_char s)"

section \<open>Query strings\<close>

type_synonym http_query_string = "(string, string) omap"

function query_loop :: "string \<Rightarrow> http_query_string \<Rightarrow> http_query_string" where
  "query_loop raw values =
     (if raw = [] then values
      else let amp = (case find_char (CHR ''&'') raw of None \<Rightarrow> length raw | Some i \<Rightarrow> i);
               pair = take amp raw;
               rest = drop (amp + 1) raw
           in if pair = [] then query_loop rest values
              else case find_char (CHR ''='') pair of
                None \<Rightarrow> query_loop rest (omap_assign (url_decode pair) [] values)
              | Some eq \<Rightarrow>
                  query_loop rest
                    (omap_assign (url_decode (take eq pair)) (url_decode (drop (eq + 1) pair)) values))"
  by pat_completeness auto
termination
  by (relation "measure (\<lambda>(raw, values). length raw)") auto

declare query_loop.simps [simp del]

definition query_parse :: "string \<Rightarrow> http_query_string" where
  "query_parse raw = query_loop raw []"

definition query_get :: "http_query_string \<Rightarrow> string \<Rightarrow> string option" where
  "query_get q key = omap_find q key"

definition query_isset :: "http_query_string \<Rightarrow> string \<Rightarrow> bool" where
  "query_isset q key \<longleftrightarrow> query_get q key \<noteq> None"

text \<open>
  The reference reading of a query string: its non-empty \<open>&\<close>-separated segments, each
  split at its first \<open>=\<close>.
\<close>

definition query_pair :: "string \<Rightarrow> string \<times> string" where
  "query_pair p =
     (case find_char (CHR ''='') p of
        None \<Rightarrow> (url_decode p, [])
      | Some eq \<Rightarrow> (url_decode (take eq p), url_decode (drop (eq + 1) p)))"

definition query_pairs :: "string \<Rightarrow> (string \<times> string) list" where
  "query_pairs raw = map query_pair (filter (\<lambda>p. p \<noteq> []) (split_on (CHR ''&'') raw))"

section \<open>Decoding inverts encoding\<close>

lemma chcode_to_hex_digit: "v < 16 \<Longrightarrow> chcode (to_hex_digit v) = (if v < 10 then 48 + v else 55 + v)"
  by (simp add: to_hex_digit_def)

lemma hex_value_to_hex_digit [simp]: "v < 16 \<Longrightarrow> hex_value (to_hex_digit v) = int v"
  by (simp add: hex_value_def chcode_to_hex_digit)

lemma unreserved_not_special: "is_unreserved c \<Longrightarrow> c \<noteq> CHR ''+'' \<and> c \<noteq> CHR ''%'' \<and> c \<noteq> CHR ''&'' \<and> c \<noteq> CHR ''=''"
  by (auto simp: is_unreserved_def chcode_def)

lemma url_decode_plain:
  "c \<noteq> CHR ''+'' \<Longrightarrow> c \<noteq> CHR ''%'' \<Longrightarrow> url_decode (c # s) = c # url_decode s"
  by (auto split: list.splits)

lemma url_decode_encode_char: "url_decode (url_encode_char c @ s) = c # url_decode s"
proof (cases "is_unreserved c \<or> c = CHR '' ''")
  case True
  then show ?thesis
    using unreserved_not_special [of c]
    by (auto simp: url_encode_char_def url_decode_plain simp del: url_decode.simps(2))
       (simp add: is_unreserved_def)
next
  case False
  have "chcode c div 16 < 16" by (simp add: less_mult_imp_div_less)
  then have "url_decode (url_encode_char c @ s) =
      char_of (chcode c div 16 * 16 + chcode c mod 16) # url_decode s"
    using False by (simp add: url_encode_char_def)
  then show ?thesis by simp
qed

lemma url_decode_encode_append: "url_decode (url_encode s @ t) = s @ url_decode t"
  by (induction s) (simp_all add: url_encode_def url_decode_encode_char)

lemma url_encode_chars: "x \<in> set (url_encode s) \<Longrightarrow> is_unreserved x \<or> x = CHR ''+'' \<or> x = CHR ''%''"
proof -
  have "is_unreserved (to_hex_digit v)" if "v < 16" for v
    using that by (simp add: is_unreserved_def chcode_to_hex_digit)
  then have "is_unreserved (to_hex_digit (chcode c div 16))" "is_unreserved (to_hex_digit (chcode c mod 16))" for c
    by (simp_all add: less_mult_imp_div_less)
  then show "x \<in> set (url_encode s) \<Longrightarrow> ?thesis"
    by (auto simp: url_encode_def url_encode_char_def split: if_splits)
qed

lemma url_encode_no_delim: "CHR ''&'' \<notin> set (url_encode s)" "CHR ''='' \<notin> set (url_encode s)"
  using url_encode_chars [of "CHR ''&''" s] url_encode_chars [of "CHR ''=''" s]
  by (auto simp: is_unreserved_def chcode_def)

text \<open>Percent coding round trip: decoding an encoded byte string gives it back.\<close>

theorem url_decode_url_encode: "url_decode (url_encode s) = s"
  using url_decode_encode_append [of s "[]"] by simp

section \<open>The query string as a map\<close>

lemma query_pairs_step:
  assumes "raw \<noteq> []"
  defines "amp \<equiv> (case find_char (CHR ''&'') raw of None \<Rightarrow> length raw | Some i \<Rightarrow> i)"
  shows "query_pairs raw =
     (if take amp raw = [] then [] else [query_pair (take amp raw)]) @ query_pairs (drop (amp + 1) raw)"
  using assms(1) unfolding amp_def query_pairs_def
  by (subst split_on_find) (auto split: option.splits dest: find_char_less)

lemma query_loop_pairs: "query_loop raw m = omap.store_all (query_pairs raw) m"
proof (induction raw m rule: query_loop.induct)
  case (1 raw m)
  show ?case
  proof (cases "raw = []")
    case True
    then show ?thesis
      by (simp add: query_loop.simps query_pairs_def omap.store_all_def)
  next
    case False
    then show ?thesis
      using 1 by (subst query_loop.simps)
        (simp add: Let_def query_pairs_step [OF False] query_pair_def omap.store_all_def split: option.splits)
  qed
qed

lemma query_inv: "omap_inv (query_parse raw)"
  by (simp add: query_parse_def query_loop_pairs omap.invar_store_all)

text \<open>
  The query string parser agrees with the reference reading: a key is bound to the value of
  its last occurrence, and to nothing when it does not occur.
\<close>

theorem query_get_parse:
  "query_get (query_parse raw) k = map_option snd (find (\<lambda>(k', v). k' = k) (rev (query_pairs raw)))"
  by (auto simp: query_get_def query_parse_def query_loop_pairs omap.lookup_store_all
      split: option.splits)

end
