(* ===== verification/Http_Method.thy ===== *)
theory Http_Method
  imports Prelude
begin

text \<open>
  \<open>src/src/protocol/http_method.cpp\<close>: method names with the flags and the numeric identity
  of the nine known methods, and \<open>http_status.cpp\<close>: status codes, the status line and its
  incremental parser.
\<close>

section \<open>Methods\<close>

datatype http_method_id =
    Custom | Get | Head | Post | Put | Del | Patch | Options | Trace | Connect

text \<open>\<open>http_method_flags\<close>: one bit each.\<close>

definition request_content :: u32 where "request_content = 1"
definition response_content :: u32 where "response_content = 2"
definition alter_state :: u32 where "alter_state = 4"
definition idempotent :: u32 where "idempotent = 8"
definition cacheable :: u32 where "cacheable = 16"
definition conditional_cacheable :: u32 where "conditional_cacheable = 32"

lemmas method_flag_defs =
  request_content_def response_content_def alter_state_def idempotent_def cacheable_def
  conditional_cacheable_def

definition known_methods :: "(string \<times> u32 \<times> http_method_id) list" where
  "known_methods =
    [(''GET'', response_content OR idempotent OR cacheable, Get),
     (''HEAD'', idempotent OR cacheable, Head),
     (''POST'', request_content OR response_content OR alter_state OR conditional_cacheable, Post),
     (''PUT'', request_content OR alter_state OR idempotent, Put),
     (''DELETE'', alter_state OR idempotent, Del),
     (''PATCH'', request_content OR alter_state, Patch),
     (''OPTIONS'', idempotent, Options),
     (''TRACE'', idempotent, Trace),
     (''CONNECT'', alter_state, Connect)]"

definition find_known :: "string \<Rightarrow> (u32 \<times> http_method_id) option" where
  "find_known n = map_of known_methods n"

record http_method =
  m_name :: string
  m_flags :: u32
  m_id :: http_method_id

definition http_method_of :: "string \<Rightarrow> http_method" where
  "http_method_of n =
     (case find_known n of
        Some (fl, i) \<Rightarrow> \<lparr>m_name = n, m_flags = fl, m_id = i\<rparr>
      | None \<Rightarrow> \<lparr>m_name = n, m_flags = 0, m_id = Custom\<rparr>)"

definition method_is :: "http_method \<Rightarrow> u32 \<Rightarrow> bool" where
  "method_is m flag \<longleftrightarrow> m_flags m AND flag \<noteq> 0"

text \<open>\<open>operator==\<close> compares names only.\<close>

definition method_eq :: "http_method \<Rightarrow> http_method \<Rightarrow> bool" where
  "method_eq a b \<longleftrightarrow> m_name a = m_name b"

section \<open>Status codes\<close>

definition reason_table :: "(int \<times> string) list" where
  "reason_table =
    [(100, ''Continue''), (101, ''Switching Protocols''), (200, ''OK''), (201, ''Created''),
     (202, ''Accepted''), (204, ''No Content''), (206, ''Partial Content''),
     (301, ''Moved Permanently''), (302, ''Found''), (303, ''See Other''), (304, ''Not Modified''),
     (307, ''Temporary Redirect''), (308, ''Permanent Redirect''), (400, ''Bad Request''),
     (401, ''Unauthorized''), (403, ''Forbidden''), (404, ''Not Found''),
     (405, ''Method Not Allowed''), (406, ''Not Acceptable''), (408, ''Request Timeout''),
     (409, ''Conflict''), (410, ''Gone''), (411, ''Length Required''),
     (412, ''Precondition Failed''), (413, ''Payload Too Large''), (414, ''URI Too Long''),
     (415, ''Unsupported Media Type''), (416, ''Range Not Satisfiable''),
     (417, ''Expectation Failed''), (426, ''Upgrade Required''), (429, ''Too Many Requests''),
     (431, ''Request Header Fields Too Large''), (500, ''Internal Server Error''),
     (501, ''Not Implemented''), (502, ''Bad Gateway''), (503, ''Service Unavailable''),
     (504, ''Gateway Timeout''), (505, ''HTTP Version Not Supported'')]"

definition reason_phrase :: "int \<Rightarrow> string" where
  "reason_phrase code = (case map_of reason_table code of Some p \<Rightarrow> p | None \<Rightarrow> ''Unknown'')"

definition write_status_line :: "int \<Rightarrow> int \<Rightarrow> string" where
  "write_status_line code http_minor_version =
     ''HTTP/1.'' @ to_string_int http_minor_version @ '' '' @ to_string_int code @ '' '' @
     reason_phrase code @ CRLF"

record status_line =
  sl_code :: int
  sl_major :: int
  sl_minor :: int

text \<open>
  The part of \<open>http_status::try_parse\<close> after the line has been cut out.  The digit loop
  returns \<open>-1\<close> at the first non-digit; over three characters that is the test that all are
  digits, followed by the accumulated value.
\<close>

definition status_of_line :: "string \<Rightarrow> status_line option" where
  "status_of_line line =
     (if length line < 12 \<or> take 5 line \<noteq> ''HTTP/'' \<or> line ! 6 \<noteq> CHR ''.'' \<or> line ! 8 \<noteq> CHR '' ''
      then None
      else let major_ch = line ! 5; minor_ch = line ! 7 in
        if \<not> is_digit major_ch \<or> \<not> is_digit minor_ch then None
        else let code_part = (case find_char_from (CHR '' '') 9 line of
                                None \<Rightarrow> drop 9 line
                              | Some sp2 \<Rightarrow> substr 9 (sp2 - 9) line) in
          if length code_part \<noteq> 3 \<or> \<not> list_all is_digit code_part then None
          else Some \<lparr>sl_code = int (dec_value code_part),
                     sl_major = int (digit_val major_ch), sl_minor = int (digit_val minor_ch)\<rparr>)"

definition status_try_parse :: "string \<Rightarrow> status_line parsed" where
  "status_try_parse data =
     (case take_line data of
        None \<Rightarrow> NeedMore
      | Some (line, consumed) \<Rightarrow>
          (case status_of_line line of None \<Rightarrow> Malformed | Some st \<Rightarrow> Parsed consumed st))"

section \<open>Incremental parsers\<close>

text \<open>
  What the readers of \<open>server/connection.cpp\<close>, \<open>http1_io.cpp\<close> and \<open>reverse_proxy.cpp\<close>
  rely on when they call a \<open>try_parse\<close> on a buffer that grows as data arrives: it asks for
  more exactly until a newline has arrived, and from then on its answer never changes.
\<close>

locale incremental_parser =
  fixes try_parse :: "string \<Rightarrow> 'a parsed"
  assumes need_more: "try_parse d = NeedMore \<longleftrightarrow> LF \<notin> set d"
    and stable: "try_parse d \<noteq> NeedMore \<Longrightarrow> try_parse (d @ e) = try_parse d"
    and consumed: "try_parse d = Parsed n x \<Longrightarrow> 0 < n \<and> n \<le> length d"
begin

text \<open>Feeding the data segment by segment, as the read loops do.\<close>

primrec feed :: "string \<Rightarrow> string list \<Rightarrow> 'a parsed" where
  "feed buf [] = try_parse buf"
| "feed buf (seg # segs) =
     (case try_parse buf of NeedMore \<Rightarrow> feed (buf @ seg) segs | r \<Rightarrow> r)"

lemma feed_whole: "feed buf segs = try_parse (buf @ concat segs)"
proof (induction segs arbitrary: buf)
  case (Cons seg segs)
  then show ?case
    using stable [of buf "seg @ concat segs"] by (cases "try_parse buf") auto
qed simp

lemma segmentation_irrelevant: "concat segs = concat segs' \<Longrightarrow> feed buf segs = feed buf segs'"
  by (simp add: feed_whole)

lemma stable_Parsed: "try_parse d = Parsed n x \<Longrightarrow> try_parse (d @ e) = Parsed n x"
  using stable [of d e] by simp

end

lemma line_parser:
  fixes f :: "string \<Rightarrow> 'a option"
  shows "incremental_parser
     (\<lambda>d. case take_line d of None \<Rightarrow> NeedMore
        | Some (l, n) \<Rightarrow> (case f l of None \<Rightarrow> Malformed | Some x \<Rightarrow> Parsed n x))"
proof
  fix d
  show "((case take_line d of None \<Rightarrow> NeedMore
        | Some (l, n) \<Rightarrow> (case f l of None \<Rightarrow> Malformed | Some x \<Rightarrow> Parsed n x)) = NeedMore) =
      (LF \<notin> set d)"
    using take_line_None [of d] by (auto split: option.splits)
next
  fix d e
  assume "(case take_line d of None \<Rightarrow> NeedMore
        | Some (l, n) \<Rightarrow> (case f l of None \<Rightarrow> Malformed | Some x \<Rightarrow> Parsed n x)) \<noteq> NeedMore"
  then show "(case take_line (d @ e) of None \<Rightarrow> NeedMore
        | Some (l, n) \<Rightarrow> (case f l of None \<Rightarrow> Malformed | Some x \<Rightarrow> Parsed n x)) =
      (case take_line d of None \<Rightarrow> NeedMore
        | Some (l, n) \<Rightarrow> (case f l of None \<Rightarrow> Malformed | Some x \<Rightarrow> Parsed n x))"
    by (cases "take_line d") (auto simp: take_line_append)
next
  fix d n and x :: 'a
  assume "(case take_line d of None \<Rightarrow> NeedMore
        | Some (l, n) \<Rightarrow> (case f l of None \<Rightarrow> Malformed | Some x \<Rightarrow> Parsed n x)) = Parsed n x"
  then show "0 < n \<and> n \<le> length d"
    using take_line_consumed by (auto split: option.splits)
qed

interpretation status: incremental_parser status_try_parse
  unfolding status_try_parse_def by (rule line_parser)

section \<open>Status line round trip\<close>

lemma reason_table_no_LF: "list_all (\<lambda>(c, p). LF \<notin> set p) reason_table"
  by (simp add: reason_table_def LF_def)

lemma reason_phrase_no_LF: "LF \<notin> set (reason_phrase code)"
proof (cases "map_of reason_table code")
  case None
  then show ?thesis by (simp add: reason_phrase_def LF_def)
next
  case (Some p)
  then show ?thesis
    using reason_table_no_LF map_of_SomeD [OF Some]
    by (auto simp: reason_phrase_def list_all_iff)
qed

lemma to_string_nat_3: "100 \<le> n \<Longrightarrow> n < 1000 \<Longrightarrow>
  to_string_nat n = [digit_char (n div 100), digit_char (n div 10 mod 10), digit_char (n mod 10)]"
proof -
  assume "100 \<le> n" "n < 1000"
  then have "\<not> n < 10" "\<not> n div 10 < 10" "n div 100 < 10" by simp_all
  then show ?thesis
    by (simp add: to_string_nat.simps [of n] to_string_nat.simps [of "n div 10"]
        to_string_nat.simps [of "n div 100"] div_mult2_eq [symmetric])
qed

lemma to_string_nat_1: "n < 10 \<Longrightarrow> to_string_nat n = [digit_char n]"
  by (simp add: to_string_nat.simps)

lemma digit_char_neq:
  "n < 10 \<Longrightarrow> digit_char n \<noteq> CHR '' ''" "n < 10 \<Longrightarrow> digit_char n \<noteq> LF"
  by (auto dest!: is_digit_digit_char simp: is_digit_def chcode_def LF_def)

lemma digit_one: "is_digit (CHR ''1'')" "digit_val (CHR ''1'') = 1"
  by (simp_all add: is_digit_def digit_val_def chcode_def)

text \<open>
  Status line round trip: what \<open>write_status_line\<close> prints for a three-digit code and a
  one-digit minor version, \<open>try_parse\<close> reads back, consuming exactly the line.
\<close>

theorem status_line_round_trip:
  assumes "100 \<le> code" and "code < 1000" and "0 \<le> minor" and "minor < 10"
  shows "status_try_parse (write_status_line code minor @ rest) =
     Parsed (length (write_status_line code minor)) \<lparr>sl_code = code, sl_major = 1, sl_minor = minor\<rparr>"
proof -
  define a b c where "a = digit_char (nat code div 100)" and "b = digit_char (nat code div 10 mod 10)"
    and "c = digit_char (nat code mod 10)"
  define body where "body = ''HTTP/1.'' @ [digit_char (nat minor)] @ '' '' @ [a, b, c] @ '' '' @ reason_phrase code"
  have three: "to_string_int code = [a, b, c]"
    using assms to_string_nat_3 [of "nat code"] by (simp add: to_string_int_def a_def b_def c_def)
  have one: "to_string_int minor = [digit_char (nat minor)]"
    using assms to_string_nat_1 [of "nat minor"] by (simp add: to_string_int_def)
  have line: "write_status_line code minor = body @ CRLF"
    by (simp add: write_status_line_def body_def three one)
  have "dec_value (to_string_int code) = nat code"
    using assms by (simp add: to_string_int_def)
  then have val: "dec_value [a, b, c] = nat code"
    by (simp only: three)
  have dig: "list_all is_digit [a, b, c]"
    using assms by (simp add: a_def b_def c_def)
  have sp: "a \<noteq> CHR '' ''" "b \<noteq> CHR '' ''" "c \<noteq> CHR '' ''"
    using assms by (simp_all add: a_def b_def c_def digit_char_neq)
  have "a \<noteq> LF" "b \<noteq> LF" "c \<noteq> LF" "digit_char (nat minor) \<noteq> LF"
    using assms by (simp_all add: a_def b_def c_def digit_char_neq)
  then have no: "LF \<notin> set body"
    using reason_phrase_no_LF by (auto simp: body_def LF_def)
  have "status_of_line body = Some \<lparr>sl_code = code, sl_major = 1, sl_minor = minor\<rparr>"
    using assms dig sp val digit_one
    by (simp add: status_of_line_def body_def find_char_from_def substr_def)
  then show ?thesis
    using take_line_crlf [OF no, of rest] by (simp add: status_try_parse_def line)
qed

theorem status_line_round_trip_witness:
  "status_try_parse (write_status_line 404 1 @ ''rest'') =
     Parsed (length (write_status_line 404 1)) \<lparr>sl_code = 404, sl_major = 1, sl_minor = 1\<rparr>"
  by (rule status_line_round_trip) simp_all

end
