(* ===== verification/Http_Header.thy ===== *)
theory Http_Header
  imports Dictionary Http_Method
begin

text \<open>
  \<open>src/src/protocol/http_header.cpp\<close>: header names compare case-insensitively, a header line
  parses incrementally, and \<open>http_headers\<close> is an ordered list of headers with lookup, store
  and removal by name.
\<close>

section \<open>Comparison of names and search for tokens\<close>

text \<open>
  \<open>strncasecmp(a, b, n) == 0\<close> for \<open>n = |a| = |b|\<close>: bytes are compared through \<open>tolower\<close>, and
  the comparison stops with ``equal'' at a byte that is zero in both.
\<close>

fun strncasecmp_eq :: "string \<Rightarrow> string \<Rightarrow> bool" where
  "strncasecmp_eq (a # as) (b # bs) =
     (if tolower a \<noteq> tolower b then False
      else if a = NUL then True
      else strncasecmp_eq as bs)"
| "strncasecmp_eq _ _ = True"

definition header_name_equals :: "string \<Rightarrow> string \<Rightarrow> bool" where
  "header_name_equals a b = (if length a \<noteq> length b then False else strncasecmp_eq a b)"

definition header_value_contains_token :: "string \<Rightarrow> string \<Rightarrow> bool" where
  "header_value_contains_token value token =
     (let lowered = map tolower value; lowered_token = map tolower token
      in find_sub lowered_token lowered \<noteq> None)"

section \<open>Header lines\<close>

record http_header =
  h_name :: string
  h_value :: string

definition is_blank :: "char \<Rightarrow> bool" where
  "is_blank c \<longleftrightarrow> c = CHR '' '' \<or> c = TAB"

text \<open>
  The two loops that move \<open>value_begin\<close> forward and \<open>value_len\<close> down over blanks; the same
  pair of loops is \<open>trim\<close> of \<open>http_mime_type.cpp\<close>.
\<close>

definition trim :: "string \<Rightarrow> string" where
  "trim s = rev (dropWhile is_blank (rev (dropWhile is_blank s)))"

definition header_of_line :: "string \<Rightarrow> http_header option" where
  "header_of_line line =
     (case find_char (CHR '':'') line of
        None \<Rightarrow> None
      | Some name_len \<Rightarrow>
          if name_len = 0 then None
          else Some \<lparr>h_name = take name_len line, h_value = trim (drop (name_len + 1) line)\<rparr>)"

definition header_try_parse :: "string \<Rightarrow> http_header parsed" where
  "header_try_parse data =
     (case take_line data of
        None \<Rightarrow> NeedMore
      | Some (line, consumed) \<Rightarrow>
          (case header_of_line line of None \<Rightarrow> Malformed | Some h \<Rightarrow> Parsed consumed h))"

section \<open>Header collections\<close>

type_synonym http_headers = "http_header list"

fun headers_set :: "string \<Rightarrow> string \<Rightarrow> http_headers \<Rightarrow> http_headers" where
  "headers_set name value [] = [\<lparr>h_name = name, h_value = value\<rparr>]"
| "headers_set name value (h # hs) =
     (if header_name_equals (h_name h) name then h\<lparr>h_value := value\<rparr> # hs
      else h # headers_set name value hs)"

definition headers_add :: "string \<Rightarrow> string \<Rightarrow> http_headers \<Rightarrow> http_headers" where
  "headers_add name value hs = hs @ [\<lparr>h_name = name, h_value = value\<rparr>]"

definition headers_unset :: "string \<Rightarrow> http_headers \<Rightarrow> http_headers" where
  "headers_unset name hs = filter (\<lambda>h. \<not> header_name_equals (h_name h) name) hs"

fun headers_isset :: "http_headers \<Rightarrow> string \<Rightarrow> bool" where
  "headers_isset [] name = False"
| "headers_isset (h # hs) name =
     (if header_name_equals (h_name h) name then True else headers_isset hs name)"

fun headers_get :: "http_headers \<Rightarrow> string \<Rightarrow> string option" where
  "headers_get [] name = None"
| "headers_get (h # hs) name =
     (if header_name_equals (h_name h) name then Some (h_value h) else headers_get hs name)"

fun headers_get_all :: "http_headers \<Rightarrow> string \<Rightarrow> string list" where
  "headers_get_all [] name = []"
| "headers_get_all (h # hs) name =
     (if header_name_equals (h_name h) name then h_value h # headers_get_all hs name
      else headers_get_all hs name)"

definition header_write :: "http_header \<Rightarrow> string" where
  "header_write h = h_name h @ '': '' @ h_value h @ CRLF"

definition headers_write_to :: "http_headers \<Rightarrow> string" where
  "headers_write_to hs = concat (map header_write hs)"

section \<open>The comparison is an equivalence\<close>

lemma tolower_NUL_iff [simp]: "tolower c = NUL \<longleftrightarrow> c = NUL"
proof
  assume "tolower c = NUL"
  then have "chcode (tolower c) = 0" by simp
  then have "chcode c = chcode NUL"
    by (auto simp: tolower_def split: if_splits)
  then show "c = NUL" by (simp only: chcode_inject)
qed (simp add: tolower_def)

lemma NUL_tolower_iff [simp]: "NUL = tolower c \<longleftrightarrow> c = NUL"
  by (metis tolower_NUL_iff)

lemma tolower_NUL [simp]: "tolower NUL = NUL"
  by simp

lemma strncasecmp_eq_refl: "strncasecmp_eq a a"
  by (induction a) auto

lemma strncasecmp_eq_sym: "strncasecmp_eq a b \<Longrightarrow> strncasecmp_eq b a"
  by (induction a b rule: strncasecmp_eq.induct) (auto split: if_splits)

lemma strncasecmp_eq_trans:
  "strncasecmp_eq a b \<Longrightarrow> strncasecmp_eq b c \<Longrightarrow> length a = length b \<Longrightarrow> length b = length c \<Longrightarrow>
   strncasecmp_eq a c"
proof (induction a b arbitrary: c rule: strncasecmp_eq.induct)
  case (1 a as b bs)
  then obtain x xs where c: "c = x # xs" by (cases c) auto
  from "1.prems" c have eq: "tolower a = tolower b" "tolower b = tolower x"
    by (auto split: if_splits)
  then have "a = NUL \<longleftrightarrow> b = NUL" by (metis tolower_NUL_iff)
  with 1 c eq show ?case by (auto split: if_splits)
qed auto

lemma header_name_equals_refl [simp]: "header_name_equals a a"
  by (simp add: header_name_equals_def strncasecmp_eq_refl)

lemma header_name_equals_sym: "header_name_equals a b \<Longrightarrow> header_name_equals b a"
  by (auto simp: header_name_equals_def strncasecmp_eq_sym split: if_splits)

lemma header_name_equals_trans:
  "header_name_equals a b \<Longrightarrow> header_name_equals b c \<Longrightarrow> header_name_equals a c"
  by (auto simp: header_name_equals_def split: if_splits intro: strncasecmp_eq_trans)

text \<open>On names without a zero byte it is equality up to case.\<close>

lemma header_name_equals_lower:
  "NUL \<notin> set a \<Longrightarrow> header_name_equals a b \<longleftrightarrow> map tolower a = map tolower b"
proof -
  assume nul: "NUL \<notin> set a"
  have "strncasecmp_eq a b \<longleftrightarrow> map tolower a = map tolower b" if "length a = length b"
    using that nul by (induction a b rule: strncasecmp_eq.induct) auto
  then show ?thesis
    by (auto simp: header_name_equals_def dest: map_eq_imp_length_eq)
qed

section \<open>\<open>http_headers\<close> as a dictionary\<close>

lemma headers_get_set:
  "headers_get (headers_set n v hs) n' = (if header_name_equals n n' then Some v else headers_get hs n')"
  by (induction n v hs rule: headers_set.induct)
     (auto intro: header_name_equals_trans header_name_equals_sym)

interpretation headers: dictionary headers_get headers_set header_name_equals "\<lambda>_. True"
  by unfold_locales (auto simp: headers_get_set intro: header_name_equals_sym header_name_equals_trans)

lemma headers_isset_get: "headers_isset hs n \<longleftrightarrow> headers_get hs n \<noteq> None"
  by (induction hs) auto

lemma headers_get_all_get:
  "headers_get hs n = (case headers_get_all hs n of [] \<Rightarrow> None | v # _ \<Rightarrow> Some v)"
  by (induction hs) auto

lemma headers_get_all_append: "headers_get_all (hs @ hs') n = headers_get_all hs n @ headers_get_all hs' n"
  by (induction hs) auto

lemma headers_get_all_add:
  "headers_get_all (headers_add n v hs) n' =
     headers_get_all hs n' @ (if header_name_equals n n' then [v] else [])"
  by (simp add: headers_add_def headers_get_all_append)

lemma headers_get_unset:
  "headers_get (headers_unset n hs) n' = (if header_name_equals n n' then None else headers_get hs n')"
  unfolding headers_unset_def
  by (induction hs) (auto intro: header_name_equals_trans header_name_equals_sym)

text \<open>
  The header collection is a case-insensitive dictionary: a lookup returns the value last stored
  under any spelling of the name, removal forgets every spelling, and neither touches
  another name.
\<close>

theorem headers_dictionary:
  "headers_get (headers_set n v hs) n' = (if header_name_equals n n' then Some v else headers_get hs n')
   \<and> headers_get (headers_unset n hs) n' = (if header_name_equals n n' then None else headers_get hs n')
   \<and> (headers_isset hs n' \<longleftrightarrow> headers_get hs n' \<noteq> None)"
  by (simp add: headers.lookup_store headers_get_unset headers_isset_get)

section \<open>Header line round trip\<close>

interpretation header: incremental_parser header_try_parse
  unfolding header_try_parse_def by (rule line_parser)

text \<open>A header that the line syntax can carry.\<close>

definition wf_header :: "http_header \<Rightarrow> bool" where
  "wf_header h \<longleftrightarrow>
     h_name h \<noteq> [] \<and> CHR '':'' \<notin> set (h_name h) \<and> LF \<notin> set (h_name h) \<and>
     LF \<notin> set (h_value h) \<and> trim (h_value h) = h_value h"

lemma trim_blank_Cons: "is_blank c \<Longrightarrow> trim (c # s) = trim s"
  by (simp add: trim_def)

lemma header_write_line: "header_write h = (h_name h @ '': '' @ h_value h) @ CRLF"
  by (simp add: header_write_def)

lemma header_of_written_line: "wf_header h \<Longrightarrow> header_of_line (h_name h @ '': '' @ h_value h) = Some h"
  by (simp add: header_of_line_def wf_header_def find_char_append trim_blank_Cons is_blank_def)

lemma header_try_parse_write:
  assumes "wf_header h"
  shows "header_try_parse (header_write h @ rest) = Parsed (length (header_write h)) h"
proof -
  have "LF \<notin> set (h_name h @ '': '' @ h_value h)"
    using assms by (auto simp: wf_header_def LF_def)
  from take_line_crlf [OF this, of rest] show ?thesis
    using header_of_written_line [OF assms]
    by (simp add: header_try_parse_def header_write_line)
qed

end
