(* ===== verification/Http_Resource.thy ===== *)
theory Http_Resource
  imports Url Http_Header
begin

text \<open>\<open>src/src/protocol/http_resource.cpp\<close>: the request line.\<close>

record http_resource =
  r_method :: http_method
  r_path :: string
  r_raw_path :: string
  r_query :: http_query_string
  r_major :: int
  r_minor :: int

text \<open>
  The split of a request target at its first \<open>?\<close>; \<open>connection_h2::finish_header_block\<close> does
  the same to \<open>:path\<close>.
\<close>

definition split_target :: "string \<Rightarrow> string \<times> http_query_string" where
  "split_target target =
     (case find_char (CHR ''?'') target of
        None \<Rightarrow> (target, query_parse [])
      | Some qpos \<Rightarrow> (take qpos target, query_parse (drop (qpos + 1) target)))"

definition resource_of_line :: "string \<Rightarrow> http_resource option" where
  "resource_of_line line =
     (case find_char (CHR '' '') line of
        None \<Rightarrow> None
      | Some sp1 \<Rightarrow>
     (case find_char_from (CHR '' '') (sp1 + 1) line of
        None \<Rightarrow> None
      | Some sp2 \<Rightarrow>
          let method_part = take sp1 line;
              target_part = substr (sp1 + 1) (sp2 - sp1 - 1) line;
              version_part = drop (sp2 + 1) line
          in if length version_part \<noteq> 8 \<or> take 5 version_part \<noteq> ''HTTP/'' \<or> version_part ! 6 \<noteq> CHR ''.''
             then None
             else let major_ch = version_part ! 5; minor_ch = version_part ! 7 in
               if \<not> is_digit major_ch \<or> \<not> is_digit minor_ch then None
               else let (raw, q) = split_target target_part in
                 Some \<lparr>r_method = http_method_of method_part, r_path = url_decode raw, r_raw_path = raw,
                       r_query = q, r_major = int (digit_val major_ch), r_minor = int (digit_val minor_ch)\<rparr>))"

definition resource_try_parse :: "string \<Rightarrow> http_resource parsed" where
  "resource_try_parse data =
     (case take_line data of
        None \<Rightarrow> NeedMore
      | Some (line, consumed) \<Rightarrow>
          (case resource_of_line line of None \<Rightarrow> Malformed | Some r \<Rightarrow> Parsed consumed r))"

interpretation resource: incremental_parser resource_try_parse
  unfolding resource_try_parse_def by (rule line_parser)

section \<open>Reading a well-formed request line\<close>

lemma resource_of_request_line:
  assumes "CHR '' '' \<notin> set m" and "CHR '' '' \<notin> set t" and "is_digit a" and "is_digit b"
  shows "resource_of_line (m @ '' '' @ t @ '' HTTP/'' @ [a, CHR ''.'', b]) =
     Some \<lparr>r_method = http_method_of m, r_path = url_decode (fst (split_target t)),
           r_raw_path = fst (split_target t), r_query = snd (split_target t),
           r_major = int (digit_val a), r_minor = int (digit_val b)\<rparr>"
  using assms
  by (simp add: resource_of_line_def find_char_append find_char_from_def substr_def Let_def split_beta)



text \<open>
  The request-line, status-line and header-line parsers are incremental: they ask for more data
  exactly while no newline has arrived, and once they answer, further data never changes the
  answer.
\<close>

theorem parsers_incremental:
  "(resource_try_parse d = NeedMore \<longleftrightarrow> LF \<notin> set d) \<and>
   (header_try_parse d = NeedMore \<longleftrightarrow> LF \<notin> set d) \<and>
   (status_try_parse d = NeedMore \<longleftrightarrow> LF \<notin> set d) \<and>
   (LF \<in> set d \<longrightarrow> resource_try_parse (d @ e) = resource_try_parse d \<and>
      header_try_parse (d @ e) = header_try_parse d \<and> status_try_parse (d @ e) = status_try_parse d)"
  using resource.stable header.stable status.stable
  by (simp add: resource.need_more header.need_more status.need_more)

theorem parsers_incremental_witness:
  "LF \<in> set (''A: b'' @ CRLF) \<and>
   header_try_parse ((''A: b'' @ CRLF) @ ''more'') = header_try_parse (''A: b'' @ CRLF)"
  using parsers_incremental [of "''A: b'' @ CRLF" "''more''"] by simp

end
