(* ===== verification/Io_Stream.thy ===== *)
theory Io_Stream
  imports Prelude
begin

text \<open>
  \<open>src/include/nhttp/io/stream.hpp\<close> and its implementations that live in memory.  The virtual
  class \<open>io::stream\<close> is a record of its operations over the state of the implementation, so a
  decorator (\<open>range_stream\<close>, \<open>buffered_wire_stream\<close>, \<open>chunked_decoder_stream\<close>) takes the
  operations of the stream it wraps as an argument.  A read may fail to return, which is
  \<open>None\<close>; bytes travel as characters.

  The contract of the class is the locale \<open>byte_source\<close>: the content still to be read is split
  by every read into the bytes returned and the content that remains, and a read of a
  non-empty content returns at least one byte.  \<open>seekable_source\<close> adds a known length and
  absolute positioning, \<open>live_source\<close> the refusal of both.
\<close>

section \<open>The interface\<close>

datatype seek_origin = SeekBegin | SeekCurrent | SeekEnd

record 's stream_ops =
  st_get_length :: "'s \<Rightarrow> int"
  st_can_seek :: "'s \<Rightarrow> bool"
  st_seek :: "int \<Rightarrow> seek_origin \<Rightarrow> 's \<Rightarrow> int \<times> 's"
  st_read :: "nat \<Rightarrow> 's \<Rightarrow> (string \<times> 's) option"
  st_write :: "string \<Rightarrow> 's \<Rightarrow> nat \<times> 's"

text \<open>\<open>stream::read_all\<close>.\<close>

partial_function (option) read_all :: "'s stream_ops \<Rightarrow> string \<Rightarrow> 's \<Rightarrow> (string \<times> 's) option" where
  "read_all ops out s =
     Option.bind (st_read ops 4096 s)
       (\<lambda>(bs, s'). if bs = [] then Some (out, s') else read_all ops (out @ bs) s')"

section \<open>\<open>memory_stream\<close>\<close>

record memory_stream =
  mem_data :: string
  mem_position :: nat

definition memory_seek :: "int \<Rightarrow> seek_origin \<Rightarrow> memory_stream \<Rightarrow> int \<times> memory_stream" where
  "memory_seek offset origin s =
     (let target = (case origin of
                      SeekBegin \<Rightarrow> offset
                    | SeekCurrent \<Rightarrow> int (mem_position s) + offset
                    | SeekEnd \<Rightarrow> int (length (mem_data s)) + offset)
      in if target < 0 \<or> target > int (length (mem_data s)) then (-1, s)
         else (target, s\<lparr>mem_position := nat target\<rparr>))"

definition memory_read :: "nat \<Rightarrow> memory_stream \<Rightarrow> string \<times> memory_stream" where
  "memory_read n s =
     (let remaining = length (mem_data s) - mem_position s;
          to_copy = min n remaining
      in if 0 < to_copy
         then (take to_copy (drop (mem_position s) (mem_data s)), s\<lparr>mem_position := mem_position s + to_copy\<rparr>)
         else ([], s))"

text \<open>\<open>resize\<close> pads with zero bytes; \<open>memcpy\<close> overwrites in place.\<close>

definition memory_write :: "string \<Rightarrow> memory_stream \<Rightarrow> nat \<times> memory_stream" where
  "memory_write buf s =
     (let n = length buf; p = mem_position s;
          d = (if p + n > length (mem_data s)
               then mem_data s @ replicate (p + n - length (mem_data s)) NUL else mem_data s)
      in (n, s\<lparr>mem_data := take p d @ buf @ drop (p + n) d, mem_position := p + n\<rparr>))"

definition memory_ops :: "memory_stream stream_ops" where
  "memory_ops = \<lparr>st_get_length = (\<lambda>s. int (length (mem_data s))), st_can_seek = (\<lambda>_. True),
     st_seek = memory_seek, st_read = (\<lambda>n s. Some (memory_read n s)), st_write = memory_write\<rparr>"

definition memory_of :: "string \<Rightarrow> memory_stream" where
  "memory_of d = \<lparr>mem_data = d, mem_position = 0\<rparr>"

section \<open>\<open>range_stream\<close>\<close>

record 's range_stream =
  rng_inner :: 's
  rng_bounded :: bool
  rng_begin :: int
  rng_end :: int
  rng_position :: int
  rng_positioned :: bool

definition range_stream_of :: "'s stream_ops \<Rightarrow> 's \<Rightarrow> int \<Rightarrow> int \<Rightarrow> 's range_stream" where
  "range_stream_of ops inner b e =
     (if b < 0 \<or> e < 0
      then \<lparr>rng_inner = inner, rng_bounded = False, rng_begin = 0, rng_end = 0, rng_position = 0,
            rng_positioned = False\<rparr>
      else let len = st_get_length ops inner;
               b' = (if 0 \<le> len then min b len else b);
               e' = (if 0 \<le> len then min (max e b') len else max e b')
           in \<lparr>rng_inner = inner, rng_bounded = True, rng_begin = b', rng_end = e', rng_position = 0,
               rng_positioned = False\<rparr>)"

definition range_get_length :: "'s stream_ops \<Rightarrow> 's range_stream \<Rightarrow> int" where
  "range_get_length ops s =
     (if rng_bounded s then rng_end s - rng_begin s else st_get_length ops (rng_inner s))"

definition ensure_positioned :: "'s stream_ops \<Rightarrow> 's range_stream \<Rightarrow> 's range_stream" where
  "ensure_positioned ops s =
     (if \<not> rng_positioned s
      then (if rng_bounded s
            then s\<lparr>rng_inner := snd (st_seek ops (rng_begin s) SeekBegin (rng_inner s)), rng_positioned := True\<rparr>
            else s\<lparr>rng_positioned := True\<rparr>)
      else s)"

definition range_seek ::
  "'s stream_ops \<Rightarrow> int \<Rightarrow> seek_origin \<Rightarrow> 's range_stream \<Rightarrow> int \<times> 's range_stream" where
  "range_seek ops offset origin s =
     (let target = (case origin of
                      SeekBegin \<Rightarrow> offset
                    | SeekCurrent \<Rightarrow> rng_position s + offset
                    | SeekEnd \<Rightarrow> (if rng_bounded s then rng_end s - rng_begin s
                                  else st_get_length ops (rng_inner s)) + offset)
      in if target < 0 then (-1, s)
         else let inner_target = (if rng_bounded s then rng_begin s + target else target);
                  (result, inner') = st_seek ops inner_target SeekBegin (rng_inner s)
              in if result < 0 then (-1, s\<lparr>rng_inner := inner'\<rparr>)
                 else let p = (if rng_bounded s then result - rng_begin s else result)
                      in (p, s\<lparr>rng_inner := inner', rng_position := p, rng_positioned := True\<rparr>))"

text \<open>The clamp of \<open>n\<close> to the window shared by \<open>read\<close> and \<open>write\<close>; \<open>None\<close> is \<open>co_return 0\<close>.\<close>

definition range_clamp :: "'s range_stream \<Rightarrow> nat \<Rightarrow> nat option" where
  "range_clamp s n =
     (if rng_bounded s
      then let remaining = (rng_end s - rng_begin s) - rng_position s
           in if remaining \<le> 0 then None
              else Some (if int n > remaining then nat remaining else n)
      else Some n)"

definition range_read ::
  "'s stream_ops \<Rightarrow> nat \<Rightarrow> 's range_stream \<Rightarrow> (string \<times> 's range_stream) option" where
  "range_read ops n s0 =
     (let s = ensure_positioned ops s0 in
      case range_clamp s n of
        None \<Rightarrow> Some ([], s)
      | Some n' \<Rightarrow>
          Option.bind (st_read ops n' (rng_inner s))
            (\<lambda>(got, inner'). Some (got, s\<lparr>rng_inner := inner', rng_position := rng_position s + int (length got)\<rparr>)))"

definition range_write :: "'s stream_ops \<Rightarrow> string \<Rightarrow> 's range_stream \<Rightarrow> nat \<times> 's range_stream" where
  "range_write ops buf s0 =
     (let s = ensure_positioned ops s0 in
      case range_clamp s (length buf) of
        None \<Rightarrow> (0, s)
      | Some n' \<Rightarrow>
          let (written, inner') = st_write ops (take n' buf) (rng_inner s)
          in (written, s\<lparr>rng_inner := inner', rng_position := rng_position s + int written\<rparr>))"

definition range_ops :: "'s stream_ops \<Rightarrow> 's range_stream stream_ops" where
  "range_ops ops = \<lparr>st_get_length = range_get_length ops, st_can_seek = (\<lambda>s. st_can_seek ops (rng_inner s)),
     st_seek = range_seek ops, st_read = range_read ops, st_write = range_write ops\<rparr>"

section \<open>\<open>buffered_wire_stream\<close>\<close>

text \<open>
  The left-over of a connection's read buffer followed by its wire.  The state is the pair of
  both; \<open>owned_buffered_wire_stream\<close> differs only in who owns them.
\<close>

definition buffered_read ::
  "'s stream_ops \<Rightarrow> nat \<Rightarrow> string \<times> 's \<Rightarrow> (string \<times> string \<times> 's) option" where
  "buffered_read ops n = (\<lambda>(leftover, wire).
     if leftover \<noteq> []
     then let to_copy = min n (length leftover)
          in Some (take to_copy leftover, drop to_copy leftover, wire)
     else Option.bind (st_read ops n wire) (\<lambda>(bs, wire'). Some (bs, leftover, wire')))"

definition buffered_ops :: "'s stream_ops \<Rightarrow> (string \<times> 's) stream_ops" where
  "buffered_ops ops = \<lparr>st_get_length = (\<lambda>_. -1), st_can_seek = (\<lambda>_. False), st_seek = (\<lambda>_ _ s. (-1, s)),
     st_read = buffered_read ops, st_write = (\<lambda>_ s. (0, s))\<rparr>"

section \<open>The contract\<close>

locale byte_source =
  fixes ops :: "'s stream_ops"
    and content :: "'s \<Rightarrow> string"
    and invar :: "'s \<Rightarrow> bool"
  assumes read_ok: "invar s \<Longrightarrow> 0 < n \<Longrightarrow>
    \<exists>bs s'. st_read ops n s = Some (bs, s') \<and> content s = bs @ content s' \<and> length bs \<le> n \<and>
            (content s \<noteq> [] \<longrightarrow> bs \<noteq> []) \<and> invar s'"
begin

lemma readE:
  assumes "invar s" and "0 < n"
  obtains bs s' where "st_read ops n s = Some (bs, s')" "content s = bs @ content s'"
    "length bs \<le> n" "content s = [] \<longleftrightarrow> bs = []" "invar s'"
  using read_ok [OF assms] by (metis append_is_Nil_conv)

lemma read_SomeD:
  assumes "st_read ops n s = Some (bs, s')" and "invar s" and "0 < n"
  shows "content s = bs @ content s'" "length bs \<le> n" "content s = [] \<longleftrightarrow> bs = []" "invar s'"
proof -
  obtain cs t where "st_read ops n s = Some (cs, t)" "content s = cs @ content t"
    "length cs \<le> n" "content s = [] \<longleftrightarrow> cs = []" "invar t"
    using assms(2,3) by (rule readE)
  moreover from this(1) have "cs = bs" "t = s'" using assms(1) by simp_all
  ultimately show "content s = bs @ content s'" "length bs \<le> n" "content s = [] \<longleftrightarrow> bs = []" "invar s'"
    by simp_all
qed

text \<open>Reading to the end of the stream returns, with exactly the content.\<close>

lemma read_all_content:
  "invar s \<Longrightarrow> \<exists>s'. read_all ops out s = Some (out @ content s, s') \<and> content s' = [] \<and> invar s'"
proof (induction "length (content s)" arbitrary: s out rule: less_induct)
  case less
  obtain bs s' where r: "st_read ops 4096 s = Some (bs, s')" "content s = bs @ content s'"
    "content s = [] \<longleftrightarrow> bs = []" "invar s'"
    using read_ok [OF less.prems, of 4096] by auto
  show ?case
  proof (cases "bs = []")
    case True
    with r show ?thesis by (subst read_all.simps) simp
  next
    case False
    with r have "length (content s') < length (content s)" by simp
    from less.hyps [OF this r(4), of "out @ bs"] r False show ?thesis
      by (subst read_all.simps) simp
  qed
qed

end

text \<open>A source of known length that can be positioned absolutely.\<close>

locale seekable_source = byte_source +
  fixes whole :: "'a \<Rightarrow> string"
  assumes length_whole: "invar s \<Longrightarrow> st_get_length ops s = int (length (whole s))"
    and seek_ok: "invar s \<Longrightarrow> 0 \<le> t \<Longrightarrow> t \<le> int (length (whole s)) \<Longrightarrow>
      \<exists>s'. st_seek ops t SeekBegin s = (t, s') \<and> content s' = drop (nat t) (whole s) \<and>
           whole s' = whole s \<and> invar s'"
    and read_whole: "invar s \<Longrightarrow> st_read ops n s = Some (bs, s') \<Longrightarrow> whole s' = whole s"

text \<open>A source of unknown length that cannot be positioned: a connection.\<close>

locale live_source = byte_source +
  assumes length_unknown: "st_get_length ops s = -1"
    and seek_refused: "st_seek ops t origin s = (-1, s)"


section \<open>The implementations keep the contract\<close>

lemmas stream_op_defs = memory_ops_def range_ops_def buffered_ops_def

abbreviation memory_content :: "memory_stream \<Rightarrow> string" where
  "memory_content s \<equiv> drop (mem_position s) (mem_data s)"

abbreviation memory_inv :: "memory_stream \<Rightarrow> bool" where
  "memory_inv s \<equiv> mem_position s \<le> length (mem_data s)"

lemma drop_split: "drop p d = take n (drop p d) @ drop (p + n) d"
  by (metis append_take_drop_id drop_drop add.commute)

lemma memory_read_split:
  assumes "memory_inv s" and "0 < n" and "memory_read n s = (bs, s')"
  shows "memory_content s = bs @ memory_content s' \<and> length bs \<le> n \<and>
    (memory_content s \<noteq> [] \<longrightarrow> bs \<noteq> []) \<and> memory_inv s'"
proof (cases "n \<le> length (mem_data s) - mem_position s")
  case True
  with assms have "bs = take n (memory_content s)" "s' = s\<lparr>mem_position := mem_position s + n\<rparr>"
    by (auto simp: memory_read_def Let_def split: if_splits)
  with True assms(1,2) drop_split [of "mem_position s" "mem_data s" n] show ?thesis by auto
next
  case False
  with assms show ?thesis by (auto simp: memory_read_def Let_def split: if_splits)
qed

interpretation memory: seekable_source memory_ops memory_content memory_inv mem_data
proof unfold_locales
  fix s :: memory_stream and n :: nat
  assume "memory_inv s" "0 < n"
  then show "\<exists>bs s'. st_read memory_ops n s = Some (bs, s') \<and>
      memory_content s = bs @ memory_content s' \<and> length bs \<le> n \<and>
      (memory_content s \<noteq> [] \<longrightarrow> bs \<noteq> []) \<and> memory_inv s'"
    using memory_read_split [of s n] by (cases "memory_read n s") (auto simp: memory_ops_def)
qed (auto simp: memory_ops_def memory_seek_def memory_read_def Let_def split: if_splits)

lemma memory_write_append:
  assumes "mem_position s = length (mem_data s)"
  shows "memory_write buf s = (length buf, \<lparr>mem_data = mem_data s @ buf, mem_position = length (mem_data s) + length buf\<rparr>)"
  using assms by (cases s) (simp add: memory_write_def Let_def)

lemma memory_write_inv: "memory_inv s \<Longrightarrow> memory_inv (snd (memory_write buf s))"
  by (simp add: memory_write_def Let_def)

lemma memory_of_simps [simp]:
  "mem_data (memory_of d) = d" "mem_position (memory_of d) = 0"
  by (simp_all add: memory_of_def)

text \<open>A window of a seekable source is a seekable source whose whole is the window.\<close>

definition range_whole :: "('s \<Rightarrow> string) \<Rightarrow> 's range_stream \<Rightarrow> string" where
  "range_whole whole s = take (nat (rng_end s - rng_begin s)) (drop (nat (rng_begin s)) (whole (rng_inner s)))"

definition range_content :: "('s \<Rightarrow> string) \<Rightarrow> 's range_stream \<Rightarrow> string" where
  "range_content whole s = drop (nat (rng_position s)) (range_whole whole s)"

definition range_inv ::
  "('s \<Rightarrow> string) \<Rightarrow> ('s \<Rightarrow> bool) \<Rightarrow> ('s \<Rightarrow> string) \<Rightarrow> 's range_stream \<Rightarrow> bool" where
  "range_inv content invar whole s \<longleftrightarrow>
     rng_bounded s \<and> invar (rng_inner s) \<and> 0 \<le> rng_begin s \<and> rng_begin s \<le> rng_end s \<and>
     rng_end s \<le> int (length (whole (rng_inner s))) \<and>
     0 \<le> rng_position s \<and> rng_position s \<le> rng_end s - rng_begin s \<and>
     (if rng_positioned s
      then content (rng_inner s) = drop (nat (rng_begin s + rng_position s)) (whole (rng_inner s))
      else rng_position s = 0)"

context seekable_source
begin

lemma ensure_positioned_ok:
  assumes "range_inv content invar whole s"
  shows "range_inv content invar whole (ensure_positioned ops s)"
    and "rng_positioned (ensure_positioned ops s)"
    and "range_whole whole (ensure_positioned ops s) = range_whole whole s"
    and "rng_position (ensure_positioned ops s) = rng_position s"
    and "rng_begin (ensure_positioned ops s) = rng_begin s"
    and "rng_end (ensure_positioned ops s) = rng_end s"
    and "rng_bounded (ensure_positioned ops s)"
proof -
  have "invar (rng_inner s)" "0 \<le> rng_begin s" "rng_begin s \<le> int (length (whole (rng_inner s)))"
    using assms by (auto simp: range_inv_def)
  from seek_ok [OF this] show "range_inv content invar whole (ensure_positioned ops s)"
    "rng_positioned (ensure_positioned ops s)"
    "range_whole whole (ensure_positioned ops s) = range_whole whole s"
    "rng_position (ensure_positioned ops s) = rng_position s"
    "rng_begin (ensure_positioned ops s) = rng_begin s"
    "rng_end (ensure_positioned ops s) = rng_end s"
    "rng_bounded (ensure_positioned ops s)"
    using assms by (auto simp: range_inv_def range_whole_def ensure_positioned_def)
qed

lemma range_of_inv:
  assumes "invar s" and "0 \<le> b" and "b \<le> e"
  shows "range_inv content invar whole (range_stream_of ops s b e)"
    and "range_whole whole (range_stream_of ops s b e) = take (nat e - nat b) (drop (nat b) (whole s))"
proof -
  show "range_inv content invar whole (range_stream_of ops s b e)"
    using assms by (simp add: range_inv_def range_stream_of_def length_whole Let_def)
  show "range_whole whole (range_stream_of ops s b e) = take (nat e - nat b) (drop (nat b) (whole s))"
  proof (cases "b < int (length (whole s))")
    case True
    with assms show ?thesis
      by (cases "e \<le> int (length (whole s))")
        (simp_all add: range_whole_def range_stream_of_def length_whole nat_diff_distrib)
  next
    case False
    with assms show ?thesis by (simp add: range_whole_def range_stream_of_def length_whole Let_def)
  qed
qed

text \<open>The inner read of a window, clamped to what is left of it.\<close>

lemma range_read_cases:
  assumes "range_inv content invar whole s" and "0 < n"
  defines "p \<equiv> ensure_positioned ops s"
  defines "left \<equiv> nat (rng_end s - rng_begin s - rng_position s)"
  shows "left = 0 \<and> range_read ops n s = Some ([], p) \<or>
    (\<exists>bs t. 0 < left \<and> range_read ops n s =
       Some (bs, p\<lparr>rng_inner := t, rng_position := rng_position s + int (length bs)\<rparr>) \<and>
      content (rng_inner p) = bs @ content t \<and> length bs \<le> n \<and> length bs \<le> left \<and>
      (content (rng_inner p) = [] \<longleftrightarrow> bs = []) \<and> invar t \<and> whole t = whole (rng_inner p))"
proof (cases "left = 0")
  case True
  then show ?thesis
    using ensure_positioned_ok [OF assms(1)]
    by (simp add: left_def p_def range_read_def range_clamp_def Let_def)
next
  case False
  define m where "m = min n left"
  have m: "0 < m" "range_clamp p n = Some m"
    using False assms(2) ensure_positioned_ok [OF assms(1)]
    by (auto simp: m_def p_def left_def range_clamp_def Let_def min_def)
  have "invar (rng_inner p)"
    using ensure_positioned_ok(1) [OF assms(1)] by (simp add: p_def range_inv_def)
  from readE [OF this m(1)] obtain bs t where r: "st_read ops m (rng_inner p) = Some (bs, t)"
    "content (rng_inner p) = bs @ content t" "length bs \<le> m"
    "content (rng_inner p) = [] \<longleftrightarrow> bs = []" "invar t" .
  have "range_read ops n s = Some (bs, p\<lparr>rng_inner := t, rng_position := rng_position s + int (length bs)\<rparr>)"
    using m(2) r(1) ensure_positioned_ok(4) [OF assms(1)]
    by (simp add: range_read_def p_def [symmetric])
  with r False read_whole [OF \<open>invar (rng_inner p)\<close> r(1)] show ?thesis
    by (intro disjI2 exI [of _ bs] exI [of _ t]) (auto simp: m_def)
qed

lemma range_advance:
  assumes inv: "range_inv content invar whole p" and pos: "rng_positioned p"
    and c: "content (rng_inner p) = bs @ content t" and t: "invar t" "whole t = whole (rng_inner p)"
    and le: "int (length bs) \<le> rng_end p - rng_begin p - rng_position p"
  shows "range_inv content invar whole (p\<lparr>rng_inner := t, rng_position := rng_position p + int (length bs)\<rparr>)"
    and "range_content whole p =
      bs @ range_content whole (p\<lparr>rng_inner := t, rng_position := rng_position p + int (length bs)\<rparr>)"
proof -
  let ?w = "whole (rng_inner p)" and ?q = "nat (rng_begin p + rng_position p)"
  have d: "drop ?q ?w = bs @ content t" using inv pos c by (simp add: range_inv_def)
  then have dt: "content t = drop (?q + length bs) ?w"
    by (metis add.commute append_eq_conv_conj drop_drop)
  have q: "nat (rng_begin p + (rng_position p + int (length bs))) = ?q + length bs"
    using inv by (auto simp: range_inv_def)
  show "range_inv content invar whole (p\<lparr>rng_inner := t, rng_position := rng_position p + int (length bs)\<rparr>)"
    using inv t le pos q dt by (auto simp: range_inv_def)
  have "range_content whole p = take (nat (rng_end p - rng_begin p - rng_position p)) (drop ?q ?w)"
    using inv by (simp add: range_content_def range_whole_def range_inv_def drop_take nat_diff_distrib
        nat_add_distrib add.commute)
  moreover have "range_content whole (p\<lparr>rng_inner := t, rng_position := rng_position p + int (length bs)\<rparr>) =
      take (nat (rng_end p - rng_begin p - rng_position p) - length bs) (content t)"
    using inv t by (simp add: range_content_def range_whole_def range_inv_def drop_take nat_diff_distrib
        nat_add_distrib add.commute add.left_commute dt)
  ultimately show "range_content whole p =
      bs @ range_content whole (p\<lparr>rng_inner := t, rng_position := rng_position p + int (length bs)\<rparr>)"
    using le by (simp add: d)
qed

lemma range_byte_source: "byte_source (range_ops ops) (range_content whole) (range_inv content invar whole)"
proof
  fix s :: "'a range_stream" and n :: nat
  assume inv: "range_inv content invar whole s" and n: "0 < n"
  let ?p = "ensure_positioned ops s"
  note pos = ensure_positioned_ok [OF inv]
  have same: "range_content whole ?p = range_content whole s" by (simp add: range_content_def pos)
  have len: "length (range_whole whole s) = nat (rng_end s - rng_begin s)"
    using inv by (auto simp: range_whole_def range_inv_def)
  show "\<exists>bs s'. st_read (range_ops ops) n s = Some (bs, s') \<and>
      range_content whole s = bs @ range_content whole s' \<and> length bs \<le> n \<and>
      (range_content whole s \<noteq> [] \<longrightarrow> bs \<noteq> []) \<and> range_inv content invar whole s'"
    using range_read_cases [OF inv n]
  proof (elim disjE conjE exE)
    assume "nat (rng_end s - rng_begin s - rng_position s) = 0" "range_read ops n s = Some ([], ?p)"
    with len pos(1) same show ?thesis by (simp add: range_ops_def range_content_def)
  next
    fix bs t
    assume r: "range_read ops n s = Some (bs, ?p\<lparr>rng_inner := t, rng_position := rng_position s + int (length bs)\<rparr>)"
      and c: "content (rng_inner ?p) = bs @ content t" and bs: "length bs \<le> n"
        "length bs \<le> nat (rng_end s - rng_begin s - rng_position s)" "content (rng_inner ?p) = [] \<longleftrightarrow> bs = []"
      and t: "invar t" "whole t = whole (rng_inner ?p)"
    have "int (length bs) \<le> rng_end ?p - rng_begin ?p - rng_position ?p"
      using bs(2) pos inv by (auto simp: range_inv_def)
    note adv = range_advance [OF pos(1,2) c t this, unfolded pos(4)]
    have "range_content whole s \<noteq> [] \<longrightarrow> bs \<noteq> []"
      using bs(3) adv(2) pos(1,2) by (auto simp: same range_content_def range_whole_def range_inv_def pos)
    with r bs(1) adv show ?thesis by (simp add: range_ops_def same)
  qed
qed

lemma range_seek_ok:
  assumes inv: "range_inv content invar whole s"
    and t: "0 \<le> t" "t \<le> int (length (range_whole whole s))"
  shows "\<exists>s'. st_seek (range_ops ops) t SeekBegin s = (t, s') \<and>
    range_content whole s' = drop (nat t) (range_whole whole s) \<and>
    range_whole whole s' = range_whole whole s \<and> range_inv content invar whole s'"
proof -
  have le: "rng_begin s + t \<le> rng_end s" "0 \<le> rng_begin s + t" "rng_begin s + t \<le> int (length (whole (rng_inner s)))"
    using inv t by (auto simp: range_inv_def range_whole_def)
  obtain u where u: "st_seek ops (rng_begin s + t) SeekBegin (rng_inner s) = (rng_begin s + t, u)"
    "content u = drop (nat (rng_begin s + t)) (whole (rng_inner s))" "whole u = whole (rng_inner s)" "invar u"
    using seek_ok [OF _ le(2,3)] inv by (auto simp: range_inv_def)
  with inv t le show ?thesis
    by (auto simp: range_ops_def range_seek_def range_content_def range_whole_def range_inv_def)
qed

lemma range_seekable:
  "seekable_source (range_ops ops) (range_content whole) (range_inv content invar whole) (range_whole whole)"
proof (intro seekable_source.intro range_byte_source seekable_source_axioms.intro range_seek_ok)
  fix s :: "'a range_stream"
  assume "range_inv content invar whole s"
  then show "st_get_length (range_ops ops) s = int (length (range_whole whole s))"
    by (auto simp: range_ops_def range_get_length_def range_inv_def range_whole_def)
next
  fix s s' :: "'a range_stream" and n bs
  assume inv: "range_inv content invar whole s" and r: "st_read (range_ops ops) n s = Some (bs, s')"
  note pos = ensure_positioned_ok [OF inv]
  have "invar (rng_inner (ensure_positioned ops s))" using pos(1) by (simp add: range_inv_def)
  with r pos(3) read_whole show "range_whole whole s' = range_whole whole s"
    by (auto simp: range_ops_def range_read_def Let_def range_whole_def split: option.splits bind_splits)
qed

end

text \<open>
  A limit over a live source is its prefix of that length; what follows the prefix stays in the
  source, whatever the reads.
\<close>

lemma range_live:
  fixes ops :: "'s stream_ops"
  assumes "live_source ops content invar"
  shows "byte_source (range_ops ops) (\<lambda>s. take (nat (rng_end s - rng_position s)) (content (rng_inner s)))
    (\<lambda>s. rng_bounded s \<and> rng_begin s = 0 \<and> invar (rng_inner s) \<and>
         drop (nat (rng_end s - rng_position s)) (content (rng_inner s)) = rest)"
proof -
  from assms have src: "byte_source ops content invar"
    and refused: "\<And>t origin s. st_seek ops t origin s = (-1, s)"
    by (auto simp: live_source_def live_source_axioms_def)
  show ?thesis
  proof (unfold_locales, elim conjE)
    fix s :: "'s range_stream" and n
    assume s: "rng_bounded s" "rng_begin s = 0" "invar (rng_inner s)"
      "drop (nat (rng_end s - rng_position s)) (content (rng_inner s)) = rest" and n: "0 < (n::nat)"
    let ?p = "ensure_positioned ops s" and ?left = "nat (rng_end s - rng_position s)"
    have p: "?p = s\<lparr>rng_positioned := True\<rparr>"
      using refused s(1) by (cases s) (simp add: ensure_positioned_def)
    show "\<exists>bs s'. st_read (range_ops ops) n s = Some (bs, s') \<and>
        take ?left (content (rng_inner s)) =
          bs @ take (nat (rng_end s' - rng_position s')) (content (rng_inner s')) \<and> length bs \<le> n \<and>
        (take ?left (content (rng_inner s)) \<noteq> [] \<longrightarrow> bs \<noteq> []) \<and>
        rng_bounded s' \<and> rng_begin s' = 0 \<and> invar (rng_inner s') \<and>
        drop (nat (rng_end s' - rng_position s')) (content (rng_inner s')) = rest"
    proof (cases "?left = 0")
      case True
      with s p show ?thesis by (simp add: range_ops_def range_read_def range_clamp_def)
    next
      case False
      have clamp: "range_clamp ?p n = Some (min n ?left)"
        using False s p by (auto simp: range_clamp_def min_def Let_def)
      have "0 < min n ?left" using n False by simp
      from byte_source.readE [OF src s(3) this] obtain bs u where
        "st_read ops (min n ?left) (rng_inner s) = Some (bs, u)" "content (rng_inner s) = bs @ content u"
        "length bs \<le> min n ?left" "content (rng_inner s) = [] \<longleftrightarrow> bs = []" "invar u" .
      moreover have "nat (rng_end s - (rng_position s + int k)) = ?left - k" for k by arith
      ultimately show ?thesis using clamp p s by (auto simp: range_ops_def range_read_def)
    qed
  qed
qed

text \<open>The left-over followed by the wire is a live source.\<close>

lemma buffered_live:
  assumes "byte_source ops content invar"
  shows "live_source (buffered_ops ops) (\<lambda>(b, s). b @ content s) (\<lambda>(b, s). invar s)"
proof -
  let ?content = "\<lambda>(b, s). b @ content s" and ?invar = "\<lambda>(b, s). invar s"
  have "byte_source (buffered_ops ops) ?content ?invar"
  proof
    fix p :: "string \<times> 'a" and n :: nat
    obtain b s where p: "p = (b, s)" by (cases p)
    assume "?invar p" and n: "0 < n"
    then have s: "invar s" by (simp add: p)
    show "\<exists>bs p'. st_read (buffered_ops ops) n p = Some (bs, p') \<and> ?content p = bs @ ?content p' \<and>
        length bs \<le> n \<and> (?content p \<noteq> [] \<longrightarrow> bs \<noteq> []) \<and> ?invar p'"
    proof (cases "b = []")
      case True
      obtain bs s' where "st_read ops n s = Some (bs, s')" "content s = bs @ content s'" "length bs \<le> n"
        "content s = [] \<longleftrightarrow> bs = []" "invar s'"
        using assms s n by (rule byte_source.readE)
      with True show ?thesis
        by (intro exI [of _ bs] exI [of _ "(b, s')"]) (simp add: p buffered_ops_def buffered_read_def)
    next
      case False
      with s n show ?thesis by (simp add: p buffered_ops_def buffered_read_def Let_def min_def)
    qed
  qed
  then show ?thesis by (simp add: live_source_def live_source_axioms_def buffered_ops_def)
qed

section \<open>\<open>socket_stream\<close> over a scripted peer\<close>

text \<open>
  The kernel socket is outside the source: its reads hand out the segments the peer's bytes
  arrive in, at most \<open>n\<close> bytes of the first one at a time, and end of stream after the last;
  its writes are collected.  Statements about connections quantify over any \<open>byte_source\<close>;
  this one is the instance on which they are evaluated.
\<close>

record socket_stream =
  rx :: "string list"
  tx :: string

fun socket_read :: "nat \<Rightarrow> socket_stream \<Rightarrow> string \<times> socket_stream" where
  "socket_read n s =
     (case rx s of
        [] \<Rightarrow> ([], s)
      | seg # segs \<Rightarrow> (take n seg, s\<lparr>rx := (if length seg \<le> n then segs else drop n seg # segs)\<rparr>))"

definition socket_ops :: "socket_stream stream_ops" where
  "socket_ops = \<lparr>st_get_length = (\<lambda>_. -1), st_can_seek = (\<lambda>_. False), st_seek = (\<lambda>_ _ s. (-1, s)),
     st_read = (\<lambda>n s. Some (socket_read n s)), st_write = (\<lambda>bs s. (length bs, s\<lparr>tx := tx s @ bs\<rparr>))\<rparr>"

abbreviation socket_content :: "socket_stream \<Rightarrow> string" where
  "socket_content s \<equiv> concat (rx s)"

abbreviation socket_inv :: "socket_stream \<Rightarrow> bool" where
  "socket_inv s \<equiv> [] \<notin> set (rx s)"

interpretation socket: live_source socket_ops socket_content socket_inv
  by unfold_locales (auto simp: socket_ops_def append_assoc [symmetric] simp del: append_assoc split: list.splits)

interpretation wire: live_source "buffered_ops socket_ops" "\<lambda>(b, s). b @ socket_content s" "\<lambda>(b, s). socket_inv s"
  by (rule buffered_live) (rule socket.byte_source_axioms)

interpretation window: seekable_source "range_ops memory_ops" "range_content mem_data"
  "range_inv memory_content memory_inv mem_data" "range_whole mem_data"
  by (rule memory.range_seekable)

section \<open>Properties\<close>

text \<open>
   A \<open>range_stream\<close> over a stream of known length presents exactly the half-open window it was
  given, clamped to the stream: reading it to the end returns, with bytes \<open>b\<close> to \<open>e\<close> of the data,
  whatever the position the inner stream was left at.
\<close>

theorem range_stream_window:
  assumes "0 \<le> b" and "b \<le> e" and "p \<le> length d"
  shows "\<exists>s. read_all (range_ops memory_ops) []
      (range_stream_of memory_ops \<lparr>mem_data = d, mem_position = p\<rparr> b e) =
    Some (take (nat e - nat b) (drop (nat b) d), s)"
proof -
  let ?m = "\<lparr>mem_data = d, mem_position = p\<rparr>"
  have inv: "memory_inv ?m" using assms(3) by simp
  note r = memory.range_of_inv [OF this assms(1,2)]
  have "rng_position (range_stream_of memory_ops ?m b e) = 0"
    by (simp add: range_stream_of_def Let_def)
  with r(2) have "range_content mem_data (range_stream_of memory_ops ?m b e) = take (nat e - nat b) (drop (nat b) d)"
    by (simp add: range_content_def)
  with window.read_all_content [OF r(1), of "[]"] show ?thesis by auto
qed

theorem range_stream_window_witness:
  "\<exists>s. read_all (range_ops memory_ops) []
      (range_stream_of memory_ops \<lparr>mem_data = ''abcdef'', mem_position = 5\<rparr> 1 4) = Some (''bcd'', s)"
  using range_stream_window [of 1 4 5 "''abcdef''"] by simp

text \<open>
   A body limited by \<open>Content-Length\<close>: over a connection's left-over bytes and its wire, in
  whatever pieces the wire delivers them, a \<open>range_stream\<close> of \<open>[0, n)\<close> reads exactly the next \<open>n\<close>
  bytes and leaves every byte after them for the next message.
\<close>

theorem content_length_body:
  assumes wire: "byte_source ops content invar" and "invar w" and "0 \<le> n"
  shows "\<exists>s. read_all (range_ops (buffered_ops ops)) [] (range_stream_of (buffered_ops ops) (buf, w) 0 n) =
      Some (take (nat n) (buf @ content w), s) \<and>
    fst (rng_inner s) @ content (snd (rng_inner s)) = drop (nat n) (buf @ content w)"
proof -
  let ?ops = "buffered_ops ops" and ?rest = "drop (nat n) (buf @ content w)"
  note limited = range_live [OF buffered_live [OF wire], where rest = ?rest]
  have "rng_end (range_stream_of ?ops (buf, w) 0 n) = n" "rng_bounded (range_stream_of ?ops (buf, w) 0 n)"
    "rng_position (range_stream_of ?ops (buf, w) 0 n) = 0" "rng_begin (range_stream_of ?ops (buf, w) 0 n) = 0"
    "rng_inner (range_stream_of ?ops (buf, w) 0 n) = (buf, w)"
    using assms(3) by (simp_all add: range_stream_of_def buffered_ops_def Let_def)
  with byte_source.read_all_content [OF limited, of "range_stream_of ?ops (buf, w) 0 n" "[]"] assms(2)
  obtain s where s: "read_all (range_ops ?ops) [] (range_stream_of ?ops (buf, w) 0 n) =
      Some (take (nat n) (buf @ content w), s)"
    "take (nat (rng_end s - rng_position s)) ((\<lambda>(b, s). b @ content s) (rng_inner s)) = []"
    "drop (nat (rng_end s - rng_position s)) ((\<lambda>(b, s). b @ content s) (rng_inner s)) = ?rest"
    by (auto simp: case_prod_beta)
  from s(2,3) have "(\<lambda>(b, s). b @ content s) (rng_inner s) = ?rest"
    by (metis append_take_drop_id append_Nil)
  with s(1) show ?thesis by (auto simp: case_prod_beta)
qed

theorem content_length_body_witness:
  "\<exists>s. read_all (range_ops (buffered_ops socket_ops)) []
      (range_stream_of (buffered_ops socket_ops) (''he'', \<lparr>rx = [''l'', ''loGET'', '' /''], tx = []\<rparr>) 0 5) =
      Some (''hello'', s) \<and>
    fst (rng_inner s) @ socket_content (snd (rng_inner s)) = ''GET /''"
  using content_length_body [OF socket.byte_source_axioms, of "\<lparr>rx = [''l'', ''loGET'', '' /''], tx = []\<rparr>" 5 "''he''"]
  by simp

end
