(* ===== verification/Chunked.thy ===== *)
theory Chunked
  imports Io_Stream
begin

text \<open>
  \<open>src/src/protocol/http_chunked.cpp\<close>: the chunk header printer and
  \<open>chunked_decoder_stream\<close>, the decorator that decodes a chunked body read from any stream.  The
  decoder is shown to keep the \<open>byte_source\<close> contract with the content given by \<open>dechunk\<close>, a
  decoder on whole byte strings: however the bytes are cut into reads, the decoded body is the
  same.  \<open>size_t\<close> arithmetic of the chunk size is at 64 bits.
\<close>

section \<open>\<open>format_chunk_header\<close>\<close>

definition lower_hex :: "nat \<Rightarrow> char" where
  "lower_hex v = ''0123456789abcdef'' ! v"

fun hex_digits :: "nat \<Rightarrow> string" where
  "hex_digits v = (if v = 0 then [] else hex_digits (v div 16) @ [lower_hex (v mod 16)])"

declare hex_digits.simps [simp del]

definition format_chunk_header :: "nat \<Rightarrow> string" where
  "format_chunk_header len = (if len = 0 then ''0'' @ CRLF else hex_digits len @ CRLF)"

abbreviation chunk_data_terminator :: string where
  "chunk_data_terminator \<equiv> CRLF"

definition chunked_body_terminator :: string where
  "chunked_body_terminator = ''0'' @ CRLF @ CRLF"

section \<open>\<open>chunked_decoder_stream\<close>\<close>

record 's chunked_stream =
  ck_source :: 's
  ck_buffer :: string
  ck_eof_source :: bool
  ck_finished :: bool
  ck_remaining :: nat
  ck_need_new_chunk :: bool

definition chunked_stream_of :: "'s \<Rightarrow> 's chunked_stream" where
  "chunked_stream_of src = \<lparr>ck_source = src, ck_buffer = [], ck_eof_source = False, ck_finished = False,
     ck_remaining = 0, ck_need_new_chunk = True\<rparr>"

definition fill_more :: "'s stream_ops \<Rightarrow> 's chunked_stream \<Rightarrow> (bool \<times> 's chunked_stream) option" where
  "fill_more ops s =
     (if ck_eof_source s then Some (False, s)
      else Option.bind (st_read ops 4096 (ck_source s))
        (\<lambda>(chunk, src). if chunk = [] then Some (False, s\<lparr>ck_source := src, ck_eof_source := True\<rparr>)
                        else Some (True, s\<lparr>ck_source := src, ck_buffer := ck_buffer s @ chunk\<rparr>)))"

text \<open>The loops of the decoder that fill the buffer until it satisfies a test or the source ends.\<close>

partial_function (option) fill_until ::
  "'s stream_ops \<Rightarrow> (string \<Rightarrow> bool) \<Rightarrow> 's chunked_stream \<Rightarrow> 's chunked_stream option" where
  "fill_until ops P s =
     (if P (ck_buffer s) \<or> ck_eof_source s then Some s
      else Option.bind (fill_more ops s) (\<lambda>(_, s'). fill_until ops P s'))"

definition strip_cr :: "string \<Rightarrow> string" where
  "strip_cr line = (if line \<noteq> [] \<and> last line = CR then butlast line else line)"

definition read_line :: "'s stream_ops \<Rightarrow> 's chunked_stream \<Rightarrow> (string option \<times> 's chunked_stream) option" where
  "read_line ops s =
     Option.bind (fill_until ops (\<lambda>b. find_char LF b \<noteq> None) s)
       (\<lambda>s. case find_char LF (ck_buffer s) of
              Some nl \<Rightarrow> Some (Some (strip_cr (take nl (ck_buffer s))), s\<lparr>ck_buffer := drop (nl + 1) (ck_buffer s)\<rparr>)
            | None \<Rightarrow> Some (None, s))"

text \<open>The digits of a size line: the accumulated size and whether there was any digit.\<close>

definition chunk_digit :: "char \<Rightarrow> nat option" where
  "chunk_digit c =
     (if CHR ''0'' \<le> c \<and> c \<le> CHR ''9'' then Some (chcode c - chcode CHR ''0'')
      else if CHR ''a'' \<le> c \<and> c \<le> CHR ''f'' then Some (chcode c - chcode CHR ''a'' + 10)
      else if CHR ''A'' \<le> c \<and> c \<le> CHR ''F'' then Some (chcode c - chcode CHR ''A'' + 10)
      else None)"

fun chunk_size :: "string \<Rightarrow> nat \<Rightarrow> bool \<Rightarrow> nat \<times> bool" where
  "chunk_size [] sz any_digit = (sz, any_digit)"
| "chunk_size (c # cs) sz any_digit =
     (case chunk_digit c of
        None \<Rightarrow> (sz, any_digit)
      | Some v \<Rightarrow> chunk_size cs ((sz * 16 + v) mod 2 ^ 64) True)"

partial_function (option) skip_trailers :: "'s stream_ops \<Rightarrow> 's chunked_stream \<Rightarrow> 's chunked_stream option" where
  "skip_trailers ops s =
     Option.bind (read_line ops s)
       (\<lambda>(line, s'). if line = None \<or> line = Some [] then Some s' else skip_trailers ops s')"

definition begin_next_chunk :: "'s stream_ops \<Rightarrow> 's chunked_stream \<Rightarrow> (bool \<times> 's chunked_stream) option" where
  "begin_next_chunk ops s =
     Option.bind (read_line ops s)
       (\<lambda>(line, s). case line of
          None \<Rightarrow> Some (False, s\<lparr>ck_finished := True\<rparr>)
        | Some line \<Rightarrow>
            let (sz, any_digit) = chunk_size line 0 False in
            if \<not> any_digit then Some (False, s\<lparr>ck_finished := True\<rparr>)
            else if sz = 0 then
              Option.bind (skip_trailers ops s) (\<lambda>s. Some (False, s\<lparr>ck_finished := True\<rparr>))
            else Some (True, s\<lparr>ck_remaining := sz, ck_need_new_chunk := False\<rparr>))"

text \<open>The part of \<open>read\<close> after the chunk header: \<open>None\<close> as the bytes is \<open>continue\<close>.\<close>

definition chunked_copy ::
  "'s stream_ops \<Rightarrow> nat \<Rightarrow> 's chunked_stream \<Rightarrow> (string option \<times> 's chunked_stream) option" where
  "chunked_copy ops n s =
     Option.bind (fill_until ops (\<lambda>b. b \<noteq> []) s)
       (\<lambda>s. if ck_buffer s = [] then Some (Some [], s\<lparr>ck_finished := True\<rparr>)
            else let to_copy = min n (min (ck_remaining s) (length (ck_buffer s))) in
            if to_copy = 0 then Some (None, s\<lparr>ck_need_new_chunk := True\<rparr>)
            else let bs = take to_copy (ck_buffer s);
                     s = s\<lparr>ck_buffer := drop to_copy (ck_buffer s), ck_remaining := ck_remaining s - to_copy\<rparr>
                 in if ck_remaining s = 0
                    then Option.bind (fill_until ops (\<lambda>b. 2 \<le> length b) s)
                      (\<lambda>s. Some (Some bs,
                         s\<lparr>ck_buffer := (if 2 \<le> length (ck_buffer s) then drop 2 (ck_buffer s) else ck_buffer s),
                           ck_need_new_chunk := True\<rparr>))
                    else Some (Some bs, s))"

partial_function (option) chunked_read ::
  "'s stream_ops \<Rightarrow> nat \<Rightarrow> 's chunked_stream \<Rightarrow> (string \<times> 's chunked_stream) option" where
  "chunked_read ops n s =
     (if ck_finished s then Some ([], s)
      else Option.bind (if ck_need_new_chunk s then begin_next_chunk ops s else Some (True, s))
        (\<lambda>(more, s). if \<not> more then Some ([], s)
                     else Option.bind (chunked_copy ops n s)
                       (\<lambda>(bs, s). case bs of Some bs \<Rightarrow> Some (bs, s) | None \<Rightarrow> chunked_read ops n s)))"

definition chunked_ops :: "'s stream_ops \<Rightarrow> 's chunked_stream stream_ops" where
  "chunked_ops ops = \<lparr>st_get_length = (\<lambda>_. -1), st_can_seek = (\<lambda>_. False), st_seek = (\<lambda>_ _ s. (-1, s)),
     st_read = chunked_read ops, st_write = (\<lambda>_ s. (0, s))\<rparr>"

section \<open>The coding on whole byte strings\<close>

text \<open>What is left of a line break: the line without its terminator, and the bytes after it.\<close>

definition cut_line :: "string \<Rightarrow> (string \<times> string) option" where
  "cut_line raw = map_option (\<lambda>nl. (strip_cr (take nl raw), drop (nl + 1) raw)) (find_char LF raw)"

lemma cut_line_shorter: "cut_line raw = Some (line, rest) \<Longrightarrow> length rest < length raw"
  by (auto simp: cut_line_def dest: find_char_less)

function dechunk :: "string \<Rightarrow> string" where
  "dechunk raw =
     (case cut_line raw of
        None \<Rightarrow> []
      | Some (line, rest) \<Rightarrow>
          let (sz, any_digit) = chunk_size line 0 False in
          if \<not> any_digit \<or> sz = 0 then []
          else take sz rest @ dechunk (drop (sz + 2) rest))"
  by pat_completeness auto
termination by (relation "measure length") (auto dest!: cut_line_shorter)

declare dechunk.simps [simp del]

definition chunk_of :: "string \<Rightarrow> string" where
  "chunk_of piece = format_chunk_header (length piece) @ piece @ chunk_data_terminator"

section \<open>Decoding what was encoded\<close>

lemma chunk_digit_hex: "v < 16 \<Longrightarrow> chunk_digit (lower_hex v) = Some v"
  by (auto simp: less_Suc_eq numeral_eq_Suc chunk_digit_def chcode_def lower_hex_def)

definition is_chunk_digit :: "char \<Rightarrow> bool" where
  "is_chunk_digit c \<longleftrightarrow> chunk_digit c \<noteq> None"

lemma chunk_size_append:
  "chunk_size (xs @ ys) sz any =
     (if list_all is_chunk_digit xs
      then case chunk_size xs sz any of (sz', any') \<Rightarrow> chunk_size ys sz' any'
      else chunk_size xs sz any)"
  by (induction xs arbitrary: sz any) (auto simp: is_chunk_digit_def split: option.splits)

lemma is_chunk_digit_hex: "v < 16 \<Longrightarrow> is_chunk_digit (lower_hex v)"
  by (simp add: is_chunk_digit_def chunk_digit_hex)

lemma hex_digits_digits: "list_all is_chunk_digit (hex_digits v)"
  by (induction v rule: hex_digits.induct) (subst hex_digits.simps, auto simp: is_chunk_digit_hex)

lemma chunk_size_hex_digits: "0 < v \<Longrightarrow> v < 2 ^ 64 \<Longrightarrow> chunk_size (hex_digits v) 0 any = (v, True)"
proof (induction v rule: hex_digits.induct)
  case (1 v)
  show ?case
  proof (cases "v div 16 = 0")
    case True
    with 1 show ?thesis
      by (subst hex_digits.simps) (simp add: hex_digits.simps [of 0] chunk_digit_hex div_eq_0_iff)
  next
    case False
    have "chunk_size (hex_digits (v div 16)) 0 any = (v div 16, True)"
      using False 1 by (intro "1.IH") auto
    moreover have "(v div 16 * 16 + v mod 16) mod 2 ^ 64 = v" using 1(3) by simp
    ultimately show ?thesis
      using 1(2) by (subst hex_digits.simps)
        (simp add: chunk_size_append hex_digits_digits chunk_digit_hex del: mult_div_mod_eq)
  qed
qed

lemma not_chunk_digit: "\<not> is_chunk_digit LF" "\<not> is_chunk_digit CR"
  by (simp_all add: is_chunk_digit_def chunk_digit_def LF_def CR_def)

lemma hex_digits_no_break: "LF \<notin> set (hex_digits v)" "CR \<notin> set (hex_digits v)"
  using hex_digits_digits [of v] not_chunk_digit by (auto simp: list_all_iff)

lemma cut_line_crlf [simp]: "LF \<notin> set xs \<Longrightarrow> cut_line (xs @ CRLF @ rest) = Some (xs, rest)"
proof -
  assume "LF \<notin> set xs"
  then have "find_char LF ((xs @ [CR]) @ LF # rest) = Some (length (xs @ [CR]))"
    by (intro find_char_hit) auto
  then show ?thesis by (simp add: cut_line_def strip_cr_def)
qed

lemma dechunk_chunk_of:
  assumes "piece \<noteq> []" and "length piece < 2 ^ 64"
  shows "dechunk (chunk_of piece @ rest) = piece @ dechunk rest"
proof -
  have "cut_line (chunk_of piece @ rest) = Some (hex_digits (length piece), piece @ CRLF @ rest)"
    using assms(1) cut_line_crlf [OF hex_digits_no_break(1), of "length piece" "piece @ CRLF @ rest"]
    by (simp add: chunk_of_def format_chunk_header_def)
  moreover have "chunk_size (hex_digits (length piece)) 0 False = (length piece, True)"
    using assms by (intro chunk_size_hex_digits) auto
  ultimately show ?thesis using assms(1) by (subst dechunk.simps) simp
qed

lemma zero_not_LF: "LF \<noteq> CHR ''0''"
  by (simp add: LF_def)

lemma dechunk_terminator: "dechunk (chunked_body_terminator @ rest) = []"
proof -
  have "cut_line (chunked_body_terminator @ rest) = Some (''0'', CRLF @ rest)"
    using cut_line_crlf [of "''0''" "CRLF @ rest"] by (simp add: chunked_body_terminator_def zero_not_LF)
  then show ?thesis by (subst dechunk.simps) (simp add: chunk_digit_def)
qed

lemma dechunk_chunks:
  assumes "\<forall>p \<in> set pieces. p \<noteq> [] \<and> length p < 2 ^ 64"
  shows "dechunk (concat (map chunk_of pieces) @ chunked_body_terminator @ rest) = concat pieces"
  using assms by (induction pieces) (simp_all add: dechunk_terminator dechunk_chunk_of)

lemma dechunk_short: "length raw \<le> 1 \<Longrightarrow> dechunk raw = []"
  by (cases raw) (auto simp: dechunk.simps cut_line_def strip_cr_def)

section \<open>The decoder keeps the stream contract\<close>

definition chunked_raw :: "('s \<Rightarrow> string) \<Rightarrow> 's chunked_stream \<Rightarrow> string" where
  "chunked_raw content s = ck_buffer s @ content (ck_source s)"

definition chunked_content :: "('s \<Rightarrow> string) \<Rightarrow> 's chunked_stream \<Rightarrow> string" where
  "chunked_content content s =
     (if ck_finished s then []
      else if ck_need_new_chunk s then dechunk (chunked_raw content s)
      else take (ck_remaining s) (chunked_raw content s) @
        dechunk (drop (ck_remaining s + 2) (chunked_raw content s)))"

definition source_inv :: "('s \<Rightarrow> string) \<Rightarrow> ('s \<Rightarrow> bool) \<Rightarrow> 's chunked_stream \<Rightarrow> bool" where
  "source_inv content invar s \<longleftrightarrow>
     invar (ck_source s) \<and> (ck_eof_source s \<longrightarrow> content (ck_source s) = [])"

definition chunked_inv :: "('s \<Rightarrow> string) \<Rightarrow> ('s \<Rightarrow> bool) \<Rightarrow> 's chunked_stream \<Rightarrow> bool" where
  "chunked_inv content invar s \<longleftrightarrow>
     source_inv content invar s \<and> (\<not> ck_finished s \<and> \<not> ck_need_new_chunk s \<longrightarrow> 0 < ck_remaining s)"

lemma source_inv_update [simp]:
  "source_inv content invar (s\<lparr>ck_finished := f\<rparr>) = source_inv content invar s"
  "source_inv content invar (s\<lparr>ck_remaining := r\<rparr>) = source_inv content invar s"
  "source_inv content invar (s\<lparr>ck_need_new_chunk := n\<rparr>) = source_inv content invar s"
  "source_inv content invar (s\<lparr>ck_buffer := b\<rparr>) = source_inv content invar s"
  by (simp_all add: source_inv_def)

lemma chunked_raw_update [simp]:
  "chunked_raw content (s\<lparr>ck_finished := f\<rparr>) = chunked_raw content s"
  "chunked_raw content (s\<lparr>ck_remaining := r\<rparr>) = chunked_raw content s"
  "chunked_raw content (s\<lparr>ck_need_new_chunk := n\<rparr>) = chunked_raw content s"
  "chunked_raw content (s\<lparr>ck_buffer := b\<rparr>) = b @ content (ck_source s)"
  by (simp_all add: chunked_raw_def)

text \<open>Two states that differ only in how far the source has been read into the buffer.\<close>

definition refilled :: "('s \<Rightarrow> string) \<Rightarrow> 's chunked_stream \<Rightarrow> 's chunked_stream \<Rightarrow> bool" where
  "refilled content s s' \<longleftrightarrow>
     chunked_raw content s' = chunked_raw content s \<and> ck_finished s' = ck_finished s \<and>
     ck_remaining s' = ck_remaining s \<and> ck_need_new_chunk s' = ck_need_new_chunk s"

context byte_source
begin

lemma fill_until_returns:
  "source_inv content invar s \<Longrightarrow>
   \<exists>s'. fill_until ops P s = Some s' \<and> refilled content s s' \<and> source_inv content invar s' \<and>
        (P (ck_buffer s') \<or> ck_eof_source s')"
proof (induction "length (content (ck_source s))" arbitrary: s rule: less_induct)
  case less
  show ?case
  proof (cases "P (ck_buffer s) \<or> ck_eof_source s")
    case True
    with less.prems show ?thesis by (subst fill_until.simps) (auto simp: refilled_def)
  next
    case False
    obtain bs src where r: "st_read ops 4096 (ck_source s) = Some (bs, src)"
      "content (ck_source s) = bs @ content src" "content (ck_source s) = [] \<longleftrightarrow> bs = []" "invar src"
      using read_ok [of "ck_source s" 4096] less.prems by (auto simp: source_inv_def)
    show ?thesis
    proof (cases "bs = []")
      case True
      let ?t = "s\<lparr>ck_source := src, ck_eof_source := True\<rparr>"
      have "fill_until ops P ?t = Some ?t" by (subst fill_until.simps) simp
      with False True r show ?thesis
        by (subst fill_until.simps) (simp add: fill_more_def refilled_def chunked_raw_def source_inv_def)
    next
      case False
      let ?t = "s\<lparr>ck_source := src, ck_buffer := ck_buffer s @ bs\<rparr>"
      have more: "fill_more ops s = Some (True, ?t)"
        using False \<open>\<not> (P (ck_buffer s) \<or> ck_eof_source s)\<close> r(1) by (simp add: fill_more_def)
      have "refilled content s ?t" by (simp add: refilled_def chunked_raw_def r(2))
      moreover have "length (content (ck_source ?t)) < length (content (ck_source s))"
        using False by (simp add: r(2))
      moreover have "source_inv content invar ?t"
        using \<open>\<not> (P (ck_buffer s) \<or> ck_eof_source s)\<close> r(4) by (simp add: source_inv_def)
      ultimately show ?thesis
        using more less.hyps [of ?t] \<open>\<not> (P (ck_buffer s) \<or> ck_eof_source s)\<close>
        by (subst fill_until.simps) (fastforce simp: refilled_def)
    qed
  qed
qed

lemma cut_line_buffered:
  assumes "source_inv content invar s" and "find_char LF (ck_buffer s) \<noteq> None \<or> ck_eof_source s"
  shows "cut_line (chunked_raw content s) =
    map_option (\<lambda>(line, rest). (line, rest @ content (ck_source s))) (cut_line (ck_buffer s))"
proof (cases "find_char LF (ck_buffer s)")
  case None
  with assms show ?thesis by (simp add: chunked_raw_def cut_line_def source_inv_def)
next
  case (Some nl)
  then have "LF \<in> set (ck_buffer s)" "nl < length (ck_buffer s)"
    using find_char_None [of LF "ck_buffer s"] find_char_less by (fastforce, blast)
  with Some show ?thesis by (simp add: chunked_raw_def cut_line_def find_char_append)
qed

lemma read_line_returns:
  assumes "source_inv content invar s"
  shows "\<exists>s'. read_line ops s = Some (map_option fst (cut_line (chunked_raw content s)), s') \<and>
    source_inv content invar s' \<and>
    chunked_raw content s' = (case cut_line (chunked_raw content s) of None \<Rightarrow> chunked_raw content s | Some (_, rest) \<Rightarrow> rest) \<and>
    ck_finished s' = ck_finished s \<and> ck_need_new_chunk s' = ck_need_new_chunk s"
proof -
  obtain t where t: "fill_until ops (\<lambda>b. find_char LF b \<noteq> None) s = Some t" "refilled content s t"
    "source_inv content invar t" "find_char LF (ck_buffer t) \<noteq> None \<or> ck_eof_source t"
    using fill_until_returns [OF assms, of "\<lambda>b. find_char LF b \<noteq> None"] by blast
  note cut = cut_line_buffered [OF t(3,4)]
  show ?thesis
  proof (cases "find_char LF (ck_buffer t)")
    case None
    then have "cut_line (chunked_raw content t) = None" unfolding cut by (simp add: cut_line_def)
    with None t show ?thesis by (simp add: read_line_def refilled_def)
  next
    case (Some nl)
    then have "cut_line (chunked_raw content t) =
        Some (strip_cr (take nl (ck_buffer t)), drop (nl + 1) (ck_buffer t) @ content (ck_source t))"
      unfolding cut by (simp add: cut_line_def)
    with Some t show ?thesis by (simp add: read_line_def refilled_def)
  qed
qed

lemma skip_trailers_returns:
  "source_inv content invar s \<Longrightarrow> \<exists>s'. skip_trailers ops s = Some s' \<and> source_inv content invar s'"
proof (induction "length (chunked_raw content s)" arbitrary: s rule: less_induct)
  case less
  obtain t where t: "read_line ops s = Some (map_option fst (cut_line (chunked_raw content s)), t)"
    "source_inv content invar t"
    "chunked_raw content t = (case cut_line (chunked_raw content s) of None \<Rightarrow> chunked_raw content s | Some (_, rest) \<Rightarrow> rest)"
    using read_line_returns [OF less.prems] by blast
  show ?case
  proof (cases "cut_line (chunked_raw content s)")
    case None
    with t show ?thesis by (subst skip_trailers.simps) simp
  next
    case (Some lr)
    obtain line rest where lr: "lr = (line, rest)" by (cases lr)
    with Some t(3) cut_line_shorter have "length (chunked_raw content t) < length (chunked_raw content s)"
      by auto
    from less.hyps [OF this t(2)] t Some lr show ?thesis
      by (cases "line = []") (subst skip_trailers.simps, simp)+
  qed
qed

lemma begin_next_chunk_returns:
  assumes "chunked_inv content invar s" and "\<not> ck_finished s" and "ck_need_new_chunk s"
  shows "\<exists>b s'. begin_next_chunk ops s = Some (b, s') \<and> chunked_inv content invar s' \<and>
    chunked_content content s' = chunked_content content s \<and>
    (if b then \<not> ck_finished s' \<and> \<not> ck_need_new_chunk s' else ck_finished s')"
proof -
  let ?raw = "chunked_raw content s"
  obtain t where t: "read_line ops s = Some (map_option fst (cut_line ?raw), t)"
    "source_inv content invar t" "ck_finished t = ck_finished s" "ck_need_new_chunk t = ck_need_new_chunk s"
    "chunked_raw content t = (case cut_line ?raw of None \<Rightarrow> ?raw | Some (_, rest) \<Rightarrow> rest)"
    using read_line_returns assms(1) by (auto simp: chunked_inv_def)
  have c: "chunked_content content s = dechunk ?raw" using assms by (simp add: chunked_content_def)
  show ?thesis
  proof (cases "cut_line ?raw")
    case None
    then have "dechunk ?raw = []" by (subst dechunk.simps) simp
    with None t c show ?thesis by (auto simp: begin_next_chunk_def chunked_content_def chunked_inv_def)
  next
    case (Some lr)
    obtain line rest sz any where lr: "lr = (line, rest)" "chunk_size line 0 False = (sz, any)"
      by (metis surj_pair)
    obtain u where u: "skip_trailers ops t = Some u" "source_inv content invar u"
      using skip_trailers_returns [OF t(2)] by blast
    show ?thesis
    proof (cases "any \<and> 0 < sz")
      case True
      with Some lr have "dechunk ?raw = take sz rest @ dechunk (drop (sz + 2) rest)"
        by (subst dechunk.simps) simp
      with True Some lr t assms c show ?thesis
        by (intro exI [of _ True] exI [of _ "t\<lparr>ck_remaining := sz, ck_need_new_chunk := False\<rparr>"]) (simp add: begin_next_chunk_def chunked_content_def chunked_inv_def)
    next
      case False
      with Some lr have "dechunk ?raw = []" by (subst dechunk.simps) simp
      with False Some lr t u c show ?thesis
        by (auto simp: begin_next_chunk_def chunked_content_def chunked_inv_def)
    qed
  qed
qed

text \<open>The two bytes after the last byte of a chunk are dropped, when there are two.\<close>

lemma chunk_end_returns:
  assumes "source_inv content invar s" and "\<not> ck_finished s"
  shows "\<exists>s'. fill_until ops (\<lambda>b. 2 \<le> length b) s = Some s' \<and>
    (let e = s'\<lparr>ck_buffer := (if 2 \<le> length (ck_buffer s') then drop 2 (ck_buffer s') else ck_buffer s'),
                ck_need_new_chunk := True\<rparr>
     in chunked_inv content invar e \<and> chunked_content content e = dechunk (drop 2 (chunked_raw content s)))"
proof -
  obtain t where t: "fill_until ops (\<lambda>b. 2 \<le> length b) s = Some t" "refilled content s t"
    "source_inv content invar t" "2 \<le> length (ck_buffer t) \<or> ck_eof_source t"
    using fill_until_returns [OF assms(1), of "\<lambda>b. 2 \<le> length b"] by blast
  show ?thesis
  proof (cases "2 \<le> length (ck_buffer t)")
    case True
    then have "drop 2 (chunked_raw content t) = drop 2 (ck_buffer t) @ content (ck_source t)"
      by (simp add: chunked_raw_def)
    with True t assms show ?thesis by (simp add: chunked_inv_def chunked_content_def refilled_def)
  next
    case False
    with t have "chunked_raw content s = ck_buffer t" "content (ck_source t) = []"
      by (auto simp: refilled_def source_inv_def chunked_raw_def)
    with False t assms show ?thesis
      by (auto simp: chunked_inv_def chunked_content_def refilled_def dechunk_short)
  qed
qed

lemma chunked_copy_returns:
  assumes inv: "chunked_inv content invar s" and m: "\<not> ck_finished s" "\<not> ck_need_new_chunk s" and n: "0 < n"
  shows "\<exists>bs s'. chunked_copy ops n s = Some (Some bs, s') \<and> chunked_inv content invar s' \<and>
    chunked_content content s = bs @ chunked_content content s' \<and> length bs \<le> n \<and>
    (chunked_content content s \<noteq> [] \<longrightarrow> bs \<noteq> [])"
proof -
  obtain t where t: "fill_until ops (\<lambda>b. b \<noteq> []) s = Some t" "refilled content s t"
    "source_inv content invar t" "ck_buffer t \<noteq> [] \<or> ck_eof_source t"
    using fill_until_returns [of s "\<lambda>b. b \<noteq> []"] inv by (auto simp: chunked_inv_def)
  have c: "chunked_content content s = chunked_content content t" and r: "0 < ck_remaining t"
    and tm: "\<not> ck_finished t" "\<not> ck_need_new_chunk t"
    using t(2) inv m by (auto simp: chunked_content_def refilled_def chunked_inv_def)
  show ?thesis
  proof (cases "ck_buffer t = []")
    case True
    with t have "chunked_raw content t = []" by (simp add: chunked_raw_def source_inv_def)
    with True t(1,3) tm show ?thesis
      by (simp add: chunked_copy_def c) (simp add: chunked_content_def chunked_inv_def dechunk_short)
  next
    case False
    define k where "k = min n (min (ck_remaining t) (length (ck_buffer t)))"
    define u where "u = t\<lparr>ck_buffer := drop k (ck_buffer t), ck_remaining := ck_remaining t - k\<rparr>"
    let ?bs = "take k (ck_buffer t)"
    have k: "0 < k" "k \<le> n" "k \<le> ck_remaining t" "k \<le> length (ck_buffer t)"
      using n False r by (auto simp: k_def)
    have raw: "chunked_raw content t = ?bs @ chunked_raw content u"
      by (simp add: u_def) (simp add: chunked_raw_def)
    have um: "source_inv content invar u" "\<not> ck_finished u" "\<not> ck_need_new_chunk u"
      "ck_remaining u = ck_remaining t - k"
      using t(3) tm by (simp_all add: u_def)
    have ct: "chunked_content content t = ?bs @ take (ck_remaining u) (chunked_raw content u) @
        dechunk (drop (ck_remaining u + 2) (chunked_raw content u))"
      using k tm um(4) by (simp add: chunked_content_def raw Suc_diff_le)
    show ?thesis
    proof (cases "ck_remaining u = 0")
      case True
      obtain v where v: "fill_until ops (\<lambda>b. 2 \<le> length b) u = Some v" and e: "let e = v\<lparr>ck_buffer :=
          (if 2 \<le> length (ck_buffer v) then drop 2 (ck_buffer v) else ck_buffer v), ck_need_new_chunk := True\<rparr>
        in chunked_inv content invar e \<and> chunked_content content e = dechunk (drop 2 (chunked_raw content u))"
        using chunk_end_returns [OF um(1,2)] by blast
      from True False t(1) k(1) v have "chunked_copy ops n s = Some (Some ?bs, v\<lparr>ck_buffer :=
          (if 2 \<le> length (ck_buffer v) then drop 2 (ck_buffer v) else ck_buffer v), ck_need_new_chunk := True\<rparr>)"
        by (simp add: chunked_copy_def k_def [symmetric] u_def [symmetric] Let_def)
      with e ct True k(1,2) False show ?thesis by (simp add: c Let_def numeral_2_eq_2)
    next
      case False
      with ct um have "chunked_content content t = ?bs @ chunked_content content u" "chunked_inv content invar u"
        by (simp_all add: chunked_content_def chunked_inv_def)
      with False t(1) k um \<open>ck_buffer t \<noteq> []\<close> show ?thesis
        by (auto simp: chunked_copy_def c k_def [symmetric] u_def [symmetric] Let_def)
    qed
  qed
qed

lemma chunked_live: "live_source (chunked_ops ops) (chunked_content content) (chunked_inv content invar)"
proof
  fix s :: "'s chunked_stream" and n :: nat
  assume inv: "chunked_inv content invar s" and n: "0 < n"
  have go: "\<exists>bs s'. Option.bind (chunked_copy ops n t)
        (\<lambda>(bs, s). case bs of Some bs \<Rightarrow> Some (bs, s) | None \<Rightarrow> chunked_read ops n s) = Some (bs, s') \<and>
      chunked_content content t = bs @ chunked_content content s' \<and> length bs \<le> n \<and>
      (chunked_content content t \<noteq> [] \<longrightarrow> bs \<noteq> []) \<and> chunked_inv content invar s'"
    if "chunked_inv content invar t" "\<not> ck_finished t" "\<not> ck_need_new_chunk t" for t
    using chunked_copy_returns [OF that n] by fastforce
  show "\<exists>bs s'. st_read (chunked_ops ops) n s = Some (bs, s') \<and>
      chunked_content content s = bs @ chunked_content content s' \<and> length bs \<le> n \<and>
      (chunked_content content s \<noteq> [] \<longrightarrow> bs \<noteq> []) \<and> chunked_inv content invar s'"
  proof (cases "ck_finished s \<or> \<not> ck_need_new_chunk s")
    case True
    with go [OF inv] inv show ?thesis
      by (cases "ck_finished s") (simp_all add: chunked_ops_def chunked_read.simps [of ops n s] chunked_content_def)
  next
    case False
    obtain b t where b: "begin_next_chunk ops s = Some (b, t)" "chunked_inv content invar t"
      "chunked_content content t = chunked_content content s"
      "if b then \<not> ck_finished t \<and> \<not> ck_need_new_chunk t else ck_finished t"
      using begin_next_chunk_returns [OF inv] False by blast
    show ?thesis
    proof (cases b)
      case True
      with go [OF b(2)] b False show ?thesis by (simp add: chunked_ops_def chunked_read.simps [of ops n s])
    next
      case nb: False
      with b have "chunked_content content s = []" by (simp add: chunked_content_def)
      with nb b False show ?thesis by (simp add: chunked_ops_def chunked_read.simps [of ops n s])
    qed
  qed
qed (simp_all add: chunked_ops_def)

lemma chunked_stream_of_ok:
  assumes "invar s"
  shows "chunked_inv content invar (chunked_stream_of s)"
    and "chunked_content content (chunked_stream_of s) = dechunk (content s)"
  using assms
  by (simp_all add: chunked_inv_def chunked_content_def source_inv_def chunked_raw_def chunked_stream_of_def)

end

interpretation chunked: live_source "chunked_ops (buffered_ops socket_ops)"
  "chunked_content (\<lambda>(b, s). b @ socket_content s)"
  "chunked_inv (\<lambda>(b, s). b @ socket_content s) (\<lambda>(b, s). socket_inv s)"
  by (rule wire.chunked_live)

end
