(* ===== verification/Http1_Io.thy ===== *)
theory Http1_Io
  imports Chunked Http_Header
begin

text \<open>
  \<open>src/src/server/http1_io.cpp\<close>: reading a header block, choosing the framing of a body, and
  writing a body.  The header block and the body are read from the connection's read buffer and
  its wire; writes retry until every byte is out.  The locale \<open>byte_sink\<close> is the contract of
  \<open>stream::write\<close>, and \<open>duplex\<close> that of a wire, whose two directions do not interfere.
\<close>

section \<open>\<open>read_headers\<close>\<close>

text \<open>
  The inner loop fills the buffer up to a newline; \<open>None\<close> inside is \<open>co_return false\<close>, on an
  over-long line or the end of the wire.
\<close>

partial_function (option) fill_line ::
  "'s stream_ops \<Rightarrow> nat \<Rightarrow> string \<Rightarrow> 's \<Rightarrow> (bool \<times> string \<times> 's) option" where
  "fill_line ops max_header_size buf wire =
     (if find_char LF buf \<noteq> None then Some (True, buf, wire)
      else if length buf > max_header_size then Some (False, buf, wire)
      else Option.bind (st_read ops 4096 wire)
        (\<lambda>(chunk, wire'). if chunk = [] then Some (False, buf, wire')
                          else fill_line ops max_header_size (buf @ chunk) wire'))"

partial_function (option) read_headers ::
  "'s stream_ops \<Rightarrow> nat \<Rightarrow> string \<Rightarrow> 's \<Rightarrow> http_headers \<Rightarrow> (bool \<times> http_headers \<times> string \<times> 's) option" where
  "read_headers ops max_header_size buf wire out =
     Option.bind (fill_line ops max_header_size buf wire)
       (\<lambda>(ok, buf, wire).
          if \<not> ok then Some (False, out, buf, wire)
          else case take_line buf of
            None \<Rightarrow> Some (False, out, buf, wire)
          | Some (line, n) \<Rightarrow>
              if line = [] then Some (True, out, drop n buf, wire)
              else case header_try_parse buf of
                Parsed consumed h \<Rightarrow>
                  read_headers ops max_header_size (drop consumed buf) wire (headers_add (h_name h) (h_value h) out)
              | _ \<Rightarrow> Some (False, out, buf, wire))"

section \<open>\<open>make_body_stream\<close>\<close>

text \<open>
  The stream of a message body, with the read buffer and wire it refers to inside it.  A body
  without framing headers is an empty \<open>memory_stream\<close>.  \<open>make_owned_body_stream\<close> makes the
  same decision over an owned copy of the buffer.
\<close>

datatype 's body_stream =
    ChunkedBody "(string \<times> 's) chunked_stream"
  | LengthBody "(string \<times> 's) range_stream"
  | EmptyBody memory_stream "string \<times> 's"

definition make_body_stream ::
  "'s stream_ops \<Rightarrow> string \<Rightarrow> 's \<Rightarrow> http_headers \<Rightarrow> 's body_stream option" where
  "make_body_stream ops buf wire headers =
     (let source = (buf, wire) in
      if (case headers_get headers ''Transfer-Encoding'' of
            Some te \<Rightarrow> header_value_contains_token te ''chunked'' | None \<Rightarrow> False)
      then Some (ChunkedBody (chunked_stream_of source))
      else case headers_get headers ''Content-Length'' of
        Some cl \<Rightarrow>
          (case accumulate_digits cl 0 of
             None \<Rightarrow> None
           | Some len \<Rightarrow> Some (LengthBody (range_stream_of (buffered_ops ops) source 0 len)))
      | None \<Rightarrow> Some (EmptyBody (memory_of []) source))"

fun body_read :: "'s stream_ops \<Rightarrow> nat \<Rightarrow> 's body_stream \<Rightarrow> (string \<times> 's body_stream) option" where
  "body_read ops n (ChunkedBody s) = map_option (map_prod id ChunkedBody) (chunked_read (buffered_ops ops) n s)"
| "body_read ops n (LengthBody s) = map_option (map_prod id LengthBody) (range_read (buffered_ops ops) n s)"
| "body_read ops n (EmptyBody s src) = Some (map_prod id (\<lambda>s. EmptyBody s src) (memory_read n s))"

definition body_ops :: "'s stream_ops \<Rightarrow> 's body_stream stream_ops" where
  "body_ops ops = \<lparr>st_get_length = (\<lambda>s. case s of ChunkedBody _ \<Rightarrow> -1 | LengthBody s \<Rightarrow> range_get_length (buffered_ops ops) s
       | EmptyBody s _ \<Rightarrow> int (length (mem_data s))),
     st_can_seek = (\<lambda>_. False), st_seek = (\<lambda>_ _ s. (-1, s)), st_read = body_read ops, st_write = (\<lambda>_ s. (0, s))\<rparr>"

text \<open>The read buffer and wire behind a body, as the connection sees them again.\<close>

fun body_source :: "'s body_stream \<Rightarrow> string \<times> 's" where
  "body_source (ChunkedBody s) = ck_source s"
| "body_source (LengthBody s) = rng_inner s"
| "body_source (EmptyBody _ src) = src"

section \<open>\<open>write_all\<close> and \<open>write_message_body\<close>\<close>

partial_function (option) write_all :: "'s stream_ops \<Rightarrow> string \<Rightarrow> 's \<Rightarrow> 's option" where
  "write_all ops buf wire =
     (if buf = [] then Some wire
      else case st_write ops buf wire of (k, wire') \<Rightarrow> write_all ops (drop k buf) wire')"

partial_function (option) write_chunked_body ::
  "'w stream_ops \<Rightarrow> 'b stream_ops \<Rightarrow> 'w \<Rightarrow> 'b \<Rightarrow> ('w \<times> 'b) option" where
  "write_chunked_body wops bops wire body =
     Option.bind (st_read bops 4096 body)
       (\<lambda>(got, body').
          if got = [] then map_option (\<lambda>w. (w, body')) (write_all wops chunked_body_terminator wire)
          else Option.bind (write_all wops (format_chunk_header (length got)) wire)
            (\<lambda>wire. Option.bind (write_all wops got wire)
              (\<lambda>wire. Option.bind (write_all wops chunk_data_terminator wire)
                (\<lambda>wire. write_chunked_body wops bops wire body'))))"

partial_function (option) write_plain_body ::
  "'w stream_ops \<Rightarrow> 'b stream_ops \<Rightarrow> int \<Rightarrow> 'w \<Rightarrow> 'b \<Rightarrow> ('w \<times> 'b) option" where
  "write_plain_body wops bops remaining wire body =
     (if remaining > 0
      then Option.bind (st_read bops (nat (min remaining 4096)) body)
        (\<lambda>(got, body'). if got = [] then Some (wire, body')
                        else Option.bind (write_all wops got wire)
                          (\<lambda>wire. write_plain_body wops bops (remaining - int (length got)) wire body'))
      else Some (wire, body))"

text \<open>
  The \<open>sendfile\<close> branch, taken for a plain file over a plain socket, hands the same bytes to the
  kernel; it is not modelled.
\<close>

definition write_message_body ::
  "'w stream_ops \<Rightarrow> 'b stream_ops \<Rightarrow> int \<Rightarrow> 'w \<Rightarrow> 'b \<Rightarrow> ('w \<times> 'b) option" where
  "write_message_body wops bops content_length wire body =
     (if content_length < 0 then write_chunked_body wops bops wire body
      else write_plain_body wops bops content_length wire body)"

section \<open>The contract of writing\<close>

locale byte_sink =
  fixes ops :: "'s stream_ops"
    and sent :: "'s \<Rightarrow> string"
    and invar :: "'s \<Rightarrow> bool"
  assumes write_ok: "invar s \<Longrightarrow> bs \<noteq> [] \<Longrightarrow> st_write ops bs s = (k, s') \<Longrightarrow>
    0 < k \<and> k \<le> length bs \<and> sent s' = sent s @ take k bs \<and> invar s'"
begin

lemma write_all_sends: "invar s \<Longrightarrow> \<exists>s'. write_all ops buf s = Some s' \<and> sent s' = sent s @ buf \<and> invar s'"
proof (induction "length buf" arbitrary: buf s rule: less_induct)
  case less
  show ?case
  proof (cases "buf = []")
    case True
    with less.prems show ?thesis by (subst write_all.simps) simp
  next
    case False
    obtain k s' where w: "st_write ops buf s = (k, s')" by (cases "st_write ops buf s")
    with write_ok [OF less.prems False] have k: "0 < k" "k \<le> length buf" "sent s' = sent s @ take k buf" "invar s'"
      by auto
    then have "length (drop k buf) < length buf" by auto
    from less.hyps [OF this k(4)] False w k show ?thesis by (subst write_all.simps) auto
  qed
qed

end

text \<open>A wire: what is written does not disturb what is still to be read, and conversely.\<close>

locale duplex = byte_source ops content invar + byte_sink ops sent invar
  for ops :: "'s stream_ops" and content :: "'s \<Rightarrow> string" and invar :: "'s \<Rightarrow> bool" and sent :: "'s \<Rightarrow> string" +
  assumes write_content: "invar s \<Longrightarrow> st_write ops bs s = (k, s') \<Longrightarrow> content s' = content s"
    and read_sent: "invar s \<Longrightarrow> st_read ops n s = Some (bs, s') \<Longrightarrow> sent s' = sent s"
begin

lemma write_all_content: "invar s \<Longrightarrow> write_all ops buf s = Some s' \<Longrightarrow> content s' = content s"
proof (induction "length buf" arbitrary: buf s rule: less_induct)
  case less
  show ?case
  proof (cases "buf = []")
    case True
    with less.prems show ?thesis by (simp add: write_all.simps [of ops "[]"])
  next
    case False
    obtain k t where w: "st_write ops buf s = (k, t)" by (cases "st_write ops buf s")
    with write_ok [OF less.prems(1) False] have "0 < k" "invar t" by auto
    moreover have "write_all ops (drop k buf) t = Some s'"
      using less.prems(2) False w by (simp add: write_all.simps [of ops buf])
    ultimately have "content s' = content t"
      using False by (intro less.hyps) auto
    with write_content [OF less.prems(1) w] show ?thesis by simp
  qed
qed

end

interpretation socket: duplex socket_ops socket_content socket_inv tx
  by unfold_locales (auto simp: socket_ops_def split: list.splits)

text \<open>Copying a body from a source to a sink.\<close>

locale body_copy = src: byte_source bops content binv + snk: byte_sink wops sent winv
  for bops :: "'b stream_ops" and content :: "'b \<Rightarrow> string" and binv :: "'b \<Rightarrow> bool"
    and wops :: "'w stream_ops" and sent :: "'w \<Rightarrow> string" and winv :: "'w \<Rightarrow> bool"
begin

lemma write_chunked_sends:
  "binv b \<Longrightarrow> winv w \<Longrightarrow>
   \<exists>pieces w' b'. write_chunked_body wops bops w b = Some (w', b') \<and> winv w' \<and> binv b' \<and> content b' = [] \<and>
     sent w' = sent w @ concat (map chunk_of pieces) @ chunked_body_terminator \<and>
     concat pieces = content b \<and> (\<forall>p \<in> set pieces. p \<noteq> [] \<and> length p \<le> 4096)"
proof (induction "length (content b)" arbitrary: b w rule: less_induct)
  case less
  obtain got b' where r: "st_read bops 4096 b = Some (got, b')" "content b = got @ content b'"
    "length got \<le> 4096" "content b = [] \<longleftrightarrow> got = []" "binv b'"
    using src.readE [OF less.prems(1), of 4096] by (metis zero_less_numeral)
  show ?case
  proof (cases "got = []")
    case True
    with r snk.write_all_sends [OF less.prems(2), of chunked_body_terminator] show ?thesis
      by (subst write_chunked_body.simps) (fastforce intro: exI [of _ "[]"])
  next
    case False
    obtain w1 where 1: "write_all wops (format_chunk_header (length got)) w = Some w1"
      "sent w1 = sent w @ format_chunk_header (length got)" "winv w1"
      using snk.write_all_sends [OF less.prems(2)] by blast
    obtain w2 where 2: "write_all wops got w1 = Some w2" "sent w2 = sent w1 @ got" "winv w2"
      using snk.write_all_sends [OF 1(3)] by blast
    obtain w3 where 3: "write_all wops chunk_data_terminator w2 = Some w3" "sent w3 = sent w2 @ chunk_data_terminator" "winv w3"
      using snk.write_all_sends [OF 2(3)] by blast
    have "length (content b') < length (content b)" using False r(2) by simp
    from less.hyps [OF this r(5) 3(3)] obtain pieces w' b'' where
      rec: "write_chunked_body wops bops w3 b' = Some (w', b'')" "winv w'" "binv b''" "content b'' = []"
        "sent w' = sent w3 @ concat (map chunk_of pieces) @ chunked_body_terminator"
        "concat pieces = content b'" "\<forall>p \<in> set pieces. p \<noteq> [] \<and> length p \<le> 4096" by blast
    have "write_chunked_body wops bops w b = Some (w', b'')"
      using False r(1) 1(1) 2(1) 3(1) rec(1) by (subst write_chunked_body.simps) simp
    moreover have "sent w' = sent w @ concat (map chunk_of (got # pieces)) @ chunked_body_terminator"
      by (simp add: rec(5) 1(2) 2(2) 3(2) chunk_of_def)
    ultimately show ?thesis
      using rec(2-4,6,7) r(2,3) False by (intro exI [of _ "got # pieces"] exI [of _ w'] exI [of _ b'']) simp
  qed
qed

lemma write_plain_sends:
  "binv b \<Longrightarrow> winv w \<Longrightarrow>
   \<exists>w' b'. write_plain_body wops bops n w b = Some (w', b') \<and> winv w' \<and> binv b' \<and>
     sent w' = sent w @ take (nat n) (content b)"
proof (induction "nat n" arbitrary: n b w rule: less_induct)
  case less
  show ?case
  proof (cases "n > 0")
    case False
    with less.prems show ?thesis by (subst write_plain_body.simps) simp
  next
    case True
    then have "0 < nat (min n 4096)" by simp
    from src.readE [OF less.prems(1) this] obtain got b' where
      r: "st_read bops (nat (min n 4096)) b = Some (got, b')" "content b = got @ content b'"
        "length got \<le> nat (min n 4096)" "content b = [] \<longleftrightarrow> got = []" "binv b'" .
    show ?thesis
    proof (cases "got = []")
      case True
      with r \<open>n > 0\<close> less.prems show ?thesis by (subst write_plain_body.simps) simp
    next
      case False
      obtain w1 where 1: "write_all wops got w = Some w1" "sent w1 = sent w @ got" "winv w1"
        using snk.write_all_sends [OF less.prems(2)] by blast
      have "nat (n - int (length got)) < nat n" using True False by simp
      from less.hyps [OF this r(5) 1(3)] True False r 1 show ?thesis
        by (subst write_plain_body.simps) (auto simp: nat_diff_distrib)
    qed
  qed
qed

end

interpretation copy: body_copy memory_ops memory_content memory_inv socket_ops tx socket_inv
  by (intro body_copy.intro memory.byte_source_axioms socket.byte_sink_axioms)

section \<open>Framing of a body\<close>

text \<open>The framing rules on whole byte strings: \<open>None\<close> is a malformed \<open>Content-Length\<close>.\<close>

definition body_spec :: "http_headers \<Rightarrow> string \<Rightarrow> string option" where
  "body_spec headers raw =
     (if (case headers_get headers ''Transfer-Encoding'' of
            Some te \<Rightarrow> header_value_contains_token te ''chunked'' | None \<Rightarrow> False)
      then Some (dechunk raw)
      else case headers_get headers ''Content-Length'' of
        Some cl \<Rightarrow> if \<forall>c \<in> set cl. is_digit c then Some (take (dec_value cl) raw) else None
      | None \<Rightarrow> Some [])"

fun body_content :: "('s \<Rightarrow> string) \<Rightarrow> 's body_stream \<Rightarrow> string" where
  "body_content content (ChunkedBody s) = chunked_content (\<lambda>(b, s). b @ content s) s"
| "body_content content (LengthBody s) =
     (let raw = (\<lambda>(b, s). b @ content s) (rng_inner s)
      in if rng_bounded s then take (nat (rng_end s - rng_position s)) raw else raw)"
| "body_content content (EmptyBody s _) = memory_content s"

fun body_inv :: "('s \<Rightarrow> string) \<Rightarrow> (string \<times> 's \<Rightarrow> bool) \<Rightarrow> 's body_stream \<Rightarrow> bool" where
  "body_inv content ok (ChunkedBody s) = chunked_inv (\<lambda>(b, s). b @ content s) ok s"
| "body_inv content ok (LengthBody s) \<longleftrightarrow> (rng_bounded s \<longrightarrow> rng_begin s = 0) \<and> ok (rng_inner s)"
| "body_inv content ok (EmptyBody s src) \<longleftrightarrow> memory_inv s \<and> ok src"

text \<open>
  The bytes of the connection that follow the body, known in advance except for a chunked body,
  whose decoder reads ahead.  A length that wrapped to a negative number makes an unbounded
  window, which takes everything.
\<close>

fun body_rest :: "('s \<Rightarrow> string) \<Rightarrow> 's body_stream \<Rightarrow> string option" where
  "body_rest content (ChunkedBody s) = None"
| "body_rest content (LengthBody s) =
     Some (if rng_bounded s then drop (nat (rng_end s - rng_position s)) ((\<lambda>(b, s). b @ content s) (rng_inner s)) else [])"
| "body_rest content (EmptyBody s src) = Some (fst src @ content (snd src))"

lemma body_byte_source_rest:
  fixes ops :: "'s stream_ops"
  assumes live: "live_source (buffered_ops ops) (\<lambda>(b, s). b @ content s) ok"
  shows "byte_source (body_ops ops) (body_content content) (\<lambda>b. body_inv content ok b \<and> body_rest content b = rest)"
proof
  fix s :: "'s body_stream" and n :: nat
  assume inv: "body_inv content ok s \<and> body_rest content s = rest" and n: "0 < n"
  let ?c = "\<lambda>(b, s). b @ content s"
  show "\<exists>bs s'. st_read (body_ops ops) n s = Some (bs, s') \<and>
      body_content content s = bs @ body_content content s' \<and> length bs \<le> n \<and>
      (body_content content s \<noteq> [] \<longrightarrow> bs \<noteq> []) \<and> body_inv content ok s' \<and> body_rest content s' = rest"
  proof (cases s)
    case (ChunkedBody t)
    have "byte_source (chunked_ops (buffered_ops ops)) (chunked_content ?c) (chunked_inv ?c ok)"
      by (rule live_source.axioms(1) [OF byte_source.chunked_live [OF live_source.axioms(1) [OF live]]])
    from byte_source.readE [OF this, of t n] inv n ChunkedBody obtain bs t' where
      "st_read (chunked_ops (buffered_ops ops)) n t = Some (bs, t')"
      "chunked_content ?c t = bs @ chunked_content ?c t'" "length bs \<le> n"
      "chunked_content ?c t = [] \<longleftrightarrow> bs = []" "chunked_inv ?c ok t'" by auto
    with ChunkedBody inv show ?thesis by (simp add: body_ops_def chunked_ops_def)
  next
    case (LengthBody t)
    show ?thesis
    proof (cases "rng_bounded t")
      case False
      let ?p = "ensure_positioned (buffered_ops ops) t"
      have p: "\<not> rng_bounded ?p" "rng_inner ?p = rng_inner t" using False by (simp_all add: ensure_positioned_def)
      from byte_source.readE [OF live_source.axioms(1) [OF live], of "rng_inner t" n] inv n LengthBody obtain bs u where
        "st_read (buffered_ops ops) n (rng_inner t) = Some (bs, u)" "?c (rng_inner t) = bs @ ?c u" "length bs \<le> n"
        "?c (rng_inner t) = [] \<longleftrightarrow> bs = []" "ok u" by auto
      with LengthBody inv False p show ?thesis
        by (intro exI [of _ bs] exI [of _ "LengthBody (?p\<lparr>rng_inner := u, rng_position := rng_position ?p + int (length bs)\<rparr>)"])
          (auto simp: body_ops_def range_read_def range_clamp_def Let_def)
    next
    case True
    let ?left = "\<lambda>t. nat (rng_end t - rng_position t)"
    note src = range_live [OF live, where rest = "drop (?left t) (?c (rng_inner t))"]
    have "rng_bounded t \<and> rng_begin t = 0 \<and> ok (rng_inner t) \<and>
        drop (?left t) (?c (rng_inner t)) = drop (?left t) (?c (rng_inner t))"
      using inv LengthBody True by (simp add: case_prod_beta)
    from byte_source.readE [OF src this n] obtain bs t' where
      r: "st_read (range_ops (buffered_ops ops)) n t = Some (bs, t')"
        "take (?left t) (?c (rng_inner t)) = bs @ take (?left t') (?c (rng_inner t'))" "length bs \<le> n"
        "take (?left t) (?c (rng_inner t)) = [] \<longleftrightarrow> bs = []"
        "rng_bounded t' \<and> rng_begin t' = 0 \<and> ok (rng_inner t') \<and>
         drop (?left t') (?c (rng_inner t')) = drop (?left t) (?c (rng_inner t))" .
    then have "body_content content s = bs @ body_content content (LengthBody t')"
      "body_content content s = [] \<longleftrightarrow> bs = []" "body_inv content ok (LengthBody t')"
      "body_rest content (LengthBody t') = body_rest content s" "st_read (body_ops ops) n s = Some (bs, LengthBody t')"
      using LengthBody True by (simp_all add: Let_def body_ops_def range_ops_def)
    with r(3) inv show ?thesis by metis
    qed
  next
    case (EmptyBody t src)
    obtain bs t' where r: "memory_read n t = (bs, t')" by (cases "memory_read n t")
    have "memory_inv t" using inv EmptyBody by simp
    from memory_read_split [OF this n r] EmptyBody inv r show ?thesis
      by (intro exI [of _ bs] exI [of _ "EmptyBody t' src"]) (auto simp: body_ops_def)
  qed
qed

lemma body_byte_source:
  assumes "live_source (buffered_ops ops) (\<lambda>(b, s). b @ content s) ok"
  shows "byte_source (body_ops ops) (body_content content) (body_inv content ok)"
proof
  fix s :: "'a body_stream" and n :: nat
  assume inv: "body_inv content ok s" and n: "0 < n"
  then have "body_inv content ok s \<and> body_rest content s = body_rest content s" by simp
  from byte_source.readE [OF body_byte_source_rest [OF assms] this n] obtain bs s' where
    "st_read (body_ops ops) n s = Some (bs, s')" "body_content content s = bs @ body_content content s'" "length bs \<le> n"
    "body_content content s = [] \<longleftrightarrow> bs = []" "body_inv content ok s' \<and> body_rest content s' = body_rest content s" .
  then show "\<exists>bs s'. st_read (body_ops ops) n s = Some (bs, s') \<and> body_content content s = bs @ body_content content s' \<and>
      length bs \<le> n \<and> (body_content content s \<noteq> [] \<longrightarrow> bs \<noteq> []) \<and> body_inv content ok s'"
    by metis
qed

text \<open>A body that is read to its end leaves the connection at the bytes that follow it.\<close>

lemma body_drained:
  assumes "body_content content b = []" "body_rest content b = Some rest"
  shows "(\<lambda>(b, s). b @ content s) (body_source b) = rest"
  using assms
proof (cases b)
  case (LengthBody s)
  let ?n = "nat (rng_end s - rng_position s)" and ?raw = "(\<lambda>(b, s). b @ content s) (rng_inner s)"
  have "?raw = rest"
    using assms LengthBody append_take_drop_id [of ?n ?raw] by (auto simp: Let_def split: if_splits)
  with LengthBody show ?thesis by simp
qed (simp_all add: case_prod_beta)

lemma body_inv_source: "body_inv content ok b \<Longrightarrow> ok (body_source b)"
  by (cases b) (simp_all add: chunked_inv_def source_inv_def)

lemma length_body_fields:
  "0 \<le> len \<Longrightarrow> rng_bounded (range_stream_of (buffered_ops ops) src 0 len)"
  "0 \<le> len \<Longrightarrow> rng_end (range_stream_of (buffered_ops ops) src 0 len) = len"
  "rng_begin (range_stream_of (buffered_ops ops) src 0 len) = 0"
  "rng_position (range_stream_of (buffered_ops ops) src 0 len) = 0"
  "rng_inner (range_stream_of (buffered_ops ops) src 0 len) = src"
  by (simp_all add: range_stream_of_def buffered_ops_def Let_def)

lemma chunked_body_fields:
  "ok src \<Longrightarrow> chunked_inv content ok (chunked_stream_of src)"
  "chunked_content content (chunked_stream_of src) = dechunk (content src)" "ck_source (chunked_stream_of src) = src"
  by (simp_all add: chunked_inv_def chunked_content_def source_inv_def chunked_raw_def chunked_stream_of_def)

lemma make_body_stream_inv:
  "make_body_stream ops buf w hs = Some b \<Longrightarrow> ok (buf, w) \<Longrightarrow> body_inv content ok b \<and> body_source b = (buf, w)"
  by (auto simp: make_body_stream_def Let_def length_body_fields chunked_body_fields memory_of_def split: option.splits if_splits)

lemma make_body_stream_spec:
  assumes "\<forall>cl. headers_get hs ''Content-Length'' = Some cl \<longrightarrow> dec_value cl < 2 ^ 63"
  shows "case make_body_stream ops buf w hs of
      None \<Rightarrow> body_spec hs (buf @ content w) = None
    | Some b \<Rightarrow> body_spec hs (buf @ content w) = Some (body_content content b)"
  using assms
  by (auto simp: make_body_stream_def body_spec_def accumulate_digits_dec_value Let_def memory_of_def
      length_body_fields chunked_body_fields split: option.splits)

context byte_source
begin

text \<open>A line is found in the buffer, for every way the wire cuts it, unless it is too long.\<close>

lemma fill_line_returns:
  "invar w \<Longrightarrow>
   \<exists>ok buf' w'. fill_line ops m buf w = Some (ok, buf', w') \<and> buf' @ content w' = buf @ content w \<and> invar w' \<and>
     (ok \<longrightarrow> LF \<in> set buf') \<and>
     (\<forall>line rest. buf @ content w = line @ LF # rest \<and> LF \<notin> set line \<and> length line \<le> m \<longrightarrow> ok)"
proof (induction "length (content w)" arbitrary: w buf rule: less_induct)
  case less
  consider (found) "LF \<in> set buf" | (long) "LF \<notin> set buf" "m < length buf" | (more) "LF \<notin> set buf" "length buf \<le> m"
    by linarith
  then show ?case
  proof cases
    case found
    then have "find_char LF buf \<noteq> None" using find_char_None by fast
    then have "fill_line ops m buf w = Some (True, buf, w)" by (subst fill_line.simps) simp
    with less.prems found show ?thesis by blast
  next
    case long
    have "length line > m" if "buf @ content w = line @ LF # rest" for line rest
      using that long append_eq_append_conv2 [of buf "content w" line "LF # rest"] by (auto simp: append_eq_Cons_conv)
    moreover have "find_char LF buf = None" using long(1) find_char_None by blast
    then have "fill_line ops m buf w = Some (False, buf, w)" using long by (subst fill_line.simps) simp
    ultimately show ?thesis using less.prems by (metis linorder_not_less)
  next
    case more
    obtain bs w' where r: "st_read ops 4096 w = Some (bs, w')" "content w = bs @ content w'"
      "content w = [] \<longleftrightarrow> bs = []" "invar w'"
      using readE [OF less.prems, of 4096] by (metis zero_less_numeral)
    have nf: "find_char LF buf = None" using more(1) find_char_None by blast
    show ?thesis
    proof (cases "bs = []")
      case True
      then have "fill_line ops m buf w = Some (False, buf, w')"
        using r more nf by (subst fill_line.simps) simp
      moreover have c: "content w' = content w" "content w = []" using True r(2,3) by simp_all
      moreover from this(2) more(1) have "buf @ content w \<noteq> line @ LF # rest" for line rest by auto
      ultimately show ?thesis using r(4) by (metis (full_types))
    next
      case False
      with r(2) have "length (content w') < length (content w)" by simp
      moreover have "fill_line ops m buf w = fill_line ops m (buf @ bs) w'"
        using False r(1) more nf by (subst fill_line.simps) simp
      ultimately show ?thesis using less.hyps [OF _ r(4), of "buf @ bs"] by (simp add: r(2))
    qed
  qed
qed

lemma fill_line_found:
  assumes "invar w" and "buf @ content w = line @ LF # rest" and "LF \<notin> set line" and "length line \<le> m"
  obtains buf' w' where "fill_line ops m buf w = Some (True, buf', w')" "buf' @ content w' = buf @ content w"
    "LF \<in> set buf'" "invar w'"
proof -
  obtain ok buf' w' where f: "fill_line ops m buf w = Some (ok, buf', w')" "buf' @ content w' = buf @ content w"
    "invar w'" "ok \<longrightarrow> LF \<in> set buf'"
    "\<forall>line rest. buf @ content w = line @ LF # rest \<and> LF \<notin> set line \<and> length line \<le> m \<longrightarrow> ok"
    using fill_line_returns [OF assms(1)] by blast
  from f(5) assms(2-4) have ok by blast
  with f(1-4) that show thesis by simp
qed

lemma drop_line:
  assumes "buf @ tail = line @ CRLF @ rest" and "length line + 2 \<le> length buf"
  shows "drop (length line + 2) buf @ tail = rest"
proof -
  have "drop (length line + 2) buf @ tail = drop (length line + 2) (buf @ tail)" using assms(2) by simp
  also have "\<dots> = rest" unfolding assms(1) by simp
  finally show ?thesis .
qed

lemma header_try_parse_prefix:
  assumes "LF \<in> set buf" and "buf @ tail = line @ CRLF @ rest" and "LF \<notin> set line"
  shows "take_line buf = Some (line, length line + 2)"
proof -
  obtain l n where "take_line buf = Some (l, n)" using assms(1) take_line_None [of buf] by auto
  with take_line_append [OF this, of tail] take_line_crlf [OF assms(3), of rest] assms(2) show ?thesis by auto
qed

lemma fill_crlf:
  assumes "invar w" and "buf @ content w = line @ CRLF @ rest" and "LF \<notin> set line" and "length line < m"
  obtains buf' w' where "fill_line ops m buf w = Some (True, buf', w')" "take_line buf' = Some (line, length line + 2)"
    "drop (length line + 2) buf' @ content w' = rest" "invar w'"
proof -
  have "buf @ content w = (line @ [CR]) @ LF # rest" "LF \<notin> set (line @ [CR])" "length (line @ [CR]) \<le> m"
    using assms by (auto simp: CR_def LF_def)
  from fill_line_found [OF assms(1) this] assms(2) obtain buf' w' where
    f: "fill_line ops m buf w = Some (True, buf', w')" "buf' @ content w' = line @ CRLF @ rest" "LF \<in> set buf'" "invar w'"
    by metis
  have l: "take_line buf' = Some (line, length line + 2)" by (rule header_try_parse_prefix [OF f(3,2) assms(3)])
  then have "length line + 2 \<le> length buf'" using take_line_consumed by blast
  with f(2) have "drop (length line + 2) buf' @ content w' = rest" by (rule drop_line)
  with f l that show thesis by blast
qed

text \<open>
  Printed headers are read back, in any number, for every way the wire cuts them; only a single
  line longer than \<open>max_header_size\<close> can be refused.  A blank line ends the block, and a line
  that is not a header refuses it.
\<close>

lemma read_headers_lines:
  "invar w \<Longrightarrow> buf @ content w = headers_write_to hs @ rest \<Longrightarrow>
   list_all (\<lambda>h. wf_header h \<and> length (header_write h) \<le> Suc m) hs \<Longrightarrow>
   \<exists>buf' w'. read_headers ops m buf w out = read_headers ops m buf' w' (out @ hs) \<and> buf' @ content w' = rest \<and> invar w'"
proof (induction hs arbitrary: buf w out)
  case Nil
  then show ?case by (auto simp: headers_write_to_def)
next
  case (Cons h hs)
  let ?line = "h_name h @ '': '' @ h_value h" and ?rest = "headers_write_to hs @ rest"
  have wf: "wf_header h" "length (header_write h) \<le> Suc m" using Cons.prems(3) by auto
  have raw: "buf @ content w = ?line @ CRLF @ ?rest"
    using Cons.prems(2) by (simp add: headers_write_to_def header_write_def)
  have "LF \<notin> set ?line" "length ?line < m" using wf by (auto simp: wf_header_def LF_def header_write_def)
  then obtain buf' w' where f: "fill_line ops m buf w = Some (True, buf', w')" "take_line buf' = Some (?line, length ?line + 2)"
    "drop (length ?line + 2) buf' @ content w' = ?rest" "invar w'" by (rule fill_crlf [OF Cons.prems(1) raw])
  have p: "header_try_parse buf' = Parsed (length ?line + 2) h"
    using f(2) header_of_written_line [OF wf(1)] by (simp add: header_try_parse_def)
  have add: "headers_add (h_name h) (h_value h) out = out @ [h]" by (simp add: headers_add_def)
  from f(1,2) p have "read_headers ops m buf w out = read_headers ops m (drop (length ?line + 2) buf') w' (out @ [h])"
    by (subst read_headers.simps) (simp add: add)
  with Cons.IH [OF f(4,3), of "out @ [h]"] Cons.prems(3) show ?case by simp
qed

lemma read_headers_write:
  assumes "invar w" "buf @ content w = headers_write_to hs @ CRLF @ rest"
    "list_all (\<lambda>h. wf_header h \<and> length (header_write h) \<le> Suc m) hs" "0 < m"
  shows "\<exists>buf' w'. read_headers ops m buf w out = Some (True, out @ hs, buf', w') \<and> buf' @ content w' = rest \<and> invar w'"
proof -
  obtain buf1 w1 where 1: "read_headers ops m buf w out = read_headers ops m buf1 w1 (out @ hs)"
    "buf1 @ content w1 = [] @ CRLF @ rest" "invar w1"
    using read_headers_lines [OF assms(1-3), of out] by auto
  from fill_crlf [OF 1(3,2), of m] assms(4) obtain buf2 w2 where
    "fill_line ops m buf1 w1 = Some (True, buf2, w2)" "take_line buf2 = Some ([], 2)" "drop 2 buf2 @ content w2 = rest" "invar w2"
    by (auto simp: numeral_2_eq_2)
  then have "read_headers ops m buf1 w1 (out @ hs) = Some (True, out @ hs, drop 2 buf2, w2)"
    by (subst read_headers.simps) simp
  with 1(1) \<open>drop 2 buf2 @ content w2 = rest\<close> \<open>invar w2\<close> show ?thesis by auto
qed

lemma read_headers_refused:
  assumes "invar w" "buf @ content w = headers_write_to hs @ bad @ CRLF @ rest"
    "list_all (\<lambda>h. wf_header h \<and> length (header_write h) \<le> Suc m) hs"
    "bad \<noteq> []" "LF \<notin> set bad" "length bad < m" "header_of_line bad = None"
  shows "\<exists>buf' w'. read_headers ops m buf w out = Some (False, out @ hs, buf', w') \<and> invar w'"
proof -
  obtain buf1 w1 where 1: "read_headers ops m buf w out = read_headers ops m buf1 w1 (out @ hs)"
    "buf1 @ content w1 = bad @ CRLF @ rest" "invar w1"
    using read_headers_lines [OF assms(1-3), of out] by auto
  obtain buf2 w2 where 2: "fill_line ops m buf1 w1 = Some (True, buf2, w2)" "take_line buf2 = Some (bad, length bad + 2)" "invar w2"
    using fill_crlf [OF 1(3,2) assms(5,6)] .
  then have "read_headers ops m buf1 w1 (out @ hs) = Some (False, out @ hs, buf2, w2)"
    using assms(4,7) by (subst read_headers.simps) (simp add: header_try_parse_def)
  with 1(1) 2(3) show ?thesis by simp
qed

end

section \<open>Properties\<close>

text \<open>
  C21.  Chunked transfer round trip: \<open>write_message_body\<close> with an unknown length returns, and what
  it put on the wire, read back through \<open>chunked_decoder_stream\<close> from any source that delivers
  those bytes followed by anything, in any pieces, is the body that was written.
\<close>

theorem chunked_transfer_round_trip:
  assumes body: "byte_source bops bcontent binv" "binv b"
    and sink: "byte_sink wops sent winv" "winv w"
    and reader: "byte_source rops rcontent rinv"
  shows "\<exists>w' b' coded. write_message_body wops bops (-1) w b = Some (w', b') \<and> sent w' = sent w @ coded \<and>
    (\<forall>r rest. rinv r \<and> rcontent r = coded @ rest \<longrightarrow>
       (\<exists>r'. read_all (chunked_ops rops) [] (chunked_stream_of r) = Some (bcontent b, r')))"
proof -
  obtain pieces w' b' where w: "write_chunked_body wops bops w b = Some (w', b')"
    "sent w' = sent w @ concat (map chunk_of pieces) @ chunked_body_terminator"
    and pieces: "concat pieces = bcontent b" "\<forall>p \<in> set pieces. p \<noteq> [] \<and> length p \<le> 4096"
    using body_copy.write_chunked_sends [OF body_copy.intro [OF body(1) sink(1)] body(2) sink(2)] by blast
  let ?coded = "concat (map chunk_of pieces) @ chunked_body_terminator"
  have "\<exists>r'. read_all (chunked_ops rops) [] (chunked_stream_of r) = Some (bcontent b, r')"
    if "rinv r" "rcontent r = ?coded @ rest" for r rest
  proof -
    have "\<forall>p \<in> set pieces. p \<noteq> [] \<and> length p < 2 ^ 64" using pieces(2) by fastforce
    from dechunk_chunks [OF this, of rest] that(2) pieces(1) have "dechunk (rcontent r) = bcontent b" by simp
    with byte_source.read_all_content [OF live_source.axioms(1) [OF byte_source.chunked_live [OF reader]]
        byte_source.chunked_stream_of_ok(1) [OF reader that(1)], of "[]"]
    show ?thesis using byte_source.chunked_stream_of_ok(2) [OF reader that(1)] by auto
  qed
  with w show ?thesis by (auto simp: write_message_body_def)
qed

theorem chunked_transfer_round_trip_witness:
  "\<exists>w' b' r'. write_message_body socket_ops memory_ops (-1) \<lparr>rx = [], tx = []\<rparr> (memory_of ''hello'') = Some (w', b') \<and>
     read_all (chunked_ops socket_ops) [] (chunked_stream_of \<lparr>rx = map (\<lambda>c. [c]) (tx w'), tx = []\<rparr>) = Some (''hello'', r')"
proof -
  have singles: "concat (map (\<lambda>c. [c]) xs) = xs" for xs :: string by (induction xs) auto
  obtain w' b' coded where w: "write_message_body socket_ops memory_ops (-1) \<lparr>rx = [], tx = []\<rparr> (memory_of ''hello'') = Some (w', b')"
    "tx w' = tx \<lparr>rx = [], tx = []\<rparr> @ coded"
    "\<forall>r rest. socket_inv r \<and> socket_content r = coded @ rest \<longrightarrow>
       (\<exists>r'. read_all (chunked_ops socket_ops) [] (chunked_stream_of r) = Some (memory_content (memory_of ''hello''), r'))"
    using chunked_transfer_round_trip [OF memory.byte_source_axioms _ socket.byte_sink_axioms _ socket.byte_source_axioms,
        of "memory_of ''hello''" "\<lparr>rx = [], tx = []\<rparr>"] by fastforce
  from w(2) w(3) [rule_format, of "\<lparr>rx = map (\<lambda>c. [c]) (tx w'), tx = []\<rparr>" "[]"] have
    "\<exists>r'. read_all (chunked_ops socket_ops) [] (chunked_stream_of \<lparr>rx = map (\<lambda>c. [c]) (tx w'), tx = []\<rparr>) = Some (''hello'', r')"
    by (auto simp: singles)
  with w(1) show ?thesis by blast
qed

text \<open>
  C27.  Framing of a message body: for every set of headers whose \<open>Content-Length\<close>, if any, fits a
  signed 64-bit integer, \<open>make_body_stream\<close> refuses exactly the malformed lengths, and otherwise
  reading the stream it builds to the end returns, with the body the framing rules give:
  chunked when \<open>Transfer-Encoding\<close> says so, else the next \<open>Content-Length\<close> bytes, else empty.
\<close>

theorem message_body_framing:
  assumes "byte_source ops content invar" and "invar w"
    and "\<forall>cl. headers_get hs ''Content-Length'' = Some cl \<longrightarrow> dec_value cl < 2 ^ 63"
  shows "case make_body_stream ops buf w hs of
      None \<Rightarrow> body_spec hs (buf @ content w) = None
    | Some b \<Rightarrow> \<exists>body b'. body_spec hs (buf @ content w) = Some body \<and> read_all (body_ops ops) [] b = Some (body, b')"
  using make_body_stream_spec [OF assms(3), where ops = ops and buf = buf and w = w and content = content]
    make_body_stream_inv [where ops = ops and buf = buf and w = w and hs = hs and ok = "\<lambda>(b, s). invar s" and content = content] assms(2)
    byte_source.read_all_content [OF body_byte_source [OF buffered_live [OF assms(1)]], of _ "[]"]
  by (fastforce split: option.splits)

theorem message_body_framing_witness:
  "case make_body_stream socket_ops ''he'' \<lparr>rx = [''llo wor'', ''ld''], tx = []\<rparr>
       [\<lparr>h_name = ''content-length'', h_value = ''5''\<rparr>] of
     None \<Rightarrow> False
   | Some b \<Rightarrow> \<exists>b'. read_all (body_ops socket_ops) [] b = Some (''hello'', b')"
proof -
  let ?hs = "[\<lparr>h_name = ''content-length'', h_value = ''5''\<rparr>]"
  have g: "headers_get ?hs ''Content-Length'' = Some ''5''" "headers_get ?hs ''Transfer-Encoding'' = None" by code_simp+
  have d: "\<forall>c \<in> set ''5''. is_digit c" "dec_value ''5'' = 5" by code_simp+
  then have "body_spec ?hs ''hello world'' = Some ''hello''"
    by (simp add: body_spec_def g del: headers_get.simps)
  with message_body_framing [OF socket.byte_source_axioms, of "\<lparr>rx = [''llo wor'', ''ld''], tx = []\<rparr>" ?hs "''he''"]
  show ?thesis by (auto simp: g d(2) simp del: headers_get.simps split: option.splits)
qed

text \<open>
  C28.  Header block round trip: \<open>read_headers\<close>, given a block printed by \<open>http_headers::write_to\<close> and
  the empty line, in whatever pieces the wire delivers it, returns exactly those headers in order
  and leaves every byte after the block.  The only limit is on the length of one line, not on
  the number of headers.
\<close>

theorem header_block_round_trip:
  assumes "byte_source ops content invar" and "invar w" and "0 < m"
    and "buf @ content w = headers_write_to hs @ CRLF @ rest"
    and "list_all (\<lambda>h. wf_header h \<and> length (header_write h) \<le> Suc m) hs"
  shows "\<exists>buf' w'. read_headers ops m buf w [] = Some (True, hs, buf', w') \<and> buf' @ content w' = rest"
  using byte_source.read_headers_write [OF assms(1,2,4,5,3), of "[]"] by auto

theorem header_block_round_trip_witness:
  "\<exists>buf' w'. read_headers socket_ops 64 (''Ho'') \<lparr>rx = [''st: a'' @ [CR], [LF] @ ''X: 1'' @ CRLF, CRLF @ ''rest''], tx = []\<rparr> [] =
     Some (True, [\<lparr>h_name = ''Host'', h_value = ''a''\<rparr>, \<lparr>h_name = ''X'', h_value = ''1''\<rparr>], buf', w') \<and>
     buf' @ socket_content w' = ''rest''"
proof -
  let ?hs = "[\<lparr>h_name = ''Host'', h_value = ''a''\<rparr>, \<lparr>h_name = ''X'', h_value = ''1''\<rparr>]"
  have "list_all (\<lambda>h. wf_header h \<and> length (header_write h) \<le> Suc 64) ?hs" by code_simp
  with header_block_round_trip [OF socket.byte_source_axioms,
      of "\<lparr>rx = [''st: a'' @ [CR], [LF] @ ''X: 1'' @ CRLF, CRLF @ ''rest''], tx = []\<rparr>" 64 "''Ho''" ?hs "''rest''"]
  show ?thesis by (simp add: headers_write_to_def header_write_def)
qed

end
