(* ===== verification/Frame.thy ===== *)
theory Frame
  imports Prelude
begin

text \<open>
  \<open>src/src/http2/frame.cpp\<close>: the HTTP/2 frame header and the payloads with a fixed layout.
  Bytes are \<open>8 word\<close>s, fields keep the width they have in the source, and every printer comes
  with the parser's inverse law.
\<close>

unbundle bit_operations_syntax

section \<open>Big-endian fields\<close>

definition write_u24 :: "u32 \<Rightarrow> byte list" where
  "write_u24 v = [ucast (drop_bit 16 v AND 0xff), ucast (drop_bit 8 v AND 0xff), ucast (v AND 0xff)]"

definition write_u32 :: "u32 \<Rightarrow> byte list" where
  "write_u32 v = [ucast (drop_bit 24 v AND 0xff), ucast (drop_bit 16 v AND 0xff),
     ucast (drop_bit 8 v AND 0xff), ucast (v AND 0xff)]"

definition write_u16 :: "u16 \<Rightarrow> byte list" where
  "write_u16 v = [ucast (drop_bit 8 v AND 0xff), ucast (v AND 0xff)]"

definition read_u24 :: "byte list \<Rightarrow> u32" where
  "read_u24 p = push_bit 16 (ucast (p ! 0)) OR push_bit 8 (ucast (p ! 1)) OR ucast (p ! 2)"

definition read_u32 :: "byte list \<Rightarrow> u32" where
  "read_u32 p = push_bit 24 (ucast (p ! 0)) OR push_bit 16 (ucast (p ! 1)) OR
     push_bit 8 (ucast (p ! 2)) OR ucast (p ! 3)"

definition read_u16 :: "byte list \<Rightarrow> u16" where
  "read_u16 p = ucast (push_bit 8 (ucast (p ! 0) :: u32) OR ucast (p ! 1))"

section \<open>The frame header\<close>

text \<open>\<open>frame_type\<close> is an enumeration over \<open>uint8_t\<close> into which the parser casts any byte.\<close>

definition ft_data :: byte where "ft_data = 0"
definition ft_headers :: byte where "ft_headers = 1"
definition ft_priority :: byte where "ft_priority = 2"
definition ft_rst_stream :: byte where "ft_rst_stream = 3"
definition ft_settings :: byte where "ft_settings = 4"
definition ft_push_promise :: byte where "ft_push_promise = 5"
definition ft_ping :: byte where "ft_ping = 6"
definition ft_goaway :: byte where "ft_goaway = 7"
definition ft_window_update :: byte where "ft_window_update = 8"
definition ft_continuation :: byte where "ft_continuation = 9"

lemmas frame_type_defs = ft_data_def ft_headers_def ft_priority_def ft_rst_stream_def ft_settings_def
  ft_push_promise_def ft_ping_def ft_goaway_def ft_window_update_def ft_continuation_def

definition fl_end_stream :: byte where "fl_end_stream = 1"
definition fl_ack :: byte where "fl_ack = 1"
definition fl_end_headers :: byte where "fl_end_headers = 4"
definition fl_padded :: byte where "fl_padded = 8"
definition fl_priority :: byte where "fl_priority = 0x20"

lemmas frame_flag_defs = fl_end_stream_def fl_ack_def fl_end_headers_def fl_padded_def fl_priority_def

definition has_flag :: "byte \<Rightarrow> byte \<Rightarrow> bool" where
  "has_flag flags f \<longleftrightarrow> flags AND f \<noteq> 0"

record frame_header =
  fh_length :: u32
  fh_type :: byte
  fh_flags :: byte
  fh_stream_id :: u32

definition frame_header_wire_size :: nat where
  "frame_header_wire_size = 9"

definition frame_header_write :: "frame_header \<Rightarrow> byte list" where
  "frame_header_write h = write_u24 (fh_length h AND 0x00ffffff) @ [fh_type h, fh_flags h] @
     write_u32 (fh_stream_id h AND 0x7fffffff)"

definition frame_header_parse :: "byte list \<Rightarrow> frame_header" where
  "frame_header_parse d = \<lparr>fh_length = read_u24 d, fh_type = d ! 3, fh_flags = d ! 4,
     fh_stream_id = read_u32 (drop 5 d) AND 0x7fffffff\<rparr>"

section \<open>Payloads\<close>

record settings_param =
  sp_id :: u16
  sp_value :: u32

definition sid_header_table_size :: u16 where "sid_header_table_size = 1"
definition sid_initial_window_size :: u16 where "sid_initial_window_size = 4"
definition sid_max_frame_size :: u16 where "sid_max_frame_size = 5"

definition ec_no_error :: u32 where "ec_no_error = 0"
definition ec_protocol_error :: u32 where "ec_protocol_error = 1"
definition ec_flow_control_error :: u32 where "ec_flow_control_error = 3"
definition ec_frame_size_error :: u32 where "ec_frame_size_error = 6"
definition ec_compression_error :: u32 where "ec_compression_error = 9"

definition write_settings_payload :: "settings_param list \<Rightarrow> byte list" where
  "write_settings_payload params = concat (map (\<lambda>p. write_u16 (sp_id p) @ write_u32 (sp_value p)) params)"

fun parse_settings_loop :: "byte list \<Rightarrow> settings_param list" where
  "parse_settings_loop [] = []"
| "parse_settings_loop (b # bs) =
     \<lparr>sp_id = read_u16 (b # bs), sp_value = read_u32 (drop 2 (b # bs))\<rparr> # parse_settings_loop (drop 5 bs)"

definition parse_settings_payload :: "byte list \<Rightarrow> settings_param list option" where
  "parse_settings_payload d = (if length d mod 6 \<noteq> 0 then None else Some (parse_settings_loop d))"

definition write_window_update_payload :: "u32 \<Rightarrow> byte list" where
  "write_window_update_payload increment = write_u32 (increment AND 0x7fffffff)"

definition parse_window_update_payload :: "byte list \<Rightarrow> u32 option" where
  "parse_window_update_payload d = (if length d \<noteq> 4 then None else Some (read_u32 d AND 0x7fffffff))"

definition write_rst_stream_payload :: "u32 \<Rightarrow> byte list" where
  "write_rst_stream_payload error = write_u32 error"

definition parse_rst_stream_payload :: "byte list \<Rightarrow> u32 option" where
  "parse_rst_stream_payload d = (if length d \<noteq> 4 then None else Some (read_u32 d))"

definition write_goaway_payload :: "u32 \<Rightarrow> u32 \<Rightarrow> string \<Rightarrow> byte list" where
  "write_goaway_payload last_stream_id error debug_data =
     write_u32 (last_stream_id AND 0x7fffffff) @ write_u32 error @ bytes_of debug_data"

definition write_ping_payload :: "byte list \<Rightarrow> byte list" where
  "write_ping_payload opaque = opaque"

text \<open>The content length and offset of a payload, or a pad length that does not fit.\<close>

definition strip_padding :: "byte list \<Rightarrow> bool \<Rightarrow> (nat \<times> nat) option" where
  "strip_padding payload padded =
     (let len = length payload in
      if \<not> padded then Some (len, 0)
      else if len < 1 then None
      else let pad_length = unat (payload ! 0)
           in if pad_length + 1 > len then None else Some (len - 1 - pad_length, 1))"

section \<open>Laws\<close>

lemma length_write [simp]:
  "length (write_u24 v) = 3" "length (write_u32 v) = 4" "length (write_u16 w) = 2"
  by (simp_all add: write_u24_def write_u32_def write_u16_def)

lemma read_write_u32: "read_u32 (write_u32 v @ rest) = v"
proof (rule bit_word_eqI)
  fix n assume "n < LENGTH(32)"
  then consider "n < 8" | "8 \<le> n" "n < 16" | "16 \<le> n" "n < 24" | "24 \<le> n" "n < 32" by force
  then show "bit (read_u32 (write_u32 v @ rest)) n = bit v n"
    by cases (auto simp: read_u32_def write_u32_def bit_simps bit_masks)
qed

lemma read_write_u24: "read_u24 (write_u24 v @ rest) = v AND 0xffffff"
proof (rule bit_word_eqI)
  fix n assume "n < LENGTH(32)"
  then consider "n < 8" | "8 \<le> n" "n < 16" | "16 \<le> n" "n < 24" | "24 \<le> n" "n < 32" by force
  then show "bit (read_u24 (write_u24 v @ rest)) n = bit (v AND 0xffffff) n"
    by cases (auto simp: read_u24_def write_u24_def bit_simps bit_masks)
qed

lemma read_write_u16: "read_u16 (write_u16 v @ rest) = v"
proof (rule bit_word_eqI)
  fix n assume "n < LENGTH(16)"
  then consider "n < 8" | "8 \<le> n" "n < 16" by force
  then show "bit (read_u16 (write_u16 v @ rest)) n = bit v n"
    by cases (auto simp: read_u16_def write_u16_def bit_simps bit_masks)
qed

lemmas read_write = read_write_u32 read_write_u24 read_write_u16
  read_write_u32 [where rest = "[]", simplified] read_write_u16 [where rest = "[]", simplified]

lemma frame_header_parse_write:
  "frame_header_parse (frame_header_write h @ rest) =
     h\<lparr>fh_length := fh_length h AND 0xffffff, fh_stream_id := fh_stream_id h AND 0x7fffffff\<rparr>"
proof -
  let ?l = "write_u24 (fh_length h AND 0xffffff)" and ?s = "write_u32 (fh_stream_id h AND 0x7fffffff)"
  have "frame_header_write h @ rest = ?l @ fh_type h # fh_flags h # ?s @ rest"
    by (simp add: frame_header_write_def)
  moreover have "(?l @ fh_type h # fh_flags h # ?s @ rest) ! 3 = fh_type h"
    "(?l @ fh_type h # fh_flags h # ?s @ rest) ! 4 = fh_flags h"
    "drop 5 (?l @ fh_type h # fh_flags h # ?s @ rest) = ?s @ rest"
    by (simp_all add: nth_append)
  ultimately show ?thesis by (simp add: frame_header_parse_def read_write)
qed

lemma length_frame_header_write [simp]: "length (frame_header_write h) = frame_header_wire_size"
  by (simp add: frame_header_write_def frame_header_wire_size_def)

lemma length_write_settings_payload: "length (write_settings_payload ps) = 6 * length ps"
  by (induction ps) (simp_all add: write_settings_payload_def)

lemma parse_settings_loop_write: "parse_settings_loop (write_settings_payload ps) = ps"
proof (induction ps)
  case (Cons p ps)
  obtain b c where u: "write_u16 (sp_id p) = [b, c]" by (simp add: write_u16_def)
  let ?rest = "write_u32 (sp_value p) @ write_settings_payload ps"
  have w: "write_settings_payload (p # ps) = b # c # ?rest"
    by (simp add: write_settings_payload_def u)
  have "read_u16 (b # c # ?rest) = sp_id p" using read_write_u16 [of "sp_id p" ?rest] by (simp add: u)
  moreover have "drop 5 (c # ?rest) = write_settings_payload ps" by simp
  ultimately show ?case using Cons.IH by (simp add: w read_write)
qed (simp add: write_settings_payload_def)

lemma parse_settings_loop_length: "length d mod 6 = 0 \<Longrightarrow> 6 * length (parse_settings_loop d) = length d"
proof (induction d rule: parse_settings_loop.induct)
  case (2 b bs)
  then obtain k where k: "Suc (length bs) = 6 * k" by (metis length_Cons mod_0_imp_dvd dvdE)
  then have "length (drop 5 bs) = 6 * (k - 1)" "0 < k" by (auto simp: diff_mult_distrib2)
  with 2 k show ?case by simp
qed simp

section \<open>Properties\<close>

text \<open>
   The 9-byte frame header: what \<open>frame_header::write\<close> prints, followed by anything, is parsed
  back exactly, for every frame whose length fits 24 bits and whose stream id fits 31 bits.
\<close>

theorem frame_header_round_trip:
  assumes "fh_length h < 2 ^ 24" and "fh_stream_id h < 2 ^ 31"
  shows "frame_header_parse (frame_header_write h @ rest) = h \<and>
    length (frame_header_write h) = frame_header_wire_size"
proof -
  have "fh_length h AND 0xffffff = fh_length h" "fh_stream_id h AND 0x7fffffff = fh_stream_id h"
    using less_mask_eq [of "fh_length h" 24] less_mask_eq [of "fh_stream_id h" 31] assms
    by (simp_all add: mask_eq_exp_minus_1)
  then show ?thesis by (simp add: frame_header_parse_write)
qed

theorem frame_header_round_trip_witness:
  "frame_header_parse (frame_header_write \<lparr>fh_length = 16384, fh_type = ft_data, fh_flags = fl_end_stream,
     fh_stream_id = 0x7fffffff\<rparr> @ [1, 2, 3]) =
   \<lparr>fh_length = 16384, fh_type = ft_data, fh_flags = fl_end_stream, fh_stream_id = 0x7fffffff\<rparr>"
  using frame_header_round_trip [of "\<lparr>fh_length = 16384, fh_type = ft_data, fh_flags = fl_end_stream,
     fh_stream_id = 0x7fffffff\<rparr>" "[1, 2, 3]"] by simp

text \<open>
   The fixed-layout payloads: a printed SETTINGS payload parses to its parameters, a SETTINGS
  payload is refused exactly when its length is not a multiple of six, and WINDOW_UPDATE and
  RST_STREAM payloads parse back, the increment without its reserved bit.
\<close>

theorem payload_round_trips:
  "parse_settings_payload (write_settings_payload ps) = Some ps \<and>
   (parse_settings_payload d = None \<longleftrightarrow> length d mod 6 \<noteq> 0) \<and>
   parse_window_update_payload (write_window_update_payload i) = Some (i AND 0x7fffffff) \<and>
   parse_rst_stream_payload (write_rst_stream_payload e) = Some e"
  by (simp add: parse_settings_payload_def length_write_settings_payload parse_settings_loop_write
      parse_window_update_payload_def write_window_update_payload_def
      parse_rst_stream_payload_def write_rst_stream_payload_def read_write word_bw_assocs)

text \<open>
   Padding: the content \<open>strip_padding\<close> reports always lies inside the payload, and for a
  payload built from a pad length, a content and that much padding it is that content.
\<close>

theorem strip_padding_content:
  "(case strip_padding payload padded of
      None \<Rightarrow> padded \<and> (payload = [] \<or> length payload \<le> unat (payload ! 0))
    | Some (len, offset) \<Rightarrow> offset + len \<le> length payload) \<and>
   strip_padding (of_nat (k mod 256) # content @ replicate (k mod 256) 0) True = Some (length content, 1)"
proof -
  have "unat (of_nat (k mod 256) :: byte) = k mod 256" by (simp add: unat_of_nat)
  then show ?thesis by (auto simp: strip_padding_def Let_def)
qed

end
