(* ===== verification/Huffman.thy ===== *)
theory Huffman
  imports Prelude
begin

text \<open>
  \<open>src/src/http2/hpack_tables.hpp\<close> and the Huffman coding of \<open>src/src/http2/hpack.cpp\<close>.  The
  decoder's trie is kept as the code keeps it, a growing vector of nodes with child indices.
  The walks through it are characterised for any sequence of insertions, the code table is
  checked to be prefix-free, and decoding is shown to invert encoding for every string.
\<close>

unbundle bit_operations_syntax

section \<open>The tables of RFC 7541\<close>

definition static_table :: "(string \<times> string) list" where
  "static_table = [
   ('':authority'', ''''), ('':method'', ''GET''), ('':method'', ''POST''),
   ('':path'', ''/''), ('':path'', ''/index.html''), ('':scheme'', ''http''),
   ('':scheme'', ''https''), ('':status'', ''200''), ('':status'', ''204''),
   ('':status'', ''206''), ('':status'', ''304''), ('':status'', ''400''),
   ('':status'', ''404''), ('':status'', ''500''), (''accept-charset'', ''''),
   (''accept-encoding'', ''gzip, deflate''), (''accept-language'', ''''), (''accept-ranges'', ''''),
   (''accept'', ''''), (''access-control-allow-origin'', ''''), (''age'', ''''),
   (''allow'', ''''), (''authorization'', ''''), (''cache-control'', ''''),
   (''content-disposition'', ''''), (''content-encoding'', ''''), (''content-language'', ''''),
   (''content-length'', ''''), (''content-location'', ''''), (''content-range'', ''''),
   (''content-type'', ''''), (''cookie'', ''''), (''date'', ''''),
   (''etag'', ''''), (''expect'', ''''), (''expires'', ''''),
   (''from'', ''''), (''host'', ''''), (''if-match'', ''''),
   (''if-modified-since'', ''''), (''if-none-match'', ''''), (''if-range'', ''''),
   (''if-unmodified-since'', ''''), (''last-modified'', ''''), (''link'', ''''),
   (''location'', ''''), (''max-forwards'', ''''), (''proxy-authenticate'', ''''),
   (''proxy-authorization'', ''''), (''range'', ''''), (''referer'', ''''),
   (''refresh'', ''''), (''retry-after'', ''''), (''server'', ''''),
   (''set-cookie'', ''''), (''strict-transport-security'', ''''), (''transfer-encoding'', ''''),
   (''user-agent'', ''''), (''vary'', ''''), (''via'', ''''),
   (''www-authenticate'', '''')]"

text \<open>Code and number of bits, for the 256 byte values and the end-of-string symbol.\<close>

definition huffman_table :: "(u32 \<times> nat) list" where
  "huffman_table = [
   (0x1ff8, 13), (0x7fffd8, 23), (0xfffffe2, 28), (0xfffffe3, 28), (0xfffffe4, 28), (0xfffffe5, 28), (0xfffffe6, 28), (0xfffffe7, 28),
   (0xfffffe8, 28), (0xffffea, 24), (0x3ffffffc, 30), (0xfffffe9, 28), (0xfffffea, 28), (0x3ffffffd, 30), (0xfffffeb, 28), (0xfffffec, 28),
   (0xfffffed, 28), (0xfffffee, 28), (0xfffffef, 28), (0xffffff0, 28), (0xffffff1, 28), (0xffffff2, 28), (0x3ffffffe, 30), (0xffffff3, 28),
   (0xffffff4, 28), (0xffffff5, 28), (0xffffff6, 28), (0xffffff7, 28), (0xffffff8, 28), (0xffffff9, 28), (0xffffffa, 28), (0xffffffb, 28),
   (0x14, 6), (0x3f8, 10), (0x3f9, 10), (0xffa, 12), (0x1ff9, 13), (0x15, 6), (0xf8, 8), (0x7fa, 11),
   (0x3fa, 10), (0x3fb, 10), (0xf9, 8), (0x7fb, 11), (0xfa, 8), (0x16, 6), (0x17, 6), (0x18, 6),
   (0x0, 5), (0x1, 5), (0x2, 5), (0x19, 6), (0x1a, 6), (0x1b, 6), (0x1c, 6), (0x1d, 6),
   (0x1e, 6), (0x1f, 6), (0x5c, 7), (0xfb, 8), (0x7ffc, 15), (0x20, 6), (0xffb, 12), (0x3fc, 10),
   (0x1ffa, 13), (0x21, 6), (0x5d, 7), (0x5e, 7), (0x5f, 7), (0x60, 7), (0x61, 7), (0x62, 7),
   (0x63, 7), (0x64, 7), (0x65, 7), (0x66, 7), (0x67, 7), (0x68, 7), (0x69, 7), (0x6a, 7),
   (0x6b, 7), (0x6c, 7), (0x6d, 7), (0x6e, 7), (0x6f, 7), (0x70, 7), (0x71, 7), (0x72, 7),
   (0xfc, 8), (0x73, 7), (0xfd, 8), (0x1ffb, 13), (0x7fff0, 19), (0x1ffc, 13), (0x3ffc, 14), (0x22, 6),
   (0x7ffd, 15), (0x3, 5), (0x23, 6), (0x4, 5), (0x24, 6), (0x5, 5), (0x25, 6), (0x26, 6),
   (0x27, 6), (0x6, 5), (0x74, 7), (0x75, 7), (0x28, 6), (0x29, 6), (0x2a, 6), (0x7, 5),
   (0x2b, 6), (0x76, 7), (0x2c, 6), (0x8, 5), (0x9, 5), (0x2d, 6), (0x77, 7), (0x78, 7),
   (0x79, 7), (0x7a, 7), (0x7b, 7), (0x7ffe, 15), (0x7fc, 11), (0x3ffd, 14), (0x1ffd, 13), (0xffffffc, 28),
   (0xfffe6, 20), (0x3fffd2, 22), (0xfffe7, 20), (0xfffe8, 20), (0x3fffd3, 22), (0x3fffd4, 22), (0x3fffd5, 22), (0x7fffd9, 23),
   (0x3fffd6, 22), (0x7fffda, 23), (0x7fffdb, 23), (0x7fffdc, 23), (0x7fffdd, 23), (0x7fffde, 23), (0xffffeb, 24), (0x7fffdf, 23),
   (0xffffec, 24), (0xffffed, 24), (0x3fffd7, 22), (0x7fffe0, 23), (0xffffee, 24), (0x7fffe1, 23), (0x7fffe2, 23), (0x7fffe3, 23),
   (0x7fffe4, 23), (0x1fffdc, 21), (0x3fffd8, 22), (0x7fffe5, 23), (0x3fffd9, 22), (0x7fffe6, 23), (0x7fffe7, 23), (0xffffef, 24),
   (0x3fffda, 22), (0x1fffdd, 21), (0xfffe9, 20), (0x3fffdb, 22), (0x3fffdc, 22), (0x7fffe8, 23), (0x7fffe9, 23), (0x1fffde, 21),
   (0x7fffea, 23), (0x3fffdd, 22), (0x3fffde, 22), (0xfffff0, 24), (0x1fffdf, 21), (0x3fffdf, 22), (0x7fffeb, 23), (0x7fffec, 23),
   (0x1fffe0, 21), (0x1fffe1, 21), (0x3fffe0, 22), (0x1fffe2, 21), (0x7fffed, 23), (0x3fffe1, 22), (0x7fffee, 23), (0x7fffef, 23),
   (0xfffea, 20), (0x3fffe2, 22), (0x3fffe3, 22), (0x3fffe4, 22), (0x7ffff0, 23), (0x3fffe5, 22), (0x3fffe6, 22), (0x7ffff1, 23),
   (0x3ffffe0, 26), (0x3ffffe1, 26), (0xfffeb, 20), (0x7fff1, 19), (0x3fffe7, 22), (0x7ffff2, 23), (0x3fffe8, 22), (0x1ffffec, 25),
   (0x3ffffe2, 26), (0x3ffffe3, 26), (0x3ffffe4, 26), (0x7ffffde, 27), (0x7ffffdf, 27), (0x3ffffe5, 26), (0xfffff1, 24), (0x1ffffed, 25),
   (0x7fff2, 19), (0x1fffe3, 21), (0x3ffffe6, 26), (0x7ffffe0, 27), (0x7ffffe1, 27), (0x3ffffe7, 26), (0x7ffffe2, 27), (0xfffff2, 24),
   (0x1fffe4, 21), (0x1fffe5, 21), (0x3ffffe8, 26), (0x3ffffe9, 26), (0xffffffd, 28), (0x7ffffe3, 27), (0x7ffffe4, 27), (0x7ffffe5, 27),
   (0xfffec, 20), (0xfffff3, 24), (0xfffed, 20), (0x1fffe6, 21), (0x3fffe9, 22), (0x1fffe7, 21), (0x1fffe8, 21), (0x7ffff3, 23),
   (0x3fffea, 22), (0x3fffeb, 22), (0x1ffffee, 25), (0x1ffffef, 25), (0xfffff4, 24), (0xfffff5, 24), (0x3ffffea, 26), (0x7ffff4, 23),
   (0x3ffffeb, 26), (0x7ffffe6, 27), (0x3ffffec, 26), (0x3ffffed, 26), (0x7ffffe7, 27), (0x7ffffe8, 27), (0x7ffffe9, 27), (0x7ffffea, 27),
   (0x7ffffeb, 27), (0xffffffe, 28), (0x7ffffec, 27), (0x7ffffed, 27), (0x7ffffee, 27), (0x7ffffef, 27), (0x7fffff0, 27), (0x3ffffee, 26),
   (0x3fffffff, 30)]"

section \<open>The decoding trie\<close>

record huff_node =
  hn_symbol :: int
  hn_child0 :: int
  hn_child1 :: int

type_synonym huff_nodes = "huff_node list"

definition new_node :: huff_node where
  "new_node = \<lparr>hn_symbol = -1, hn_child0 = -1, hn_child1 = -1\<rparr>"

definition hn_child :: "huff_nodes \<Rightarrow> nat \<Rightarrow> bool \<Rightarrow> int" where
  "hn_child nodes cur b = (if b then hn_child1 (nodes ! cur) else hn_child0 (nodes ! cur))"

definition set_child :: "huff_nodes \<Rightarrow> nat \<Rightarrow> bool \<Rightarrow> int \<Rightarrow> huff_nodes" where
  "set_child nodes cur b c =
     nodes[cur := (if b then (nodes ! cur)\<lparr>hn_child1 := c\<rparr> else (nodes ! cur)\<lparr>hn_child0 := c\<rparr>)]"

text \<open>The bits of a code, most significant first.\<close>

definition code_bits :: "u32 \<times> nat \<Rightarrow> bool list" where
  "code_bits c = map (bit (fst c)) (rev [0..<snd c])"

fun huff_insert_loop :: "int \<Rightarrow> bool list \<Rightarrow> nat \<Rightarrow> huff_nodes \<Rightarrow> huff_nodes" where
  "huff_insert_loop symbol [] cur nodes = nodes[cur := (nodes ! cur)\<lparr>hn_symbol := symbol\<rparr>]"
| "huff_insert_loop symbol (b # bs) cur nodes =
     (let nodes' = (if hn_child nodes cur b < 0
                    then set_child (nodes @ [new_node]) cur b (int (length (nodes @ [new_node])) - 1)
                    else nodes)
      in huff_insert_loop symbol bs (nat (hn_child nodes' cur b)) nodes')"

definition huff_insert :: "int \<Rightarrow> u32 \<times> nat \<Rightarrow> huff_nodes \<Rightarrow> huff_nodes" where
  "huff_insert symbol code nodes = huff_insert_loop symbol (code_bits code) 0 nodes"

definition huffman_tree :: huff_nodes where
  "huffman_tree = foldl (\<lambda>nodes sym. huff_insert (int sym) (huffman_table ! sym) nodes) [new_node] [0..<256]"

section \<open>Decoding\<close>

record huff_state =
  hs_cur :: nat
  hs_pending_bits :: nat
  hs_pending_all_ones :: bool
  hs_out :: string

definition huff_bit :: "huff_nodes \<Rightarrow> bool \<Rightarrow> huff_state \<Rightarrow> huff_state option" where
  "huff_bit nodes b s =
     (let next = hn_child nodes (hs_cur s) b in
      if next < 0 then None
      else let cur = nat next; sym = hn_symbol (nodes ! cur) in
        if sym \<ge> 0
        then Some \<lparr>hs_cur = 0, hs_pending_bits = 0, hs_pending_all_ones = True, hs_out = hs_out s @ [char_of (nat sym)]\<rparr>
        else Some \<lparr>hs_cur = cur, hs_pending_bits = hs_pending_bits s + 1,
                   hs_pending_all_ones = (if b then hs_pending_all_ones s else False), hs_out = hs_out s\<rparr>)"

fun huff_bits :: "huff_nodes \<Rightarrow> bool list \<Rightarrow> huff_state \<Rightarrow> huff_state option" where
  "huff_bits nodes [] s = Some s"
| "huff_bits nodes (b # bs) s = Option.bind (huff_bit nodes b s) (huff_bits nodes bs)"

definition byte_bits :: "byte \<Rightarrow> bool list" where
  "byte_bits w = map (bit w) (rev [0..<8])"

definition huff_start :: huff_state where
  "huff_start = \<lparr>hs_cur = 0, hs_pending_bits = 0, hs_pending_all_ones = True, hs_out = []\<rparr>"

definition huffman_decode :: "huff_nodes \<Rightarrow> byte list \<Rightarrow> string option" where
  "huffman_decode nodes data =
     (case huff_bits nodes (concat (map byte_bits data)) huff_start of
        None \<Rightarrow> None
      | Some s \<Rightarrow>
          if hs_pending_bits s \<ge> 8 then None
          else if hs_pending_bits s = 0 \<or> hs_pending_all_ones s then Some (hs_out s) else None)"

section \<open>Encoding\<close>

record huff_encoder =
  he_encoded :: "byte list"
  he_bit_buffer :: u64
  he_bit_count :: nat

fun huff_flush :: "nat \<Rightarrow> u64 \<Rightarrow> byte list \<Rightarrow> nat \<times> byte list" where
  "huff_flush bit_count bit_buffer encoded =
     (if bit_count \<ge> 8
      then huff_flush (bit_count - 8) bit_buffer (encoded @ [ucast (drop_bit (bit_count - 8) bit_buffer AND 0xff)])
      else (bit_count, encoded))"

declare huff_flush.simps [simp del]

definition huff_encode_char :: "huff_encoder \<Rightarrow> char \<Rightarrow> huff_encoder" where
  "huff_encode_char e c =
     (let (code, bits) = huffman_table ! chcode c;
          bit_buffer = push_bit bits (he_bit_buffer e) OR ucast code;
          (bit_count, encoded) = huff_flush (he_bit_count e + bits) bit_buffer (he_encoded e)
      in \<lparr>he_encoded = encoded,
          he_bit_buffer = bit_buffer AND (if bit_count = 0 then 0 else push_bit bit_count 1 - 1),
          he_bit_count = bit_count\<rparr>)"

definition huffman_encode :: "string \<Rightarrow> byte list" where
  "huffman_encode s =
     (let e = foldl huff_encode_char \<lparr>he_encoded = [], he_bit_buffer = 0, he_bit_count = 0\<rparr> s;
          n = he_bit_count e
      in if n > 0
         then he_encoded e @ [ucast (push_bit (8 - n) (he_bit_buffer e) OR drop_bit n 0xff)]
         else he_encoded e)"

section \<open>The code is prefix-free\<close>

text \<open>A checker: codes are added one by one to a trie that refuses a code comparable to another.\<close>

datatype code_trie = CEmpty | CLeaf | CNode code_trie code_trie

fun code_add :: "bool list \<Rightarrow> code_trie \<Rightarrow> code_trie option" where
  "code_add [] CEmpty = Some CLeaf"
| "code_add [] _ = None"
| "code_add (b # bs) CLeaf = None"
| "code_add (b # bs) CEmpty = map_option (\<lambda>t. if b then CNode CEmpty t else CNode t CEmpty) (code_add bs CEmpty)"
| "code_add (b # bs) (CNode l r) =
     (if b then map_option (CNode l) (code_add bs r) else map_option (\<lambda>t. CNode t r) (code_add bs l))"

fun code_leaf :: "code_trie \<Rightarrow> bool list \<Rightarrow> bool" where
  "code_leaf CLeaf [] = True"
| "code_leaf (CNode l r) (b # bs) = code_leaf (if b then r else l) bs"
| "code_leaf _ _ = False"

fun codes_add :: "bool list list \<Rightarrow> code_trie \<Rightarrow> code_trie option" where
  "codes_add [] t = Some t"
| "codes_add (c # cs) t = Option.bind (code_add c t) (codes_add cs)"

lemma code_leaf_add: "code_add c t = Some t' \<Longrightarrow> code_leaf t' d \<longleftrightarrow> d = c \<or> code_leaf t d"
proof (induction c t arbitrary: t' d rule: code_add.induct)
  case 1
  then show ?case by (cases d) auto
next
  case (4 b bs)
  then obtain u where u: "code_add bs CEmpty = Some u" "t' = (if b then CNode CEmpty u else CNode u CEmpty)" by auto
  with "4.IH" [OF u(1)] show ?case by (cases d) auto
next
  case (5 b bs l r)
  then show ?case by (cases d) (auto split: if_splits)
qed auto

lemma code_add_incomparable: "code_add c t = Some t' \<Longrightarrow> code_leaf t d \<Longrightarrow> \<not> prefix c d \<and> \<not> prefix d c"
proof (induction c t arbitrary: t' d rule: code_add.induct)
  case (5 b bs l r)
  then obtain x xs where "d = x # xs" by (cases d) auto
  with 5 show ?case by (cases "x = b") (auto split: if_splits)
qed auto

lemma codes_add_later:
  "codes_add cs t = Some t' \<Longrightarrow> code_leaf t c \<Longrightarrow> d \<in> set cs \<Longrightarrow> \<not> prefix c d \<and> \<not> prefix d c"
proof (induction cs arbitrary: t)
  case (Cons e es)
  then obtain u where u: "code_add e t = Some u" "codes_add es u = Some t'" by (auto split: bind_splits)
  have "code_leaf u c" using u(1) Cons.prems(2) code_leaf_add by blast
  with u Cons show ?case using code_add_incomparable by (metis set_ConsD)
qed simp

lemma codes_add_prefix_free:
  "codes_add cs t = Some t' \<Longrightarrow> i < length cs \<Longrightarrow> j < length cs \<Longrightarrow> prefix (cs ! i) (cs ! j) \<Longrightarrow> i = j"
proof (induction cs arbitrary: t i j)
  case (Cons c cs)
  then obtain u where u: "code_add c t = Some u" "codes_add cs u = Some t'" by (auto split: bind_splits)
  have later: "\<not> prefix c d \<and> \<not> prefix d c" if "d \<in> set cs" for d
    using codes_add_later [OF u(2) _ that] code_leaf_add [OF u(1)] by blast
  show ?case
  proof (cases i)
    case 0
    with Cons.prems later show ?thesis by (cases j) auto
  next
    case (Suc i')
    with Cons u(2) later show ?thesis by (cases j) auto
  qed
qed simp

lemma huffman_table_prefix_free: "codes_add (map code_bits (take 256 huffman_table)) CEmpty \<noteq> None"
  by code_simp

lemma huffman_table_wf: "list_all (\<lambda>(c, n). 5 \<le> n \<and> n \<le> 30 \<and> c < 2 ^ n) huffman_table"
  by code_simp

lemma huffman_table_length: "length huffman_table = 257"
  by code_simp

section \<open>Walks through the trie\<close>

fun huff_walk :: "huff_nodes \<Rightarrow> nat \<Rightarrow> bool list \<Rightarrow> nat option" where
  "huff_walk nodes cur [] = Some cur"
| "huff_walk nodes cur (b # bs) =
     (if hn_child nodes cur b < 0 then None else huff_walk nodes (nat (hn_child nodes cur b)) bs)"

definition sym_at :: "huff_nodes \<Rightarrow> bool list \<Rightarrow> int option" where
  "sym_at nodes bs =
     (case huff_walk nodes 0 bs of
        None \<Rightarrow> None
      | Some n \<Rightarrow> if hn_symbol (nodes ! n) \<ge> 0 then Some (hn_symbol (nodes ! n)) else None)"

definition trie_inv :: "huff_nodes \<Rightarrow> bool" where
  "trie_inv nodes \<longleftrightarrow> nodes \<noteq> [] \<and> (\<forall>i < length nodes. \<forall>b. hn_child nodes i b < int (length nodes)) \<and>
     (\<forall>p q n. huff_walk nodes 0 p = Some n \<and> huff_walk nodes 0 q = Some n \<longrightarrow> p = q)"

lemma huff_walk_append:
  "huff_walk nodes cur (bs @ cs) = Option.bind (huff_walk nodes cur bs) (\<lambda>n. huff_walk nodes n cs)"
  by (induction bs arbitrary: cur) auto

lemma huff_walk_less: "trie_inv nodes \<Longrightarrow> cur < length nodes \<Longrightarrow> huff_walk nodes cur bs = Some n \<Longrightarrow> n < length nodes"
proof (induction bs arbitrary: cur)
  case (Cons b bs)
  then have "hn_child nodes cur b < int (length nodes)" "0 < length nodes" by (auto simp: trie_inv_def)
  then have "nat (hn_child nodes cur b) < length nodes" by linarith
  with Cons show ?case by (auto split: if_splits)
qed simp

lemma huff_walk_root_less: "trie_inv nodes \<Longrightarrow> huff_walk nodes 0 bs = Some n \<Longrightarrow> n < length nodes"
  using huff_walk_less [of nodes 0 bs n] by (simp add: trie_inv_def)

lemma huff_walk_prefix: "huff_walk nodes cur q \<noteq> None \<Longrightarrow> prefix p q \<Longrightarrow> huff_walk nodes cur p \<noteq> None"
  by (auto simp: prefix_def huff_walk_append split: bind_splits)

text \<open>Adding a child to the node at the end of a walk adds exactly one walk.\<close>

definition grow :: "huff_nodes \<Rightarrow> nat \<Rightarrow> bool \<Rightarrow> huff_nodes" where
  "grow nodes cur b = set_child (nodes @ [new_node]) cur b (int (length nodes))"

lemma length_grow [simp]: "length (grow nodes cur b) = Suc (length nodes)"
  by (simp add: grow_def set_child_def)

lemma grow_child:
  "cur < length nodes \<Longrightarrow> i \<le> length nodes \<Longrightarrow>
   hn_child (grow nodes cur b) i c =
     (if i = cur \<and> c = b then int (length nodes) else if i = length nodes then -1 else hn_child nodes i c)"
  by (auto simp: grow_def set_child_def hn_child_def nth_append nth_list_update new_node_def)

lemma grow_symbol:
  "cur < length nodes \<Longrightarrow> i \<le> length nodes \<Longrightarrow>
   hn_symbol (grow nodes cur b ! i) = (if i = length nodes then -1 else hn_symbol (nodes ! i))"
  by (auto simp: grow_def set_child_def nth_append nth_list_update new_node_def)

lemma grow_walk:
  assumes inv: "trie_inv nodes" and p: "huff_walk nodes 0 p = Some cur" and no: "hn_child nodes cur b < 0"
  shows "huff_walk (grow nodes cur b) 0 q = (if q = p @ [b] then Some (length nodes) else huff_walk nodes 0 q)"
proof (induction q rule: rev_induct)
  case (snoc c q)
  have cur: "cur < length nodes" by (rule huff_walk_root_less [OF inv p])
  show ?case
  proof (cases "q = p @ [b]")
    case True
    have "huff_walk nodes 0 (q @ [c]) = None" using True p no by (simp add: huff_walk_append)
    moreover have "huff_walk (grow nodes cur b) 0 q = Some (length nodes)" using snoc True by simp
    then have "huff_walk (grow nodes cur b) 0 (q @ [c]) = None"
      using grow_child [OF cur, of "length nodes"] cur by (simp add: huff_walk_append [of _ 0 q])
    ultimately show ?thesis using True by simp
  next
    case False
    show ?thesis
    proof (cases "huff_walk nodes 0 q")
      case None
      with False snoc p show ?thesis by (auto simp: huff_walk_append)
    next
      case (Some m)
      then have m: "m < length nodes" by (rule huff_walk_root_less [OF inv])
      have "m = cur \<longleftrightarrow> q = p" using inv p Some by (auto simp: trie_inv_def)
      with Some m False snoc grow_child [OF cur, of m b c] show ?thesis by (auto simp: huff_walk_append)
    qed
  qed
qed simp

lemma grow_inv:
  assumes inv: "trie_inv nodes" and p: "huff_walk nodes 0 p = Some cur" and no: "hn_child nodes cur b < 0"
  shows "trie_inv (grow nodes cur b)"
  unfolding trie_inv_def
proof (intro conjI allI impI)
  show "grow nodes cur b \<noteq> []" using length_grow [of nodes cur b] by (metis list.size(3) nat.distinct(1))
  fix i c assume "i < length (grow nodes cur b)"
  then have i: "i \<le> length nodes" by simp
  note child = grow_child [OF huff_walk_root_less [OF inv p] i, of b c]
  show "hn_child (grow nodes cur b) i c < int (length (grow nodes cur b))"
  proof (cases "i = length nodes")
    case False
    with i inv have "hn_child nodes i c < int (length nodes)" by (simp add: trie_inv_def)
    with child show ?thesis by simp
  qed (use child in simp)
next
  fix q r n assume "huff_walk (grow nodes cur b) 0 q = Some n \<and> huff_walk (grow nodes cur b) 0 r = Some n"
  with inv huff_walk_root_less [OF inv] show "q = r"
    by (auto simp: grow_walk [OF assms] trie_inv_def split: if_splits)
qed

lemma grow_sym_at:
  assumes inv: "trie_inv nodes" and p: "huff_walk nodes 0 p = Some cur" and no: "hn_child nodes cur b < 0"
  shows "sym_at (grow nodes cur b) q = sym_at nodes q"
proof (cases "q = p @ [b]")
  case True
  have "huff_walk nodes 0 (p @ [b]) = None" using p no by (simp add: huff_walk_append)
  with True grow_symbol [OF huff_walk_root_less [OF inv p], of "length nodes"] show ?thesis
    by (simp add: sym_at_def grow_walk [OF assms])
next
  case False
  then show ?thesis
  proof (cases "huff_walk nodes 0 q")
    case (Some n)
    with False huff_walk_root_less [OF inv Some] grow_symbol [OF huff_walk_root_less [OF inv p], of n] show ?thesis
      by (simp add: sym_at_def grow_walk [OF assms])
  qed (simp add: sym_at_def grow_walk [OF assms])
qed

text \<open>Setting the symbol of the node at the end of a walk.\<close>

lemma set_symbol:
  assumes inv: "trie_inv nodes" and p: "huff_walk nodes 0 p = Some cur" and s: "0 \<le> s"
  defines "nodes' \<equiv> nodes[cur := (nodes ! cur)\<lparr>hn_symbol := s\<rparr>]"
  shows "huff_walk nodes' i q = huff_walk nodes i q" and "trie_inv nodes'"
    and "sym_at nodes' q = (if q = p then Some s else sym_at nodes q)"
proof -
  have cur: "cur < length nodes" by (rule huff_walk_root_less [OF inv p])
  have child: "hn_child nodes' i c = hn_child nodes i c" for i c
    using cur by (cases "i = cur") (auto simp: nodes'_def hn_child_def)
  show walk: "huff_walk nodes' i q = huff_walk nodes i q" for i q
    by (induction q arbitrary: i) (auto simp: child)
  then show "trie_inv nodes'" using inv by (simp add: trie_inv_def child) (simp add: nodes'_def)
  show "sym_at nodes' q = (if q = p then Some s else sym_at nodes q)"
  proof (cases "huff_walk nodes 0 q")
    case None
    with p show ?thesis by (auto simp: sym_at_def walk)
  next
    case (Some n)
    have "n = cur \<longleftrightarrow> q = p" using inv p Some by (auto simp: trie_inv_def)
    moreover have "hn_symbol (nodes' ! n) = (if n = cur then s else hn_symbol (nodes ! n))"
      using cur by (auto simp: nodes'_def nth_list_update)
    ultimately show ?thesis using Some s by (auto simp: sym_at_def walk)
  qed
qed

lemma huff_insert_loop_spec:
  assumes "trie_inv nodes" and "huff_walk nodes 0 p = Some cur" and "0 \<le> s"
  shows "trie_inv (huff_insert_loop s bs cur nodes) \<and>
    (\<forall>q. huff_walk (huff_insert_loop s bs cur nodes) 0 q \<noteq> None \<longleftrightarrow> huff_walk nodes 0 q \<noteq> None \<or> prefix q (p @ bs)) \<and>
    (\<forall>q. sym_at (huff_insert_loop s bs cur nodes) q = (if q = p @ bs then Some s else sym_at nodes q))"
  using assms(1,2)
proof (induction bs arbitrary: p cur nodes)
  case Nil
  have "prefix q p \<Longrightarrow> huff_walk nodes 0 q \<noteq> None" for q
    using huff_walk_prefix [of nodes 0 p q] Nil(2) by simp
  with set_symbol [OF Nil assms(3)] show ?case by auto
next
  case (Cons b bs)
  show ?case
  proof (cases "hn_child nodes cur b < 0")
    case True
    let ?n = "grow nodes cur b"
    note g = grow_walk [OF Cons.prems True] grow_inv [OF Cons.prems True] grow_sym_at [OF Cons.prems True]
    have w: "huff_walk ?n 0 (p @ [b]) = Some (length nodes)" by (simp add: g(1))
    have "cur < length nodes" by (rule huff_walk_root_less [OF Cons.prems])
    then have "hn_child ?n cur b = int (length nodes)" by (simp add: grow_child)
    with True have "huff_insert_loop s (b # bs) cur nodes = huff_insert_loop s bs (length nodes) ?n"
      by (simp add: grow_def)
    moreover have "prefix q (p @ b # bs) \<Longrightarrow> huff_walk ?n 0 q \<noteq> None \<or> prefix q ((p @ [b]) @ bs)" for q by simp
    ultimately show ?thesis using Cons.IH [OF g(2) w] by (auto simp: g(1) g(3) split: if_splits)
  next
    case False
    then have w: "huff_walk nodes 0 (p @ [b]) = Some (nat (hn_child nodes cur b))"
      using Cons.prems(2) by (simp add: huff_walk_append)
    show ?thesis using Cons.IH [OF Cons.prems(1) w] False by simp
  qed
qed


lemma trie_inv_root: "trie_inv [new_node]" "huff_walk [new_node] 0 q \<noteq> None \<longleftrightarrow> q = []" "sym_at [new_node] q = None"
proof -
  have w: "huff_walk [new_node] 0 q = (if q = [] then Some 0 else None)" for q
    by (cases q) (auto simp: hn_child_def new_node_def)
  then show "huff_walk [new_node] 0 q \<noteq> None \<longleftrightarrow> q = []" by simp
  have "hn_symbol new_node = -1" by (simp add: new_node_def)
  then show "sym_at [new_node] q = None" by (simp add: sym_at_def w)
  show "trie_inv [new_node]"
    unfolding trie_inv_def w by (auto simp: hn_child_def new_node_def split: if_splits)
qed

text \<open>The trie of any list of symbols with pairwise different codes.\<close>

lemma huff_inserts:
  fixes code :: "nat \<Rightarrow> u32 \<times> nat"
  assumes "inj_on (\<lambda>s. code_bits (code s)) (set ss)"
  defines "t \<equiv> foldl (\<lambda>nodes s. huff_insert (int s) (code s) nodes) [new_node] ss"
  shows "trie_inv t \<and>
    (\<forall>q. huff_walk t 0 q \<noteq> None \<longleftrightarrow> q = [] \<or> (\<exists>s \<in> set ss. prefix q (code_bits (code s)))) \<and>
    (\<forall>s \<in> set ss. sym_at t (code_bits (code s)) = Some (int s)) \<and>
    (\<forall>q. (\<forall>s \<in> set ss. q \<noteq> code_bits (code s)) \<longrightarrow> sym_at t q = None)"
  using assms(1) unfolding t_def
proof (induction ss rule: rev_induct)
  case (snoc s ss)
  let ?t = "foldl (\<lambda>nodes s. huff_insert (int s) (code s) nodes) [new_node] ss"
  have inj: "inj_on (\<lambda>s. code_bits (code s)) (set ss)" using snoc.prems by (rule inj_on_subset) auto
  note IH = snoc.IH [OF this]
  have "huff_walk ?t 0 [] = Some 0" by simp
  from huff_insert_loop_spec [OF _ this, of "int s" "code_bits (code s)"] IH
  have step: "trie_inv (huff_insert (int s) (code s) ?t)"
    "\<And>q. huff_walk (huff_insert (int s) (code s) ?t) 0 q \<noteq> None \<longleftrightarrow>
      huff_walk ?t 0 q \<noteq> None \<or> prefix q (code_bits (code s))"
    "\<And>q. sym_at (huff_insert (int s) (code s) ?t) q = (if q = code_bits (code s) then Some (int s) else sym_at ?t q)"
    by (auto simp: huff_insert_def)
  have "code_bits (code r) = code_bits (code s) \<Longrightarrow> r = s" if "r \<in> set ss" for r
    using snoc.prems that by (auto simp: inj_on_def)
  with IH step show ?case by auto
qed (use trie_inv_root in auto)

section \<open>The trie of the code table\<close>

abbreviation sym_code :: "nat \<Rightarrow> bool list" where
  "sym_code s \<equiv> code_bits (huffman_table ! s)"

lemma sym_code_prefix_free: "s < 256 \<Longrightarrow> r < 256 \<Longrightarrow> prefix (sym_code s) (sym_code r) \<Longrightarrow> s = r"
  using huffman_table_prefix_free codes_add_prefix_free [of "map code_bits (take 256 huffman_table)" CEmpty _ s r]
  by (auto simp: huffman_table_length)

lemma huffman_entry: "s < 257 \<Longrightarrow> huffman_table ! s = (c, n) \<Longrightarrow> 5 \<le> n \<and> n \<le> 30 \<and> c < 2 ^ n"
  using huffman_table_wf huffman_table_length by (fastforce simp: list_all_length)

lemma sym_code_0: "prefix (replicate 7 True) (sym_code 0)" "length (sym_code 0) = 13"
  by code_simp+

lemma huffman_tree_spec:
  "trie_inv huffman_tree"
  "huff_walk huffman_tree 0 q \<noteq> None \<longleftrightarrow> q = [] \<or> (\<exists>s < 256. prefix q (sym_code s))"
  "s < 256 \<Longrightarrow> sym_at huffman_tree (sym_code s) = Some (int s)"
  "(\<forall>s < 256. q \<noteq> sym_code s) \<Longrightarrow> sym_at huffman_tree q = None"
proof -
  have "inj_on (\<lambda>s. sym_code s) (set [0..<256])"
    using sym_code_prefix_free by (auto simp: inj_on_def)
  from huff_inserts [OF this, folded huffman_tree_def]
  show "trie_inv huffman_tree"
    "huff_walk huffman_tree 0 q \<noteq> None \<longleftrightarrow> q = [] \<or> (\<exists>s < 256. prefix q (sym_code s))"
    "s < 256 \<Longrightarrow> sym_at huffman_tree (sym_code s) = Some (int s)"
    "(\<forall>s < 256. q \<noteq> sym_code s) \<Longrightarrow> sym_at huffman_tree q = None"
    by auto
qed

text \<open>One bit of a code that is not its last moves down; the last one emits the symbol.\<close>

lemma huff_bit_inner:
  assumes "huff_walk huffman_tree 0 p = Some (hs_cur s)" and "prefix (p @ [b]) (sym_code c)"
    and "c < 256" and "p @ [b] \<noteq> sym_code c"
  shows "\<exists>n. huff_walk huffman_tree 0 (p @ [b]) = Some n \<and>
    huff_bit huffman_tree b s = Some (s\<lparr>hs_cur := n, hs_pending_bits := hs_pending_bits s + 1,
      hs_pending_all_ones := (b \<and> hs_pending_all_ones s)\<rparr>)"
proof -
  obtain n where n: "huff_walk huffman_tree 0 (p @ [b]) = Some n"
    using huffman_tree_spec(2) [of "p @ [b]"] assms(2,3) by auto
  then have child: "hn_child huffman_tree (hs_cur s) b \<ge> 0" "n = nat (hn_child huffman_tree (hs_cur s) b)"
    using assms(1) by (auto simp: huff_walk_append split: if_splits)
  have "p @ [b] \<noteq> sym_code r" if "r < 256" for r
    using sym_code_prefix_free [OF that assms(3)] assms(2,4) by auto
  then have "sym_at huffman_tree (p @ [b]) = None" by (intro huffman_tree_spec(4)) auto
  with n have "hn_symbol (huffman_tree ! n) < 0" by (auto simp: sym_at_def split: if_splits)
  with child n show ?thesis by (cases s) (simp add: huff_bit_def Let_def)
qed

lemma huff_bit_last:
  assumes "huff_walk huffman_tree 0 p = Some (hs_cur s)" and "p @ [b] = sym_code c" and "c < 256"
  shows "huff_bit huffman_tree b s = Some (huff_start\<lparr>hs_out := hs_out s @ [char_of c]\<rparr>)"
proof -
  obtain n where n: "huff_walk huffman_tree 0 (p @ [b]) = Some n"
    using huffman_tree_spec(2) [of "p @ [b]"] assms(2,3) by auto
  then have child: "hn_child huffman_tree (hs_cur s) b \<ge> 0" "n = nat (hn_child huffman_tree (hs_cur s) b)"
    using assms(1) by (auto simp: huff_walk_append split: if_splits)
  have "sym_at huffman_tree (p @ [b]) = Some (int c)" using huffman_tree_spec(3) [OF assms(3)] assms(2) by simp
  with n have "hn_symbol (huffman_tree ! n) = int c" by (auto simp: sym_at_def split: if_splits)
  with child show ?thesis by (simp add: huff_bit_def huff_start_def)
qed

lemma huff_bits_code:
  "huff_walk huffman_tree 0 p = Some (hs_cur s) \<Longrightarrow> p @ bs = sym_code c \<Longrightarrow> c < 256 \<Longrightarrow> bs \<noteq> [] \<Longrightarrow>
   huff_bits huffman_tree (bs @ rest) s = huff_bits huffman_tree rest (huff_start\<lparr>hs_out := hs_out s @ [char_of c]\<rparr>)"
proof (induction bs arbitrary: p s)
  case (Cons b bs)
  show ?case
  proof (cases "bs = []")
    case True
    with huff_bit_last [of p s b c] Cons.prems show ?thesis by simp
  next
    case False
    with Cons.prems have "prefix (p @ [b]) (sym_code c)" "p @ [b] \<noteq> sym_code c"
      by (auto simp: prefix_def) (metis append_Cons append_Nil append_assoc, metis append_Cons append_Nil append_assoc append_self_conv)
    from huff_bit_inner [OF Cons.prems(1) this(1) Cons.prems(3) this(2)] obtain n where
      n: "huff_walk huffman_tree 0 (p @ [b]) = Some n"
        "huff_bit huffman_tree b s = Some (s\<lparr>hs_cur := n, hs_pending_bits := hs_pending_bits s + 1,
           hs_pending_all_ones := (b \<and> hs_pending_all_ones s)\<rparr>)" by blast
    from Cons.IH [of "p @ [b]" "s\<lparr>hs_cur := n, hs_pending_bits := hs_pending_bits s + 1,
           hs_pending_all_ones := (b \<and> hs_pending_all_ones s)\<rparr>"] n Cons.prems(2,3) False
    show ?thesis by simp
  qed
qed simp

lemma huff_bits_codes:
  "hs_cur s = 0 \<Longrightarrow> hs_pending_bits s = 0 \<Longrightarrow> hs_pending_all_ones s \<Longrightarrow>
   huff_bits huffman_tree (concat (map (\<lambda>c. sym_code (chcode c)) str) @ rest) s =
   huff_bits huffman_tree rest (huff_start\<lparr>hs_out := hs_out s @ str\<rparr>)"
proof (induction str arbitrary: s)
  case Nil
  then show ?case by (cases s) (simp add: huff_start_def)
next
  case (Cons c str)
  have c: "chcode c < 256" "char_of (chcode c) = c" by (simp_all add: chcode_def)
  obtain code n where e: "huffman_table ! chcode c = (code, n)" by fastforce
  then have "sym_code (chcode c) \<noteq> []" using huffman_entry [OF _ e] c(1) by (simp add: code_bits_def)
  from huff_bits_code [of "[]" s "sym_code (chcode c)" "chcode c"] this c Cons.prems
  have "huff_bits huffman_tree (sym_code (chcode c) @ concat (map (\<lambda>c. sym_code (chcode c)) str) @ rest) s =
      huff_bits huffman_tree (concat (map (\<lambda>c. sym_code (chcode c)) str) @ rest) (huff_start\<lparr>hs_out := hs_out s @ [c]\<rparr>)"
    by simp
  also have "\<dots> = huff_bits huffman_tree rest (huff_start\<lparr>hs_out := (hs_out s @ [c]) @ str\<rparr>)"
    using Cons.IH [of "huff_start\<lparr>hs_out := hs_out s @ [c]\<rparr>"] by (simp add: huff_start_def)
  finally show ?case by simp
qed

lemma prefix_replicate: "k \<le> n \<Longrightarrow> prefix (replicate k x) (replicate n x)"
  by (metis le_add_diff_inverse prefixI replicate_add)

lemma huff_bits_append: "huff_bits nodes (bs @ cs) s = Option.bind (huff_bits nodes bs s) (huff_bits nodes cs)"
  by (induction bs arbitrary: s) (auto split: bind_splits)

lemma huff_bits_padding:
  assumes "k < 8"
  shows "\<exists>n. huff_walk huffman_tree 0 (replicate k True) = Some n \<and>
    huff_bits huffman_tree (replicate k True) (huff_start\<lparr>hs_out := out\<rparr>) =
      Some (huff_start\<lparr>hs_cur := n, hs_pending_bits := k, hs_out := out\<rparr>)"
  using assms
proof (induction k)
  case 0
  then show ?case by (simp add: huff_start_def)
next
  case (Suc k)
  then obtain n where n: "huff_walk huffman_tree 0 (replicate k True) = Some n"
    "huff_bits huffman_tree (replicate k True) (huff_start\<lparr>hs_out := out\<rparr>) =
      Some (huff_start\<lparr>hs_cur := n, hs_pending_bits := k, hs_out := out\<rparr>)" by auto
  let ?s = "huff_start\<lparr>hs_cur := n, hs_pending_bits := k, hs_out := out\<rparr>"
  have "prefix (replicate (Suc k) True) (replicate 7 True)"
    using Suc.prems by (intro prefix_replicate) simp
  then have p: "prefix (replicate k True @ [True]) (sym_code 0)"
    using sym_code_0(1) by (auto simp: replicate_append_same intro: prefix_order.trans)
  have "length (replicate k True @ [True]) \<noteq> length (sym_code 0)" using sym_code_0(2) Suc.prems by simp
  then have "replicate k True @ [True] \<noteq> sym_code 0" by metis
  from huff_bit_inner [OF _ p _ this, of ?s] n
  have "\<exists>n. huff_walk huffman_tree 0 (replicate k True @ [True]) = Some n \<and>
    huff_bits huffman_tree (replicate k True @ [True]) (huff_start\<lparr>hs_out := out\<rparr>) =
      Some (huff_start\<lparr>hs_cur := n, hs_pending_bits := Suc k, hs_out := out\<rparr>)"
    by (auto simp: huff_bits_append huff_start_def)
  then show ?case by (simp only: replicate_append_same replicate_Suc)
qed


section \<open>Encoding on bits\<close>

definition low_bits :: "nat \<Rightarrow> u64 \<Rightarrow> bool list" where
  "low_bits n w = map (bit w) (rev [0..<n])"

lemma length_low_bits [simp]: "length (low_bits n w) = n"
  by (simp add: low_bits_def)

lemma low_bits_eqI: "(\<And>i. i < n \<Longrightarrow> bit v i = bit w i) \<Longrightarrow> low_bits n v = low_bits n w"
  by (simp add: low_bits_def)

lemma upt_add: "[0..<k + n] = [0..<n] @ map (\<lambda>i. i + n) [0..<k]"
  using upt_add_eq_append [of 0 n k] by (simp add: map_add_upt add.commute)

lemma low_bits_push:
  assumes "c < 2 ^ n" and "n \<le> 30" and "k < 8"
  shows "low_bits (k + n) (push_bit n w OR ucast (c :: u32)) = low_bits k w @ code_bits (c, n)"
proof -
  have "\<not> bit c i" if "n \<le> i" for i
  proof -
    have "bit c i \<longleftrightarrow> bit (c AND mask n) i" using less_mask_eq [OF assms(1)] by simp
    with that show ?thesis by (simp add: bit_and_iff bit_mask_iff)
  qed
  with assms show ?thesis
    by (auto simp: low_bits_def code_bits_def upt_add rev_map bit_simps)
qed

lemma low_bits_byte:
  "8 \<le> m \<Longrightarrow> m \<le> 64 \<Longrightarrow> low_bits m w = byte_bits (ucast (drop_bit (m - 8) w AND 0xff)) @ low_bits (m - 8) w"
  using upt_add [of 8 "m - 8"]
  by (auto simp: low_bits_def byte_bits_def rev_map bit_simps bit_masks add.commute)


lemma huff_flush_bits:
  assumes "m \<le> 64"
  shows "fst (huff_flush m w enc) < 8 \<and>
    concat (map byte_bits (snd (huff_flush m w enc))) @ low_bits (fst (huff_flush m w enc)) w =
    concat (map byte_bits enc) @ low_bits m w"
  using assms
proof (induction m w enc rule: huff_flush.induct)
  case (1 m w enc)
  show ?case
  proof (cases "8 \<le> m")
    case True
    with 1 show ?thesis by (subst (1 2 3) huff_flush.simps) (simp add: low_bits_byte [OF True])
  next
    case False
    then show ?thesis by (subst (1 2 3) huff_flush.simps) simp
  qed
qed

definition encoder_bits :: "huff_encoder \<Rightarrow> bool list" where
  "encoder_bits e = concat (map byte_bits (he_encoded e)) @ low_bits (he_bit_count e) (he_bit_buffer e)"

lemma huff_encode_char_bits:
  assumes "he_bit_count e < 8"
  shows "he_bit_count (huff_encode_char e c) < 8 \<and>
    encoder_bits (huff_encode_char e c) = encoder_bits e @ sym_code (chcode c)"
proof -
  obtain code n where e: "huffman_table ! chcode c = (code, n)" by fastforce
  have "chcode c < 257" using less_trans [of "chcode c" 256 257] by (simp add: chcode_def)
  from huffman_entry [OF this e] have n: "n \<le> 30" "code < 2 ^ n" by auto
  let ?w = "push_bit n (he_bit_buffer e) OR ucast code"
  obtain k enc where f: "huff_flush (he_bit_count e + n) ?w (he_encoded e) = (k, enc)" by fastforce
  have "he_bit_count e + n \<le> 64" using assms n(1) by simp
  from huff_flush_bits [OF this, of ?w "he_encoded e"] f
  have b: "k < 8" "concat (map byte_bits enc) @ low_bits k ?w =
      concat (map byte_bits (he_encoded e)) @ low_bits (he_bit_count e + n) ?w" by auto
  have "low_bits k (?w AND (if k = 0 then 0 else push_bit k 1 - 1)) = low_bits k ?w"
    using b(1) by (intro low_bits_eqI) (auto simp: bit_simps push_bit_eq_mult simp flip: mask_eq_exp_minus_1)
  moreover have "huff_encode_char e c = \<lparr>he_encoded = enc,
      he_bit_buffer = ?w AND (if k = 0 then 0 else push_bit k 1 - 1), he_bit_count = k\<rparr>"
    using f by (simp add: huff_encode_char_def e Let_def)
  ultimately show ?thesis
    using b low_bits_push [OF n(2,1) assms, of "he_bit_buffer e"] by (simp add: encoder_bits_def e)
qed

lemma huff_encode_chars_bits:
  "he_bit_count e < 8 \<Longrightarrow>
   he_bit_count (foldl huff_encode_char e s) < 8 \<and>
   encoder_bits (foldl huff_encode_char e s) = encoder_bits e @ concat (map (\<lambda>c. sym_code (chcode c)) s)"
proof (induction s arbitrary: e)
  case (Cons c s)
  from huff_encode_char_bits [OF Cons.prems, of c] Cons.IH [of "huff_encode_char e c"] show ?case by simp
qed simp

lemma pad_bits:
  assumes "0 < n" and "n < 8"
  shows "byte_bits (ucast (push_bit (8 - n) w OR drop_bit n 0xff)) = low_bits n w @ replicate (8 - n) True"
proof (rule nth_equalityI)
  fix i assume "i < length (byte_bits (ucast (push_bit (8 - n) w OR drop_bit n 0xff)))"
  then have i: "i < 8" by (simp add: byte_bits_def)
  show "byte_bits (ucast (push_bit (8 - n) w OR drop_bit n 0xff)) ! i = (low_bits n w @ replicate (8 - n) True) ! i"
    using i assms by (cases "i < n") (auto simp: byte_bits_def low_bits_def nth_append rev_nth bit_simps bit_masks)
qed (use assms in \<open>simp add: byte_bits_def\<close>)

text \<open>The bits of an encoded string: its codes, then fewer than eight ones.\<close>

lemma huffman_encode_bits:
  "\<exists>k < 8. concat (map byte_bits (huffman_encode s)) = concat (map (\<lambda>c. sym_code (chcode c)) s) @ replicate k True"
proof -
  define e where "e = foldl huff_encode_char \<lparr>he_encoded = [], he_bit_buffer = 0, he_bit_count = 0\<rparr> s"
  have b: "he_bit_count e < 8" "encoder_bits e = concat (map (\<lambda>c. sym_code (chcode c)) s)"
    using huff_encode_chars_bits [of "\<lparr>he_encoded = [], he_bit_buffer = 0, he_bit_count = 0\<rparr>" s]
    by (simp_all add: e_def encoder_bits_def low_bits_def)
  show ?thesis
  proof (cases "he_bit_count e = 0")
    case True
    with b(2) show ?thesis
      by (intro exI [of _ 0]) (simp add: huffman_encode_def e_def [symmetric] encoder_bits_def low_bits_def Let_def)
  next
    case False
    with b pad_bits [of "he_bit_count e" "he_bit_buffer e"] show ?thesis
      by (intro exI [of _ "8 - he_bit_count e"])
        (simp add: huffman_encode_def e_def [symmetric] encoder_bits_def Let_def)
  qed
qed

section \<open>What the decoder accepts\<close>

abbreviation str_bits :: "string \<Rightarrow> bool list" where
  "str_bits s \<equiv> concat (map (\<lambda>c. sym_code (chcode c)) s)"

text \<open>The bits read so far are the codes of the output and the walk to the current node.\<close>

definition decoder_inv :: "bool list \<Rightarrow> huff_state \<Rightarrow> bool" where
  "decoder_inv read s \<longleftrightarrow>
     (\<exists>p. read = str_bits (hs_out s) @ p \<and> huff_walk huffman_tree 0 p = Some (hs_cur s) \<and>
          hs_pending_bits s = length p \<and> (hs_pending_all_ones s \<longleftrightarrow> list_all (\<lambda>b. b) p))"

lemma huff_bit_sound:
  assumes "decoder_inv read s" and "huff_bit huffman_tree b s = Some s'"
  shows "decoder_inv (read @ [b]) s'"
proof -
  obtain p where p: "read = str_bits (hs_out s) @ p" "huff_walk huffman_tree 0 p = Some (hs_cur s)"
    "hs_pending_bits s = length p" "hs_pending_all_ones s \<longleftrightarrow> list_all (\<lambda>b. b) p"
    using assms(1) by (auto simp: decoder_inv_def)
  define n where "n = nat (hn_child huffman_tree (hs_cur s) b)"
  have c: "hn_child huffman_tree (hs_cur s) b \<ge> 0"
    using assms(2) by (auto simp: huff_bit_def Let_def split: if_splits)
  then have w: "huff_walk huffman_tree 0 (p @ [b]) = Some n" using p(2) by (simp add: huff_walk_append n_def)
  show ?thesis
  proof (cases "hn_symbol (huffman_tree ! n) \<ge> 0")
    case True
    then have sym: "sym_at huffman_tree (p @ [b]) = Some (hn_symbol (huffman_tree ! n))" using w by (simp add: sym_at_def)
    then obtain r where r: "r < 256" "p @ [b] = sym_code r" using huffman_tree_spec(4) [of "p @ [b]"] by auto
    with sym huffman_tree_spec(3) [OF r(1)] have "hn_symbol (huffman_tree ! n) = int r" by simp
    moreover from r(1) have "chcode (char_of r) = r" by (simp add: chcode_def)
    ultimately show ?thesis
      using assms(2) c p(1) r True by (auto simp: huff_bit_def Let_def decoder_inv_def n_def)
  next
    case False
    with assms(2) c p w show ?thesis
      by (auto simp: huff_bit_def Let_def decoder_inv_def n_def intro!: exI [of _ "p @ [b]"] split: if_splits)
  qed
qed

lemma huff_bits_sound: "huff_bits huffman_tree bs s = Some s' \<Longrightarrow> decoder_inv read s \<Longrightarrow> decoder_inv (read @ bs) s'"
proof (induction bs arbitrary: s read)
  case (Cons b bs)
  then obtain t where t: "huff_bit huffman_tree b s = Some t" "huff_bits huffman_tree bs t = Some s'"
    by (auto split: bind_splits)
  from Cons.IH [OF t(2) huff_bit_sound [OF Cons.prems(2) t(1)]] show ?case by simp
qed simp

lemma huffman_decode_complete:
  assumes "k < 8" and "concat (map byte_bits d) = str_bits s @ replicate k True"
  shows "huffman_decode huffman_tree d = Some s"
proof -
  obtain n where "huff_bits huffman_tree (replicate k True) (huff_start\<lparr>hs_out := s\<rparr>) =
      Some (huff_start\<lparr>hs_cur := n, hs_pending_bits := k, hs_out := s\<rparr>)"
    using huff_bits_padding [OF assms(1)] by blast
  with assms show ?thesis
    using huff_bits_codes [of huff_start s "replicate k True"] by (simp add: huffman_decode_def huff_start_def)
qed

lemma huffman_decode_sound:
  assumes "huffman_decode huffman_tree d = Some s"
  shows "\<exists>k < 8. concat (map byte_bits d) = str_bits s @ replicate k True"
proof -
  obtain t where t: "huff_bits huffman_tree (concat (map byte_bits d)) huff_start = Some t" "hs_pending_bits t < 8"
    "hs_pending_bits t = 0 \<or> hs_pending_all_ones t" "s = hs_out t"
    using assms by (auto simp: huffman_decode_def split: option.splits if_splits)
  have "decoder_inv [] huff_start" by (simp add: decoder_inv_def huff_start_def)
  from huff_bits_sound [OF t(1) this] obtain p where p: "concat (map byte_bits d) = str_bits s @ p"
    "hs_pending_bits t = length p" "hs_pending_all_ones t \<longleftrightarrow> list_all (\<lambda>b. b) p"
    by (auto simp: decoder_inv_def t(4))
  have "p = replicate (length p) True"
    using p(2,3) t(3) by (auto simp: list_all_iff intro: replicate_eqI)
  with p(1,2) t(2) show ?thesis by metis
qed

section \<open>Properties\<close>

text \<open>
   Huffman coding round trip: decoding, through the trie built from the code table, what
  \<open>write_string\<close> encodes gives back every string.
\<close>

theorem huffman_round_trip: "huffman_decode huffman_tree (huffman_encode s) = Some s"
  using huffman_encode_bits [of s] huffman_decode_complete by blast

text \<open>
  C20.  What the Huffman decoder accepts, exactly: a byte string decodes to \<open>s\<close> if and only if its
  bits are the codes of the characters of \<open>s\<close> followed by fewer than eight one bits.  In
  particular a wrong code, too much padding or padding with a zero bit is an error.
\<close>

theorem huffman_decode_iff:
  "huffman_decode huffman_tree d = Some s \<longleftrightarrow>
   (\<exists>k < 8. concat (map byte_bits d) = concat (map (\<lambda>c. code_bits (huffman_table ! chcode c)) s) @ replicate k True)"
  using huffman_decode_sound huffman_decode_complete by blast

end
