(* ===== verification/Hpack.thy ===== *)
theory Hpack
  imports Huffman
begin

text \<open>
  \<open>src/src/http2/hpack.cpp\<close>: the header decoder with its dynamic table, and the encoder.  The
  \<open>bit_reader\<close> is the list of bytes not yet taken.  Integers accumulate in a 64-bit word.
\<close>

unbundle bit_operations_syntax

section \<open>Decoder\<close>

record header_field =
  hf_name :: string
  hf_value :: string

type_synonym header_list = "header_field list"

record hpack_decoder =
  max_dynamic_table_size :: nat
  dynamic_table_size :: nat
  dynamic_table :: "(string \<times> string) list"

definition new_hpack_decoder :: "nat \<Rightarrow> hpack_decoder" where
  "new_hpack_decoder n = \<lparr>max_dynamic_table_size = n, dynamic_table_size = 0, dynamic_table = []\<rparr>"

definition set_max_dynamic_table_size :: "nat \<Rightarrow> hpack_decoder \<Rightarrow> hpack_decoder" where
  "set_max_dynamic_table_size n d = d\<lparr>max_dynamic_table_size := n\<rparr>"

definition prefix_mask :: "nat \<Rightarrow> byte" where
  "prefix_mask prefix_bits = push_bit prefix_bits 1 - 1"

fun read_integer_loop :: "byte list \<Rightarrow> u64 \<Rightarrow> nat \<Rightarrow> (u64 \<times> byte list) option" where
  "read_integer_loop [] value m = None"
| "read_integer_loop (b # bs) value m =
     (let value' = value + push_bit m (ucast (b AND 0x7f)); m' = m + 7 in
      if b AND 0x80 = 0 then Some (value', bs)
      else if m' > 63 then None
      else read_integer_loop bs value' m')"

definition read_integer :: "byte \<Rightarrow> nat \<Rightarrow> byte list \<Rightarrow> (u64 \<times> byte list) option" where
  "read_integer first prefix_bits bs =
     (let mask = prefix_mask prefix_bits; value = ucast (first AND mask) in
      if value < (ucast mask :: u64) then Some (value, bs) else read_integer_loop bs value 0)"

definition read_string :: "byte list \<Rightarrow> (string \<times> byte list) option" where
  "read_string bs =
     (case bs of
        [] \<Rightarrow> None
      | first # bs \<Rightarrow>
          let is_huffman = (first AND 0x80 \<noteq> 0) in
          (case read_integer first 7 bs of
             None \<Rightarrow> None
           | Some (len, bs) \<Rightarrow>
               if unat len > length bs then None
               else let ulen = unat len in
                 if is_huffman
                 then (case huffman_decode huffman_tree (take ulen bs) of
                         None \<Rightarrow> None | Some s \<Rightarrow> Some (s, drop ulen bs))
                 else Some (string_of (take ulen bs), drop ulen bs)))"

definition lookup_indexed :: "hpack_decoder \<Rightarrow> nat \<Rightarrow> (string \<times> string) option" where
  "lookup_indexed d index =
     (if index = 0 then None
      else if index \<le> length static_table then Some (static_table ! (index - 1))
      else let dyn_index = index - length static_table - 1
           in if dyn_index \<ge> length (dynamic_table d) then None else Some (dynamic_table d ! dyn_index))"

definition entry_size :: "string \<times> string \<Rightarrow> nat" where
  "entry_size e = length (fst e) + length (snd e) + 32"

function evict_to_fit :: "hpack_decoder \<Rightarrow> hpack_decoder" where
  "evict_to_fit d =
     (if dynamic_table_size d > max_dynamic_table_size d \<and> dynamic_table d \<noteq> []
      then evict_to_fit (d\<lparr>dynamic_table_size := dynamic_table_size d - entry_size (last (dynamic_table d)),
                          dynamic_table := butlast (dynamic_table d)\<rparr>)
      else d)"
  by pat_completeness auto
termination by (relation "measure (\<lambda>d. length (dynamic_table d))") auto

declare evict_to_fit.simps [simp del]

definition add_to_dynamic_table :: "string \<Rightarrow> string \<Rightarrow> hpack_decoder \<Rightarrow> hpack_decoder" where
  "add_to_dynamic_table name value d =
     evict_to_fit (d\<lparr>dynamic_table := (name, value) # dynamic_table d,
                     dynamic_table_size := dynamic_table_size d + entry_size (name, value)\<rparr>)"

definition read_size_update :: "byte \<Rightarrow> byte list \<Rightarrow> hpack_decoder \<Rightarrow> (hpack_decoder \<times> byte list) option" where
  "read_size_update first bs d =
     (case read_integer first 5 bs of
        None \<Rightarrow> None
      | Some (new_size, bs) \<Rightarrow>
          if unat new_size > max_dynamic_table_size d then None
          else Some (evict_to_fit (d\<lparr>max_dynamic_table_size := unat new_size\<rparr>), bs))"

text \<open>A literal field: an index for the name, or a name; then a value.\<close>

definition read_literal :: "byte \<Rightarrow> nat \<Rightarrow> byte list \<Rightarrow> hpack_decoder \<Rightarrow> (string \<times> string \<times> byte list) option" where
  "read_literal first name_index_prefix_bits bs d =
     (case read_integer first name_index_prefix_bits bs of
        None \<Rightarrow> None
      | Some (name_index, bs) \<Rightarrow>
          (case (if name_index = 0 then read_string bs
                 else map_option (\<lambda>e. (fst e, bs)) (lookup_indexed d (unat name_index))) of
             None \<Rightarrow> None
           | Some (name, bs) \<Rightarrow>
               (case read_string bs of None \<Rightarrow> None | Some (value, bs) \<Rightarrow> Some (name, value, bs))))"

text \<open>One round of the loop of \<open>decode\<close>: the new state, the fields emitted, the bytes left.\<close>

definition decode_field :: "byte \<Rightarrow> byte list \<Rightarrow> hpack_decoder \<Rightarrow> (hpack_decoder \<times> header_list \<times> byte list) option" where
  "decode_field first bs d =
     (if first AND 0x80 \<noteq> 0 then
        (case read_integer first 7 bs of
           None \<Rightarrow> None
         | Some (index, bs) \<Rightarrow>
             if index = 0 then None
             else (case lookup_indexed d (unat index) of
                     None \<Rightarrow> None
                   | Some (name, value) \<Rightarrow> Some (d, [\<lparr>hf_name = name, hf_value = value\<rparr>], bs)))
      else if first AND 0xc0 = 0x40 then
        (case read_literal first 6 bs d of
           None \<Rightarrow> None
         | Some (name, value, bs) \<Rightarrow>
             Some (add_to_dynamic_table name value d, [\<lparr>hf_name = name, hf_value = value\<rparr>], bs))
      else if first AND 0xe0 = 0x20 then
        (case read_size_update first bs d of None \<Rightarrow> None | Some (d, bs) \<Rightarrow> Some (d, [], bs))
      else
        (case read_literal first 4 bs d of
           None \<Rightarrow> None
         | Some (name, value, bs) \<Rightarrow> Some (d, [\<lparr>hf_name = name, hf_value = value\<rparr>], bs)))"

lemma read_integer_loop_length: "read_integer_loop bs v m = Some (w, rest) \<Longrightarrow> length rest < length bs"
  by (induction bs arbitrary: v m) (auto simp: Let_def intro: less_SucI split: if_splits)

lemma read_integer_length: "read_integer f p bs = Some (w, rest) \<Longrightarrow> length rest \<le> length bs"
  by (auto simp: read_integer_def Let_def dest: read_integer_loop_length split: if_splits)

lemma read_string_length: "read_string bs = Some (s, rest) \<Longrightarrow> length rest < length bs"
  by (fastforce simp: read_string_def Let_def dest: read_integer_length split: list.splits option.splits if_splits)

lemma read_literal_length: "read_literal f p bs d = Some (n, v, rest) \<Longrightarrow> length rest \<le> length bs"
  by (fastforce simp: read_literal_def dest: read_integer_length read_string_length split: option.splits if_splits)

lemma decode_field_length: "decode_field f bs d = Some (d', hs, rest) \<Longrightarrow> length rest \<le> length bs"
  by (auto simp: decode_field_def read_size_update_def dest: read_integer_length read_literal_length
      split: option.splits if_splits)

function hpack_decode :: "byte list \<Rightarrow> hpack_decoder \<Rightarrow> header_list \<Rightarrow> bool \<times> hpack_decoder \<times> header_list" where
  "hpack_decode [] d out = (True, d, out)"
| "hpack_decode (first # bs) d out =
     (case decode_field first bs d of
        None \<Rightarrow> (False, d, out)
      | Some (d', hs, rest) \<Rightarrow> hpack_decode rest d' (out @ hs))"
  by pat_completeness auto
termination by (relation "measure (\<lambda>(bs, _, _). length bs)") (auto dest!: decode_field_length)

section \<open>Encoder\<close>

fun write_integer_loop :: "nat \<Rightarrow> byte list" where
  "write_integer_loop value =
     (if value \<ge> 128 then (of_nat (value mod 128) OR 0x80) # write_integer_loop (value div 128)
      else [of_nat value])"

declare write_integer_loop.simps [simp del]

definition write_integer :: "nat \<Rightarrow> nat \<Rightarrow> byte \<Rightarrow> byte list" where
  "write_integer value prefix_bits prefix_pattern =
     (let max_prefix = prefix_mask prefix_bits in
      if value < unat max_prefix then [prefix_pattern OR of_nat value]
      else (prefix_pattern OR max_prefix) # write_integer_loop (value - unat max_prefix))"

definition write_string :: "string \<Rightarrow> byte list" where
  "write_string value =
     (let encoded = huffman_encode value in write_integer (length encoded) 7 0x80 @ encoded)"

definition hpack_encode :: "header_list \<Rightarrow> byte list" where
  "hpack_encode headers = concat (map (\<lambda>h. 0x00 # write_string (hf_name h) @ write_string (hf_value h)) headers)"

section \<open>Integers\<close>

lemma septet:
  fixes k :: nat
  assumes "k < 128"
  shows "(of_nat k OR 0x80 :: byte) AND 0x7f = of_nat k" "(of_nat k OR 0x80 :: byte) AND 0x80 \<noteq> 0"
    "(of_nat k :: byte) AND 0x7f = of_nat k" "(of_nat k :: byte) AND 0x80 = 0"
    "ucast (of_nat k :: byte) = (of_nat k :: u64)"
proof -
  have b: "bit (of_nat k :: byte) i \<longleftrightarrow> bit k i \<and> i < 7" for i
  proof -
    have "take_bit 7 k = k" using assms by (simp add: take_bit_nat_eq_self_iff)
    then have "bit k i \<longleftrightarrow> bit (take_bit 7 k) i" by simp
    then show ?thesis by (auto simp: bit_simps)
  qed
  have x: "bit (0x80 :: int) i \<longleftrightarrow> i = 7" for i
    using bit_push_bit_iff [of 7 "1 :: int" i] by (auto simp: bit_simps push_bit_eq_mult)
  show "(of_nat k OR 0x80 :: byte) AND 0x7f = of_nat k" "(of_nat k :: byte) AND 0x7f = of_nat k"
    by (rule bit_word_eqI, auto simp: bit_and_iff bit_or_iff b bit_masks x bit_numeral_word_iff)+
  have "bit ((of_nat k OR 0x80 :: byte) AND 0x80) 7" by (simp add: bit_and_iff bit_or_iff x bit_numeral_word_iff)
  then show "(of_nat k OR 0x80 :: byte) AND 0x80 \<noteq> 0" by auto
  show "(of_nat k :: byte) AND 0x80 = 0" by (rule bit_word_eqI) (auto simp: bit_and_iff b x bit_numeral_word_iff)
  show "ucast (of_nat k :: byte) = (of_nat k :: u64)"
    using assms by (simp add: unsigned_of_nat take_bit_nat_eq_self)
qed

lemma read_write_integer_loop:
  "m \<le> 63 \<Longrightarrow> v * 2 ^ m < 2 ^ 64 \<Longrightarrow>
   read_integer_loop (write_integer_loop v @ rest) acc m = Some (acc + of_nat (v * 2 ^ m), rest)"
proof (induction v arbitrary: m acc rule: write_integer_loop.induct)
  case (1 v)
  show ?case
  proof (cases "128 \<le> v")
    case False
    then show ?thesis
      by (subst write_integer_loop.simps) (simp add: septet push_bit_of_nat [symmetric] push_bit_eq_mult Let_def)
  next
    case True
    then have "2 ^ (m + 7) \<le> v * 2 ^ m" by (simp add: power_add mult.commute)
    then have "(2 :: nat) ^ (m + 7) < 2 ^ 64" using "1.prems"(2) by simp
    then have m: "m + 7 \<le> 63" using power_strict_increasing_iff [of "2 :: nat" "m + 7" 64] by simp
    have sum: "(v mod 128) * 2 ^ m + (v div 128) * 2 ^ (m + 7) = v * 2 ^ m"
    proof -
      have "a * 2 ^ m + b * 2 ^ (m + 7) = (a + 128 * b) * 2 ^ m" for a b :: nat
        by (simp add: algebra_simps power_add)
      from this [of "v mod 128" "v div 128"] show ?thesis by (simp only: mod_mult_div_eq)
    qed
    then have "(v div 128) * 2 ^ (m + 7) < 2 ^ 64" using "1.prems"(2) by linarith
    from "1.IH" [OF True m this] have
      "read_integer_loop (write_integer_loop (v div 128) @ rest) (acc + of_nat ((v mod 128) * 2 ^ m)) (m + 7) =
        Some (acc + of_nat (v * 2 ^ m), rest)"
      by (simp add: sum [symmetric] add.assoc)
    with True m show ?thesis
      by (subst write_integer_loop.simps) (simp add: septet push_bit_eq_mult Let_def)
  qed
qed


lemma prefix_mask_values:
  "prefix_mask 4 = 15" "prefix_mask 5 = 31" "prefix_mask 6 = 63" "prefix_mask 7 = 127"
  by (simp_all add: prefix_mask_def)

lemma prefix_mask_mask: "prefix_mask p = mask p"
  by (simp add: prefix_mask_def mask_eq_exp_minus_1 push_bit_eq_mult)

lemma unat_prefix_mask: "p \<le> 8 \<Longrightarrow> unat (prefix_mask p) = 2 ^ p - 1"
proof -
  assume "p \<le> 8"
  then consider "p = 0" | "p = 1" | "p = 2" | "p = 3" | "p = 4" | "p = 5" | "p = 6" | "p = 7" | "p = 8" by linarith
  then show ?thesis by cases (simp_all add: prefix_mask_def)
qed

lemma unat_ucast_byte: "unat (ucast (b :: byte) :: u64) = unat b"
proof -
  have "unat b < 2 ^ 64" by (rule less_trans [OF unat_byte_less]) simp
  then have "unat (of_nat (unat b) :: u64) = unat b" by (simp add: unat_of_nat del: of_nat_unat)
  then show ?thesis by simp
qed

lemma read_write_integer:
  assumes "p \<le> 8" and "v < 2 ^ 64" and "pattern AND prefix_mask p = 0"
  shows "\<exists>first bs. write_integer v p pattern = first # bs \<and> read_integer first p (bs @ rest) = Some (of_nat v, rest)"
proof (cases "v < unat (prefix_mask p)")
  case True
  then have v: "v < 2 ^ p" "v < 256"
    using assms(1) power_increasing [of p 8 "2 :: nat"] by (auto simp: unat_prefix_mask)
  then have "take_bit p v = v" by (simp add: take_bit_nat_eq_self_iff)
  then have "(of_nat v :: byte) AND prefix_mask p = of_nat v"
    by (simp add: prefix_mask_mask take_bit_of_nat flip: take_bit_eq_mask)
  then have "(pattern OR of_nat v) AND prefix_mask p = of_nat v"
    using assms(3) by (simp add: bit.conj_disj_distrib2)
  moreover have "ucast (of_nat v :: byte) = (of_nat v :: u64)" using v(2) by (simp add: unsigned_of_nat take_bit_nat_eq_self)
  moreover have "(of_nat v :: u64) < ucast (prefix_mask p)"
    using True assms(2) by (simp add: word_less_nat_alt unat_of_nat unat_ucast_byte)
  ultimately show ?thesis using True by (simp add: write_integer_def read_integer_def Let_def)
next
  case False
  have "(pattern OR prefix_mask p) AND prefix_mask p = prefix_mask p"
    using assms(3) by (simp add: bit.conj_disj_distrib2)
  moreover have "(ucast (prefix_mask p) :: u64) + of_nat (v - unat (prefix_mask p)) = of_nat v"
  proof -
    have "(ucast (prefix_mask p) :: u64) = of_nat (unat (prefix_mask p))" by (simp only: of_nat_unat)
    then show ?thesis using False by (simp only: of_nat_add [symmetric]) simp
  qed
  moreover have "(v - unat (prefix_mask p)) * 2 ^ 0 < 2 ^ 64" using assms(2) by simp
  ultimately show ?thesis
    using False read_write_integer_loop [of 0 "v - unat (prefix_mask p)" rest "ucast (prefix_mask p)"]
    by (simp add: write_integer_def read_integer_def Let_def)
qed

section \<open>Strings and header lists\<close>

lemma read_write_string:
  assumes "length (huffman_encode s) < 2 ^ 64"
  shows "read_string (write_string s @ rest) = Some (s, rest)"
proof -
  let ?e = "huffman_encode s"
  have "(0x80 :: byte) AND prefix_mask 7 = 0" by (simp add: prefix_mask_values)
  from read_write_integer [OF _ assms this, of "?e @ rest"] obtain first bs where
    w: "write_integer (length ?e) 7 0x80 = first # bs"
      "read_integer first 7 (bs @ ?e @ rest) = Some (of_nat (length ?e), ?e @ rest)" by auto
  have "(0x80 OR x) AND 0x80 = (0x80 :: byte)" for x by (rule bit_word_eqI) (auto simp: bit_simps)
  with w(1) have "first AND 0x80 \<noteq> 0" by (auto simp: write_integer_def Let_def split: if_splits)
  moreover have "unat (of_nat (length ?e) :: u64) = length ?e" using assms by (simp add: unat_of_nat)
  ultimately show ?thesis
    using w huffman_decode_complete huffman_encode_bits [of s]
    by (auto simp: read_string_def write_string_def Let_def)
qed


lemma decode_field_literal:
  assumes "length (huffman_encode (hf_name h)) < 2 ^ 64" and "length (huffman_encode (hf_value h)) < 2 ^ 64"
  shows "decode_field 0 (write_string (hf_name h) @ write_string (hf_value h) @ rest) d = Some (d, [h], rest)"
  using read_write_string [OF assms(1)] read_write_string [OF assms(2)]
  by (simp add: decode_field_def read_literal_def read_integer_def prefix_mask_values)

lemma hpack_decode_encode:
  "list_all (\<lambda>h. length (huffman_encode (hf_name h)) < 2 ^ 64 \<and> length (huffman_encode (hf_value h)) < 2 ^ 64) hs \<Longrightarrow>
   hpack_decode (hpack_encode hs @ rest) d out = hpack_decode rest d (out @ hs)"
  by (induction hs arbitrary: out) (simp_all add: hpack_encode_def decode_field_literal)

section \<open>The dynamic table\<close>

text \<open>The recorded size is the size of the entries and stays within the bound.\<close>

definition table_inv :: "hpack_decoder \<Rightarrow> bool" where
  "table_inv d \<longleftrightarrow> dynamic_table_size d = sum_list (map entry_size (dynamic_table d)) \<and>
     dynamic_table_size d \<le> max_dynamic_table_size d"

lemma sum_butlast: "xs \<noteq> [] \<Longrightarrow> sum_list (map f xs) = sum_list (map f (butlast xs)) + (f (last xs) :: nat)"
  by (induction xs) auto

lemma evict_to_fit_inv:
  "dynamic_table_size d = sum_list (map entry_size (dynamic_table d)) \<Longrightarrow>
   table_inv (evict_to_fit d) \<and> max_dynamic_table_size (evict_to_fit d) = max_dynamic_table_size d \<and>
   prefix (dynamic_table (evict_to_fit d)) (dynamic_table d)"
proof (induction d rule: evict_to_fit.induct)
  case (1 d)
  show ?case
  proof (cases "dynamic_table_size d > max_dynamic_table_size d \<and> dynamic_table d \<noteq> []")
    case True
    let ?d = "d\<lparr>dynamic_table_size := dynamic_table_size d - entry_size (last (dynamic_table d)),
      dynamic_table := butlast (dynamic_table d)\<rparr>"
    have "dynamic_table_size ?d = sum_list (map entry_size (dynamic_table ?d))"
      using 1(2) True sum_butlast [of "dynamic_table d" entry_size] by simp
    from "1.IH" [OF True this] True show ?thesis
      by (subst (1 2 3) evict_to_fit.simps) (auto intro: prefix_order.trans prefixeq_butlast)
  next
    case False
    with 1(2) show ?thesis by (subst (1 2 3) evict_to_fit.simps) (auto simp: table_inv_def)
  qed
qed

lemma evict_to_fit_fits: "dynamic_table_size d \<le> max_dynamic_table_size d \<Longrightarrow> evict_to_fit d = d"
  by (subst evict_to_fit.simps) simp

lemma add_to_dynamic_table_inv:
  assumes "table_inv d"
  shows "table_inv (add_to_dynamic_table n v d)"
    and "max_dynamic_table_size (add_to_dynamic_table n v d) = max_dynamic_table_size d"
    and "prefix (dynamic_table (add_to_dynamic_table n v d)) ((n, v) # dynamic_table d)"
  using evict_to_fit_inv [of "d\<lparr>dynamic_table := (n, v) # dynamic_table d,
      dynamic_table_size := dynamic_table_size d + entry_size (n, v)\<rparr>"] assms
  by (simp_all add: add_to_dynamic_table_def table_inv_def)

lemma decode_field_inv:
  assumes "table_inv d" and "decode_field f bs d = Some (d', hs, rest)"
  shows "table_inv d' \<and> max_dynamic_table_size d' \<le> max_dynamic_table_size d"
proof -
  have "table_inv (evict_to_fit (d\<lparr>max_dynamic_table_size := n\<rparr>)) \<and>
      max_dynamic_table_size (evict_to_fit (d\<lparr>max_dynamic_table_size := n\<rparr>)) = n" for n
    using evict_to_fit_inv [of "d\<lparr>max_dynamic_table_size := n\<rparr>"] assms(1) by (simp add: table_inv_def)
  with assms add_to_dynamic_table_inv show ?thesis
    by (auto simp: decode_field_def read_size_update_def split: if_splits option.splits)
qed

lemma hpack_decode_inv:
  "hpack_decode bs d out = (ok, d', out') \<Longrightarrow> table_inv d \<Longrightarrow>
   table_inv d' \<and> max_dynamic_table_size d' \<le> max_dynamic_table_size d"
proof (induction bs d out rule: hpack_decode.induct)
  case (2 f bs d out)
  show ?case
  proof (cases "decode_field f bs d")
    case (Some r)
    obtain d1 hs rest where r: "r = (d1, hs, rest)" by (cases r)
    from decode_field_inv [OF "2.prems"(2)] Some r have i: "table_inv d1" "max_dynamic_table_size d1 \<le> max_dynamic_table_size d"
      by auto
    from "2.IH" [of "(d1, hs, rest)" d1 "(hs, rest)" hs rest] Some r "2.prems" i show ?thesis by fastforce
  qed (use 2 in auto)
qed auto

lemma hpack_blocks_inv:
  "table_inv d \<Longrightarrow> table_inv (foldl (\<lambda>d bs. fst (snd (hpack_decode bs d []))) d blocks) \<and>
     max_dynamic_table_size (foldl (\<lambda>d bs. fst (snd (hpack_decode bs d []))) d blocks) \<le> max_dynamic_table_size d"
proof (induction blocks arbitrary: d)
  case (Cons bs blocks)
  obtain ok d' out' where e: "hpack_decode bs d [] = (ok, d', out')" by (cases "hpack_decode bs d []")
  from hpack_decode_inv [OF e Cons.prems] Cons.IH [of d'] show ?case by (auto simp: e)
qed simp

lemma table_inv_length: "table_inv d \<Longrightarrow> 32 * length (dynamic_table d) \<le> dynamic_table_size d"
proof -
  have "32 * length es \<le> sum_list (map entry_size es)" for es
    by (induction es) (auto simp: entry_size_def)
  then show "table_inv d \<Longrightarrow> ?thesis" by (simp add: table_inv_def)
qed

lemma huffman_encode_length: "8 * length (huffman_encode s) \<le> 30 * length s + 7"
proof -
  have "length (sym_code (chcode c)) \<le> 30" for c
  proof -
    obtain code n where e: "huffman_table ! chcode c = (code, n)" by fastforce
    have "chcode c < 257" using less_trans [of "chcode c" 256 257] by (simp add: chcode_def)
    from huffman_entry [OF this e] e show ?thesis by (simp add: code_bits_def)
  qed
  then have codes: "length (concat (map (\<lambda>c. sym_code (chcode c)) s)) \<le> 30 * length s"
    by (induction s) (auto simp: add_mono)
  have bytes: "length (concat (map byte_bits bs)) = 8 * length bs" for bs
    by (induction bs) (auto simp: byte_bits_def)
  obtain k where "k < 8" "concat (map byte_bits (huffman_encode s)) =
      concat (map (\<lambda>c. sym_code (chcode c)) s) @ replicate k True"
    using huffman_encode_bits by blast
  from arg_cong [OF this(2), of length] this(1) codes show ?thesis by (simp add: bytes)
qed

lemma huffman_encode_fits: "length s < 2 ^ 59 \<Longrightarrow> length (huffman_encode s) < 2 ^ 64"
  using huffman_encode_length [of s] by simp

section \<open>Properties\<close>

text \<open>
  C15.  HPACK round trip: decoding an encoded header list, in any state of the decoder, succeeds
  with the same fields in the same order and leaves the dynamic table as it was.
\<close>

theorem hpack_round_trip:
  assumes "list_all (\<lambda>h. length (hf_name h) < 2 ^ 59 \<and> length (hf_value h) < 2 ^ 59) hs"
  shows "hpack_decode (hpack_encode hs) d [] = (True, d, hs)"
proof -
  have "list_all (\<lambda>h. length (huffman_encode (hf_name h)) < 2 ^ 64 \<and> length (huffman_encode (hf_value h)) < 2 ^ 64) hs"
    using assms huffman_encode_fits unfolding list_all_iff by blast
  from hpack_decode_encode [OF this, of "[]" d "[]"] show ?thesis by simp
qed

theorem hpack_round_trip_witness:
  "hpack_decode (hpack_encode [\<lparr>hf_name = '':status'', hf_value = ''200''\<rparr>, \<lparr>hf_name = ''x'', hf_value = []\<rparr>])
     (new_hpack_decoder 4096) [] =
   (True, new_hpack_decoder 4096, [\<lparr>hf_name = '':status'', hf_value = ''200''\<rparr>, \<lparr>hf_name = ''x'', hf_value = []\<rparr>])"
  by (rule hpack_round_trip) simp

text \<open>
   HPACK integers: every 64-bit value written with a prefix of at most eight bits, whose
  pattern leaves the prefix clear, is read back, followed by anything.
\<close>

theorem hpack_integer_round_trip:
  assumes "p \<le> 8" and "v < 2 ^ 64" and "pattern AND prefix_mask p = 0"
  shows "\<exists>first bs. write_integer v p pattern = first # bs \<and> read_integer first p (bs @ rest) = Some (of_nat v, rest)"
  by (rule read_write_integer [OF assms])

theorem hpack_integer_round_trip_witness:
  "\<exists>first bs. write_integer (2 ^ 64 - 1) 5 0x20 = first # bs \<and>
     read_integer first 5 (bs @ [7]) = Some (of_nat (2 ^ 64 - 1), [7])"
  by (rule hpack_integer_round_trip) (simp_all add: prefix_mask_values)

text \<open>
  C12.  The dynamic table is bounded: whatever blocks of bytes a peer sends, valid or not, after any
  number of them the recorded size is the size of the entries, it is within the bound the
  decoder was made with, and so is 32 times the number of entries.
\<close>

theorem hpack_table_bounded:
  fixes blocks :: "byte list list" and n :: nat
  defines "d \<equiv> foldl (\<lambda>d bs. fst (snd (hpack_decode bs d []))) (new_hpack_decoder n) blocks"
  shows "dynamic_table_size d = sum_list (map entry_size (dynamic_table d)) \<and> dynamic_table_size d \<le> n \<and>
    32 * length (dynamic_table d) \<le> n"
proof -
  have "table_inv (new_hpack_decoder n)" by (simp add: table_inv_def new_hpack_decoder_def)
  from hpack_blocks_inv [OF this, of blocks] have i: "table_inv d" "max_dynamic_table_size d \<le> n"
    by (simp_all add: d_def new_hpack_decoder_def)
  with table_inv_length [OF i(1)] show ?thesis by (auto simp: table_inv_def)
qed

text \<open>
   Dynamic indexing: an entry that fits beside the others becomes index 62 and moves every
  older entry up by one; an entry larger than the whole table empties it.
\<close>

theorem hpack_dynamic_indexing:
  assumes "table_inv d"
  shows "(dynamic_table_size d + entry_size (n, v) \<le> max_dynamic_table_size d \<longrightarrow>
      lookup_indexed (add_to_dynamic_table n v d) 62 = Some (n, v) \<and>
      (\<forall>i \<ge> 62. lookup_indexed (add_to_dynamic_table n v d) (i + 1) = lookup_indexed d i)) \<and>
    (max_dynamic_table_size d < entry_size (n, v) \<longrightarrow> dynamic_table (add_to_dynamic_table n v d) = [])"
proof (intro conjI impI)
  have len: "length static_table = 61" by (simp add: static_table_def)
  assume "dynamic_table_size d + entry_size (n, v) \<le> max_dynamic_table_size d"
  then have t: "dynamic_table (add_to_dynamic_table n v d) = (n, v) # dynamic_table d"
    by (simp add: add_to_dynamic_table_def evict_to_fit_fits)
  then show "lookup_indexed (add_to_dynamic_table n v d) 62 = Some (n, v)" by (simp add: lookup_indexed_def len)
  show "\<forall>i \<ge> 62. lookup_indexed (add_to_dynamic_table n v d) (i + 1) = lookup_indexed d i"
  proof (intro allI impI)
    fix i :: nat assume "62 \<le> i"
    then obtain k where "i = 62 + k" by (auto simp: le_iff_add)
    then show "lookup_indexed (add_to_dynamic_table n v d) (i + 1) = lookup_indexed d i"
      by (simp add: lookup_indexed_def len t)
  qed
next
  assume big: "max_dynamic_table_size d < entry_size (n, v)"
  show "dynamic_table (add_to_dynamic_table n v d) = []"
  proof (rule ccontr)
    assume "dynamic_table (add_to_dynamic_table n v d) \<noteq> []"
    then obtain es where "dynamic_table (add_to_dynamic_table n v d) = (n, v) # es"
      using add_to_dynamic_table_inv(3) [OF assms, of n v] by (auto simp: prefix_Cons)
    with add_to_dynamic_table_inv(1,2) [OF assms, of n v] big show False by (simp add: table_inv_def)
  qed
qed

theorem hpack_dynamic_indexing_witness:
  "lookup_indexed (add_to_dynamic_table ''a'' ''b'' (new_hpack_decoder 100)) 62 = Some (''a'', ''b'')"
  using hpack_dynamic_indexing [of "new_hpack_decoder 100" "''a''" "''b''"]
  by (simp add: table_inv_def new_hpack_decoder_def entry_size_def)


text \<open>
   A size update lowers the bound for good: after an update to zero, an update to any size
  above zero is refused, although it is within the bound the decoder was made with.
\<close>

theorem hpack_size_update_never_grows:
  "hpack_decode [0x20, 0x21] (new_hpack_decoder 4096) [] = (False, new_hpack_decoder 0, [])"
  by (simp add: decode_field_def read_size_update_def read_integer_def prefix_mask_values new_hpack_decoder_def
      evict_to_fit_fits)

end
