(* ===== verification/Route.thy ===== *)
theory Route
  imports Dictionary Http_Method
begin

text \<open>
  \<open>src/src/router/route.cpp\<close>: the path trie of the router.  A node is a value; a \<open>route_ptr\<close>
  obtained from \<open>child(path)\<close> is the list of edges that leads to it, and a registration through
  it rebuilds the nodes along those edges.  Targets and middlewares are opaque.  Matching is the
  code's recursion, with the state it leaves behind also when it fails.
\<close>

section \<open>Captures\<close>

type_synonym capture_map = "(string \<times> string) list"

text \<open>\<open>captures[key] = value\<close>.\<close>

fun capture_set :: "string \<Rightarrow> string \<Rightarrow> capture_map \<Rightarrow> capture_map" where
  "capture_set key value [] = [(key, value)]"
| "capture_set key value ((k, v) # items) =
     (if k = key then (k, value) # items else (k, v) # capture_set key value items)"

fun capture_at :: "capture_map \<Rightarrow> string \<Rightarrow> string option" where
  "capture_at [] key = None"
| "capture_at ((k, v) # items) key = (if k = key then Some v else capture_at items key)"

fun capture_count :: "capture_map \<Rightarrow> string \<Rightarrow> nat" where
  "capture_count [] key = 0"
| "capture_count ((k, v) # items) key = (if k = key then 1 else capture_count items key)"

interpretation captures: dictionary capture_at capture_set "(=)" "\<lambda>_. True"
proof
  fix m :: capture_map and k v k' :: string
  show "capture_at (capture_set k v m) k' = (if k = k' then Some v else capture_at m k')"
    by (induction k v m rule: capture_set.induct) auto
qed auto

lemma capture_count_at: "capture_count m k = (if capture_at m k = None then 0 else 1)"
  by (induction m k rule: capture_count.induct) auto

record route_state =
  rs_captures :: capture_map
  rs_depth :: nat

definition empty_route_state :: route_state where
  "empty_route_state = \<lparr>rs_captures = [], rs_depth = 0\<rparr>"

section \<open>Nodes\<close>

datatype route_kind = KRoot | KStatic | KParam | KWildcard

datatype ('t, 'm) route =
  Route (rt_kind: route_kind) (rt_name: string) (rt_predicate: "(string \<Rightarrow> bool) option")
    (rt_static: "('t, 'm) route list") (rt_params: "('t, 'm) route list") (rt_wildcard: "('t, 'm) route option")
    (rt_targets: "(http_method_id \<times> string \<times> 't) list") (rt_middlewares: "'m list")

definition new_route :: "route_kind \<Rightarrow> string \<Rightarrow> ('t, 'm) route" where
  "new_route kind name = Route kind name None [] [] None [] []"

fun set_static :: "('t, 'm) route list \<Rightarrow> ('t, 'm) route \<Rightarrow> ('t, 'm) route" where
  "set_static cs (Route k n p _ ps w ts ms) = Route k n p cs ps w ts ms"

fun set_params :: "('t, 'm) route list \<Rightarrow> ('t, 'm) route \<Rightarrow> ('t, 'm) route" where
  "set_params ps (Route k n p cs _ w ts ms) = Route k n p cs ps w ts ms"

fun set_wildcard :: "('t, 'm) route \<Rightarrow> ('t, 'm) route \<Rightarrow> ('t, 'm) route" where
  "set_wildcard w (Route k n p cs ps _ ts ms) = Route k n p cs ps (Some w) ts ms"

fun set_targets :: "(http_method_id \<times> string \<times> 't) list \<Rightarrow> ('t, 'm) route \<Rightarrow> ('t, 'm) route" where
  "set_targets ts (Route k n p cs ps w _ ms) = Route k n p cs ps w ts ms"

fun set_predicate :: "(string \<Rightarrow> bool) \<Rightarrow> ('t, 'm) route \<Rightarrow> ('t, 'm) route" where
  "set_predicate f (Route k n _ cs ps w ts ms) = Route k n (Some f) cs ps w ts ms"

fun set_middlewares :: "'m list \<Rightarrow> ('t, 'm) route \<Rightarrow> ('t, 'm) route" where
  "set_middlewares ms (Route k n p cs ps w ts _) = Route k n p cs ps w ts ms"

section \<open>Children\<close>

text \<open>\<open>std::lower_bound\<close> by name.\<close>

definition lower_bound :: "('t, 'm) route list \<Rightarrow> string \<Rightarrow> nat" where
  "lower_bound cs name = partition_point (\<lambda>i. rt_name (cs ! i) < name) 0 (length cs)"

definition find_static_child :: "('t, 'm) route \<Rightarrow> string \<Rightarrow> ('t, 'm) route option" where
  "find_static_child r name =
     (let cs = rt_static r; i = lower_bound cs name in
      if i < length cs \<and> rt_name (cs ! i) = name then Some (cs ! i) else None)"

text \<open>
  The three \<open>find_or_create\<close> operations, with what is then done to the child they return.
\<close>

definition find_or_create_static_child ::
  "string \<Rightarrow> (('t, 'm) route \<Rightarrow> ('t, 'm) route) \<Rightarrow> ('t, 'm) route \<Rightarrow> ('t, 'm) route" where
  "find_or_create_static_child name f r =
     (let cs = rt_static r; i = lower_bound cs name in
      if i < length cs \<and> rt_name (cs ! i) = name then set_static (cs[i := f (cs ! i)]) r
      else set_static (take i cs @ f (new_route KStatic name) # drop i cs) r)"

fun update_param :: "string \<Rightarrow> (('t, 'm) route \<Rightarrow> ('t, 'm) route) \<Rightarrow> ('t, 'm) route list \<Rightarrow> ('t, 'm) route list" where
  "update_param name f [] = [f (new_route KParam name)]"
| "update_param name f (p # ps) = (if rt_name p = name then f p # ps else p # update_param name f ps)"

definition find_or_create_param_child ::
  "string \<Rightarrow> (('t, 'm) route \<Rightarrow> ('t, 'm) route) \<Rightarrow> ('t, 'm) route \<Rightarrow> ('t, 'm) route" where
  "find_or_create_param_child name f r = set_params (update_param name f (rt_params r)) r"

definition find_or_create_wildcard_child ::
  "(('t, 'm) route \<Rightarrow> ('t, 'm) route) \<Rightarrow> ('t, 'm) route \<Rightarrow> ('t, 'm) route" where
  "find_or_create_wildcard_child f r =
     set_wildcard (f (case rt_wildcard r of Some w \<Rightarrow> w | None \<Rightarrow> new_route KWildcard ''*'')) r"

section \<open>\<open>child\<close>\<close>

datatype edge = EStatic string | EParam string | EWild

definition strip_slash :: "string \<Rightarrow> string" where
  "strip_slash path = (case path of c # cs \<Rightarrow> if c = CHR ''/'' then cs else path | [] \<Rightarrow> [])"

text \<open>The segment up to the next slash, and what follows the slash.\<close>

definition path_segment :: "string \<Rightarrow> string" where
  "path_segment path = (case find_char (CHR ''/'') path of None \<Rightarrow> path | Some i \<Rightarrow> take i path)"

definition path_rest :: "string \<Rightarrow> string" where
  "path_rest path = (case find_char (CHR ''/'') path of None \<Rightarrow> [] | Some i \<Rightarrow> drop (i + 1) path)"

lemma path_rest_shorter: "path \<noteq> [] \<Longrightarrow> length (path_rest path) < length path"
  by (auto simp: path_rest_def dest: find_char_less split: option.splits)

lemma strip_slash_length: "length (strip_slash p) \<le> length p"
  by (simp add: strip_slash_def split: list.splits)

lemma rest_shorter: "strip_slash p \<noteq> [] \<Longrightarrow> length (path_rest (strip_slash p)) < length p"
  using strip_slash_length [of p] path_rest_shorter [of "strip_slash p"] by simp

text \<open>The loop of \<open>child\<close>: the kind of each segment, up to a wildcard.\<close>

function child_edges_loop :: "string \<Rightarrow> edge list" where
  "child_edges_loop path =
     (if path = [] then []
      else let seg = path_segment path
      in if seg = [] \<or> seg = ''*'' then [EWild]
         else (if hd seg = CHR '':'' then EParam seg else EStatic seg) # child_edges_loop (path_rest path))"
  by pat_completeness auto
termination by (relation "measure length") (auto intro: path_rest_shorter)

declare child_edges_loop.simps [simp del]

definition child_edges :: "string \<Rightarrow> edge list" where
  "child_edges path = child_edges_loop (strip_slash path)"

fun at_edges :: "edge list \<Rightarrow> (('t, 'm) route \<Rightarrow> ('t, 'm) route) \<Rightarrow> ('t, 'm) route \<Rightarrow> ('t, 'm) route" where
  "at_edges [] f r = f r"
| "at_edges (EStatic s # es) f r = find_or_create_static_child s (at_edges es f) r"
| "at_edges (EParam s # es) f r = find_or_create_param_child s (at_edges es f) r"
| "at_edges (EWild # es) f r = find_or_create_wildcard_child (at_edges es f) r"

text \<open>\<open>child(path)\<close> followed by an operation on the node it returns.\<close>

definition child :: "string \<Rightarrow> (('t, 'm) route \<Rightarrow> ('t, 'm) route) \<Rightarrow> ('t, 'm) route \<Rightarrow> ('t, 'm) route" where
  "child path f r = at_edges (child_edges path) f r"

section \<open>Matching\<close>

function route_match :: "('t, 'm) route \<Rightarrow> route_state \<Rightarrow> string \<Rightarrow> ('t, 'm) route option \<times> route_state"
  and match_params ::
    "('t, 'm) route list \<Rightarrow> route_state \<Rightarrow> string \<Rightarrow> string \<Rightarrow> (('t, 'm) route \<times> route_state) option \<Rightarrow>
     (('t, 'm) route \<times> route_state) option"
where
  "route_match r state path0 =
     (let path = strip_slash path0 in
      if path = [] then (Some r, state)
      else
        let segment = path_segment path;
            rest = path_rest path;
            state = state\<lparr>rs_depth := rs_depth state + 1\<rparr>
        in case (case find_static_child r segment of
                   None \<Rightarrow> None
                 | Some c \<Rightarrow> (case route_match c state rest of
                               (Some matched, trial) \<Rightarrow> Some (matched, trial) | (None, _) \<Rightarrow> None)) of
             Some (matched, trial) \<Rightarrow> (Some matched, trial)
           | None \<Rightarrow>
               (case match_params (rt_params r) state segment rest None of
                  Some (best_match, best_state) \<Rightarrow> (Some best_match, best_state)
                | None \<Rightarrow>
                    (case rt_wildcard r of
                       Some w \<Rightarrow> (Some w, state\<lparr>rs_captures := capture_set (rt_name w) path (rs_captures state)\<rparr>)
                     | None \<Rightarrow> (None, state))))"
| "match_params [] state segment rest best = best"
| "match_params (p # ps) state segment rest best =
     (if (case rt_predicate p of Some f \<Rightarrow> \<not> f segment | None \<Rightarrow> False) then match_params ps state segment rest best
      else
        let trial = state\<lparr>rs_captures := capture_set (rt_name p) segment (rs_captures state)\<rparr> in
        case route_match p trial rest of
          (Some matched, trial) \<Rightarrow>
            match_params ps state segment rest
              (case best of
                 None \<Rightarrow> Some (matched, trial)
               | Some (_, best_state) \<Rightarrow> if rs_depth trial > rs_depth best_state then Some (matched, trial) else best)
        | (None, _) \<Rightarrow> match_params ps state segment rest best)"
  by pat_completeness auto

termination
  by (relation "measures [\<lambda>x. case x of Inl (_, _, p) \<Rightarrow> 2 * length p | Inr (_, _, _, rest, _) \<Rightarrow> 2 * length rest + 1,
    \<lambda>x. case x of Inl _ \<Rightarrow> 0 | Inr (ps, _) \<Rightarrow> length ps]") (use rest_shorter in fastforce)+

declare route_match.simps [simp del]

section \<open>Targets and registration\<close>

fun get_target_loop :: "(http_method_id \<times> string \<times> 't) list \<Rightarrow> http_method \<Rightarrow> 't option" where
  "get_target_loop [] m = None"
| "get_target_loop ((i, n, t) # es) m =
     (if i = m_id m \<and> (m_id m \<noteq> Custom \<or> n = m_name m) then Some t else get_target_loop es m)"

definition get_target :: "('t, 'm) route \<Rightarrow> http_method \<Rightarrow> 't option" where
  "get_target r m = get_target_loop (rt_targets r) m"

definition has_any_target :: "('t, 'm) route \<Rightarrow> bool" where
  "has_any_target r \<longleftrightarrow> rt_targets r \<noteq> []"

fun set_target_loop ::
  "http_method_id \<Rightarrow> string \<Rightarrow> 't \<Rightarrow> (http_method_id \<times> string \<times> 't) list \<Rightarrow> (http_method_id \<times> string \<times> 't) list" where
  "set_target_loop i n t [] = [(i, n, t)]"
| "set_target_loop i n t ((i', n', t') # es) =
     (if i' = i \<and> (i \<noteq> Custom \<or> n' = n) then (i', n', t) # es else (i', n', t') # set_target_loop i n t es)"

definition set_target :: "http_method_id \<Rightarrow> string \<Rightarrow> 't \<Rightarrow> ('t, 'm) route \<Rightarrow> ('t, 'm) route" where
  "set_target i n t r = set_targets (set_target_loop i n t (rt_targets r)) r"

definition any_methods :: "http_method list" where
  "any_methods = map http_method_of [''GET'', ''HEAD'', ''POST'', ''PUT'', ''DELETE'', ''PATCH'', ''OPTIONS'']"

definition route_any :: "'t \<Rightarrow> ('t, 'm) route \<Rightarrow> ('t, 'm) route" where
  "route_any t r = foldl (\<lambda>r m. set_target (m_id m) (m_name m) t r) r any_methods"

definition route_any_at :: "string \<Rightarrow> 't \<Rightarrow> ('t, 'm) route \<Rightarrow> ('t, 'm) route" where
  "route_any_at path t r = child path (route_any t) r"

definition route_method :: "http_method \<Rightarrow> 't \<Rightarrow> ('t, 'm) route \<Rightarrow> ('t, 'm) route" where
  "route_method m t r = set_target (m_id m) (m_name m) t r"

definition route_method_at :: "http_method \<Rightarrow> string \<Rightarrow> 't \<Rightarrow> ('t, 'm) route \<Rightarrow> ('t, 'm) route" where
  "route_method_at m path t r = child path (route_method m t) r"

definition route_param :: "string \<Rightarrow> (string \<Rightarrow> bool) \<Rightarrow> ('t, 'm) route \<Rightarrow> ('t, 'm) route" where
  "route_param name predicate r = child name (set_predicate predicate) r"

text \<open>\<open>middleware_stack::prepend\<close> and \<open>append\<close>, and the calls on a node.\<close>

definition stack_prepend :: "'m \<Rightarrow> 'm list \<Rightarrow> 'm list" where "stack_prepend m stack = m # stack"
definition stack_append :: "'m \<Rightarrow> 'm list \<Rightarrow> 'm list" where "stack_append m stack = stack @ [m]"

definition route_prepend :: "'m \<Rightarrow> ('t, 'm) route \<Rightarrow> ('t, 'm) route" where
  "route_prepend m r = set_middlewares (stack_prepend m (rt_middlewares r)) r"

definition route_append :: "'m \<Rightarrow> ('t, 'm) route \<Rightarrow> ('t, 'm) route" where
  "route_append m r = set_middlewares (stack_append m (rt_middlewares r)) r"

definition route_resolve :: "string \<Rightarrow> ('t, 'm) route \<Rightarrow> ('t, 'm) route" where
  "route_resolve path r = child path (\<lambda>n. n) r"

section \<open>Binary search\<close>

lemma lower_bound_spec:
  assumes "sorted (map rt_name cs)"
  shows "lower_bound cs name \<le> length cs"
    and "i < length cs \<Longrightarrow> rt_name (cs ! i) < name \<longleftrightarrow> i < lower_bound cs name"
proof -
  have "rt_name (cs ! i) < name" if "i \<le> j" "j < length cs" "rt_name (cs ! j) < name" for i j
    using sorted_nth_mono [OF assms, of i j] that by (simp add: le_less_trans)
  then have mono: "\<forall>i j. i \<le> j \<longrightarrow> j < length cs \<longrightarrow> rt_name (cs ! j) < name \<longrightarrow> rt_name (cs ! i) < name" by blast
  show "lower_bound cs name \<le> length cs" and "i < length cs \<Longrightarrow> rt_name (cs ! i) < name \<longleftrightarrow> i < lower_bound cs name"
    using partition_point_all [OF mono] by (simp_all add: lower_bound_def)
qed

section \<open>Well-formed tries\<close>

fun wf_route :: "('t, 'm) route \<Rightarrow> bool" where
  "wf_route (Route k n p cs ps w ts ms) \<longleftrightarrow>
     sorted_wrt (<) (map rt_name cs) \<and> (\<forall>c \<in> set cs. wf_route c) \<and> (\<forall>c \<in> set ps. wf_route c) \<and>
     (\<forall>c \<in> set_option w. wf_route c)"

lemma wf_routeD:
  assumes "wf_route r"
  shows "sorted_wrt (<) (map rt_name (rt_static r))" "c \<in> set (rt_static r) \<Longrightarrow> wf_route c"
    "c \<in> set (rt_params r) \<Longrightarrow> wf_route c" "rt_wildcard r = Some c \<Longrightarrow> wf_route c"
  using assms by (cases r; auto)+

lemma set_fields [simp]:
  "rt_name (set_static cs r) = rt_name r" "rt_static (set_static cs r) = cs" "rt_params (set_static cs r) = rt_params r"
  "rt_wildcard (set_static cs r) = rt_wildcard r" "rt_targets (set_static cs r) = rt_targets r"
  "rt_name (set_params cs r) = rt_name r" "rt_static (set_params cs r) = rt_static r" "rt_params (set_params cs r) = cs"
  "rt_name (set_wildcard w r) = rt_name r" "rt_static (set_wildcard w r) = rt_static r"
  "rt_name (set_targets ts r) = rt_name r" "rt_targets (set_targets ts r) = ts" "rt_static (set_targets ts r) = rt_static r"
  "rt_name (set_predicate f r) = rt_name r" "rt_name (set_middlewares ms r) = rt_name r"
  by (cases r; simp)+

lemma wf_set [simp]:
  "wf_route (set_static cs r) \<longleftrightarrow> sorted_wrt (<) (map rt_name cs) \<and> (\<forall>c \<in> set cs. wf_route c) \<and>
     (\<forall>c \<in> set (rt_params r). wf_route c) \<and> (\<forall>c \<in> set_option (rt_wildcard r). wf_route c)"
  "wf_route (set_params ps r) \<longleftrightarrow> sorted_wrt (<) (map rt_name (rt_static r)) \<and> (\<forall>c \<in> set (rt_static r). wf_route c) \<and>
     (\<forall>c \<in> set ps. wf_route c) \<and> (\<forall>c \<in> set_option (rt_wildcard r). wf_route c)"
  "wf_route (set_wildcard w r) \<longleftrightarrow> sorted_wrt (<) (map rt_name (rt_static r)) \<and> (\<forall>c \<in> set (rt_static r). wf_route c) \<and>
     (\<forall>c \<in> set (rt_params r). wf_route c) \<and> wf_route w"
  "wf_route (set_targets ts r) = wf_route r" "wf_route (set_predicate f r) = wf_route r"
  "wf_route (set_middlewares ms r) = wf_route r" "wf_route (new_route k n)"
  by (cases r; simp add: new_route_def)+

text \<open>On a well-formed node the binary search finds what a linear one does.\<close>

lemma find_static_child_linear:
  assumes "sorted_wrt (<) (map rt_name (rt_static r))"
  shows "find_static_child r name = find (\<lambda>c. rt_name c = name) (rt_static r)"
proof -
  let ?cs = "rt_static r" and ?i = "lower_bound (rt_static r) name"
  have s: "sorted (map rt_name ?cs)" using assms by (simp add: strict_sorted_iff)
  note lb = lower_bound_spec [OF s, where name = name]
  have uniq: "j = ?i" if "j < length ?cs" "rt_name (?cs ! j) = name" for j
  proof -
    have ge: "?i \<le> j" using lb(2) [OF that(1)] that(2) by auto
    have "\<not> ?i < j"
    proof
      assume "?i < j"
      then have "rt_name (?cs ! ?i) < name"
        using sorted_wrt_nth_less [OF assms, of ?i j] that by simp
      with lb(2) [of ?i] \<open>?i < j\<close> that(1) show False by simp
    qed
    with ge show ?thesis by simp
  qed
  show ?thesis
  proof (cases "find (\<lambda>c. rt_name c = name) ?cs")
    case None
    then have "rt_name (?cs ! ?i) \<noteq> name" if "?i < length ?cs"
      using that by (auto simp: find_None_iff)
    with None show ?thesis by (simp add: find_static_child_def Let_def)
  next
    case (Some c)
    then obtain j where j: "j < length ?cs" "rt_name (?cs ! j) = name" "c = ?cs ! j"
      by (auto simp: find_Some_iff)
    with uniq have "j = ?i" by blast
    with j Some show ?thesis by (simp add: find_static_child_def Let_def)
  qed
qed

text \<open>
  The static children around a name: those before it, the child of that name if there is one,
  and those after it; \<open>find_or_create_static_child\<close> puts the child it makes or changes in between.
\<close>

lemma find_or_create_static_split:
  assumes sorted: "sorted_wrt (<) (map rt_name (rt_static r))"
  shows "\<exists>xs old ys. rt_static r = xs @ (case old of None \<Rightarrow> [] | Some c \<Rightarrow> [c]) @ ys \<and>
    (\<forall>x \<in> set xs. rt_name x < name) \<and> (\<forall>y \<in> set ys. name < rt_name y) \<and> (\<forall>c. old = Some c \<longrightarrow> rt_name c = name) \<and>
    find_or_create_static_child name f r =
      set_static (xs @ f (case old of None \<Rightarrow> new_route KStatic name | Some c \<Rightarrow> c) # ys) r"
proof -
  let ?cs = "rt_static r" and ?i = "lower_bound (rt_static r) name"
  note lb = lower_bound_spec [OF strict_sorted_imp_sorted [OF sorted], where name = name]
  have before: "\<forall>x \<in> set (take ?i ?cs). rt_name x < name"
    using lb by (auto simp: in_set_conv_nth)
  have less: "rt_name (?cs ! i) < rt_name (?cs ! j)" if "i < j" "j < length ?cs" for i j
    using sorted_wrt_nth_less [OF sorted that(1)] that by simp
  have geq: "name \<le> rt_name (?cs ! j)" if "?i \<le> j" "j < length ?cs" for j
    using lb(2) [OF that(2)] that(1) by simp
  show ?thesis
  proof (cases "?i < length ?cs \<and> rt_name (?cs ! ?i) = name")
    case True
    have "\<forall>y \<in> set (drop (Suc ?i) ?cs). name < rt_name y"
      using True less [of ?i] by (auto simp: in_set_conv_nth)
    moreover have "?cs = take ?i ?cs @ [?cs ! ?i] @ drop (Suc ?i) ?cs" using True by (simp add: id_take_nth_drop)
    moreover have "find_or_create_static_child name f r = set_static (take ?i ?cs @ f (?cs ! ?i) # drop (Suc ?i) ?cs) r"
      using True by (simp add: find_or_create_static_child_def Let_def upd_conv_take_nth_drop)
    ultimately show ?thesis
      using before True by (intro exI [of _ "take ?i ?cs"] exI [of _ "Some (?cs ! ?i)"] exI [of _ "drop (Suc ?i) ?cs"]) simp
  next
    case False
    have "name < rt_name (?cs ! j)" if "?i \<le> j" "j < length ?cs" for j
      using False geq [of ?i] geq [OF that] less [of ?i j] that by (cases "j = ?i") auto
    then have "\<forall>y \<in> set (drop ?i ?cs). name < rt_name y" by (auto simp: in_set_conv_nth)
    moreover have "find_or_create_static_child name f r = set_static (take ?i ?cs @ f (new_route KStatic name) # drop ?i ?cs) r"
      using False by (auto simp: find_or_create_static_child_def Let_def)
    ultimately show ?thesis
      using before by (intro exI [of _ "take ?i ?cs"] exI [of _ None] exI [of _ "drop ?i ?cs"]) simp
  qed
qed

definition keeps_route :: "(('t, 'm) route \<Rightarrow> ('t, 'm) route) \<Rightarrow> bool" where
  "keeps_route f \<longleftrightarrow> (\<forall>r. wf_route r \<longrightarrow> wf_route (f r)) \<and> (\<forall>r. rt_name (f r) = rt_name r)"

lemma rt_name_new [simp]: "rt_name (new_route k n) = n"
  by (simp add: new_route_def)

lemma find_or_create_static_wf:
  assumes "wf_route r" and "keeps_route f"
  shows "wf_route (find_or_create_static_child name f r)"
proof -
  obtain xs old ys where s: "rt_static r = xs @ (case old of None \<Rightarrow> [] | Some c \<Rightarrow> [c]) @ ys"
    "\<forall>x \<in> set xs. rt_name x < name" "\<forall>y \<in> set ys. name < rt_name y" "\<forall>c. old = Some c \<longrightarrow> rt_name c = name"
    "find_or_create_static_child name f r =
      set_static (xs @ f (case old of None \<Rightarrow> new_route KStatic name | Some c \<Rightarrow> c) # ys) r"
    using find_or_create_static_split [OF wf_routeD(1) [OF assms(1)], of name f] by (elim exE conjE) (rule that)
  let ?c = "f (case old of None \<Rightarrow> new_route KStatic name | Some c \<Rightarrow> c)"
  have "rt_name ?c = name" "wf_route ?c"
    using assms s(1,4) wf_routeD(2) [OF assms(1)] by (auto simp: keeps_route_def split: option.splits)
  with s wf_routeD [OF assms(1)] show ?thesis
    by (auto simp: sorted_wrt_append split: option.splits)
qed

lemma find_or_create_static_find:
  assumes "wf_route r" and "keeps_route f"
  shows "find_static_child (find_or_create_static_child name f r) s =
    (if s = name then Some (f (case find_static_child r name of None \<Rightarrow> new_route KStatic name | Some c \<Rightarrow> c))
     else find_static_child r s)"
proof -
  obtain xs old ys where s: "rt_static r = xs @ (case old of None \<Rightarrow> [] | Some c \<Rightarrow> [c]) @ ys"
    "\<forall>x \<in> set xs. rt_name x < name" "\<forall>y \<in> set ys. name < rt_name y" "\<forall>c. old = Some c \<longrightarrow> rt_name c = name"
    "find_or_create_static_child name f r =
      set_static (xs @ f (case old of None \<Rightarrow> new_route KStatic name | Some c \<Rightarrow> c) # ys) r"
    using find_or_create_static_split [OF wf_routeD(1) [OF assms(1)], of name f] by (elim exE conjE) (rule that)
  have nm: "rt_name (f (case old of None \<Rightarrow> new_route KStatic name | Some c \<Rightarrow> c)) = name"
    using assms(2) s(4) by (auto simp: keeps_route_def split: option.splits)
  have mid: "find (\<lambda>c. rt_name c = n) (xs @ c # ys) =
      (if n = name then Some c else find (\<lambda>c. rt_name c = n) (xs @ ys))" if "rt_name c = name" for n c
    using s(2) that by (induction xs) auto
  have none: "find (\<lambda>c. rt_name c = name) (xs @ ys) = None"
    using s(2,3) by (fastforce simp: find_None_iff)
  have "find_static_child r s = (if s = name then old else find (\<lambda>c. rt_name c = s) (xs @ ys))"
    using mid s(1,4) none by (auto simp: find_static_child_linear [OF wf_routeD(1) [OF assms(1)]] split: option.splits)
  moreover have "find_static_child (find_or_create_static_child name f r) s =
      find (\<lambda>c. rt_name c = s) (xs @ f (case old of None \<Rightarrow> new_route KStatic name | Some c \<Rightarrow> c) # ys)"
    by (subst find_static_child_linear [OF wf_routeD(1) [OF find_or_create_static_wf [OF assms]]]) (simp add: s(5))
  moreover have "find_static_child r name = old"
    using mid s(1,4) none by (auto simp: find_static_child_linear [OF wf_routeD(1) [OF assms(1)]] split: option.splits)
  ultimately show ?thesis using mid [OF nm] by simp
qed

lemma keeps_routeD:
  assumes "keeps_route f"
  shows "wf_route r \<Longrightarrow> wf_route (f r)" and "rt_name (f r) = rt_name r"
  using assms by (simp_all add: keeps_route_def)

lemma update_param_wf:
  assumes "\<forall>p \<in> set ps. wf_route p" and "keeps_route f"
  shows "\<forall>p \<in> set (update_param name f ps). wf_route p"
  using assms(1) by (induction ps) (simp_all add: keeps_routeD(1) [OF assms(2)])

lemma keeps_at_edges: "keeps_route f \<Longrightarrow> keeps_route (at_edges es f)"
proof (induction es)
  case (Cons e es)
  then have k: "keeps_route (at_edges es f)" by blast
  show ?case
    unfolding keeps_route_def
  proof (intro conjI allI impI)
    fix r :: "('a, 'b) route"
    assume wf: "wf_route r"
    show "wf_route (at_edges (e # es) f r)"
    proof (cases e)
      case EWild
      then show ?thesis
        using wf_routeD [OF wf]
        by (simp add: find_or_create_wildcard_child_def keeps_routeD(1) [OF k] split: option.splits)
    next
      case (EParam s)
      then show ?thesis
        using wf_routeD [OF wf] update_param_wf [OF _ k, of "rt_params r" s]
        by (simp add: find_or_create_param_child_def)
    qed (use find_or_create_static_wf [OF wf k] in simp)
  next
    fix r :: "('a, 'b) route"
    show "rt_name (at_edges (e # es) f r) = rt_name r"
      by (cases e) (simp_all add: find_or_create_wildcard_child_def find_or_create_param_child_def
          find_or_create_static_child_def Let_def)
  qed
qed (simp add: keeps_route_def)

lemma keeps_set_target: "keeps_route (set_target i n t)"
  by (simp add: keeps_route_def set_target_def)

lemma keeps_foldl: "(\<And>x. keeps_route (g x)) \<Longrightarrow> keeps_route (\<lambda>r. foldl (\<lambda>r x. g x r) r xs)"
  by (induction xs rule: rev_induct) (auto simp: keeps_route_def)

lemma keeps_registration [intro]:
  "keeps_route (route_method m t)" "keeps_route (route_any t)" "keeps_route (set_predicate p)"
  "keeps_route (route_prepend w)" "keeps_route (route_append w)"
proof -
  show "keeps_route (route_method m t)" using keeps_set_target by (simp add: route_method_def [abs_def])
  show "keeps_route (route_any t)"
    using keeps_foldl [of "\<lambda>m. set_target (m_id m) (m_name m) t", OF keeps_set_target]
    by (simp add: route_any_def [abs_def])
qed (simp_all add: keeps_route_def route_prepend_def route_append_def stack_prepend_def stack_append_def)

section \<open>Canonical paths\<close>

text \<open>Every segment is preceded by a slash.\<close>

definition join_path :: "string list \<Rightarrow> string" where
  "join_path segs = concat (map (\<lambda>s. CHR ''/'' # s) segs)"

definition plain_segment :: "string \<Rightarrow> bool" where
  "plain_segment s \<longleftrightarrow> s \<noteq> [] \<and> CHR ''/'' \<notin> set s"

lemma join_path_Cons: "join_path (s # segs) = CHR ''/'' # s @ join_path segs"
  by (simp add: join_path_def)

lemma strip_join_path: "strip_slash (join_path (s # segs)) = s @ join_path segs"
  by (simp add: join_path_Cons strip_slash_def)

lemma find_char_absent: "c \<notin> set s \<Longrightarrow> find_char c s = None"
  by (simp add: find_simps)

lemma path_segment_join: "plain_segment s \<Longrightarrow> path_segment (s @ join_path segs) = s"
  by (cases segs) (simp_all add: plain_segment_def path_segment_def join_path_def find_char_hit find_char_absent)

lemma strip_slash_plain: "plain_segment s \<Longrightarrow> strip_slash (s @ p) = s @ p"
  by (cases s) (auto simp: plain_segment_def strip_slash_def)

lemma path_rest_join: "plain_segment s \<Longrightarrow> path_rest (s @ join_path segs) = strip_slash (join_path segs)"
  by (cases segs) (simp_all add: plain_segment_def path_rest_def join_path_def strip_slash_def find_char_hit find_char_absent)

text \<open>A path is read after one leading slash, so only what is left then matters.\<close>

lemma strip_join_idem: "\<forall>s \<in> set segs. plain_segment s \<Longrightarrow> strip_slash (strip_slash (join_path segs)) = strip_slash (join_path segs)"
  by (cases segs) (simp_all add: strip_join_path strip_slash_plain, simp add: join_path_def strip_slash_def)

lemma route_match_strip: "strip_slash p = strip_slash q \<Longrightarrow> route_match r st p = route_match r st q"
  by (subst (1 2) route_match.simps) simp

lemma child_edges_join:
  assumes "\<forall>s \<in> set segs. plain_segment s"
  shows "child_edges (join_path segs) =
    (let (named, others) = (takeWhile (\<lambda>s. s \<noteq> ''*'') segs, dropWhile (\<lambda>s. s \<noteq> ''*'') segs)
     in map (\<lambda>s. if hd s = CHR '':'' then EParam s else EStatic s) named @ (if others = [] then [] else [EWild]))"
  using assms
proof (induction segs)
  case Nil
  then show ?case by (simp add: child_edges_def join_path_def strip_slash_def child_edges_loop.simps)
next
  case (Cons s segs)
  have s: "s \<noteq> []" "s @ join_path segs \<noteq> []" "path_segment (s @ join_path segs) = s"
    "path_rest (s @ join_path segs) = strip_slash (join_path segs)"
    using Cons.prems path_segment_join path_rest_join by (auto simp: plain_segment_def)
  then show ?case
    using Cons by (simp add: child_edges_def strip_join_path child_edges_loop.simps [of "s @ join_path segs"])
qed

lemma route_match_join:
  assumes "plain_segment s" "\<forall>s \<in> set segs. plain_segment s"
  shows "route_match r st (join_path (s # segs)) =
    (let state = st\<lparr>rs_depth := rs_depth st + 1\<rparr>
     in case (case find_static_child r s of
                None \<Rightarrow> None
              | Some c \<Rightarrow> (case route_match c state (join_path segs) of
                            (Some matched, trial) \<Rightarrow> Some (matched, trial) | (None, _) \<Rightarrow> None)) of
          Some (matched, trial) \<Rightarrow> (Some matched, trial)
        | None \<Rightarrow>
            (case match_params (rt_params r) state s (strip_slash (join_path segs)) None of
               Some (best_match, best_state) \<Rightarrow> (Some best_match, best_state)
             | None \<Rightarrow>
                 (case rt_wildcard r of
                    Some w \<Rightarrow> (Some w, state\<lparr>rs_captures :=
                      capture_set (rt_name w) (s @ join_path segs) (rs_captures state)\<rparr>)
                  | None \<Rightarrow> (None, state))))"
proof -
  have ne: "s @ join_path segs \<noteq> []" using assms by (auto simp: plain_segment_def)
  have again: "route_match c state (strip_slash (join_path segs)) = route_match c state (join_path segs)" for c state
    by (rule route_match_strip) (rule strip_join_idem [OF assms(2)])
  show ?thesis
    by (subst route_match.simps)
      (simp only: strip_join_path path_segment_join [OF assms(1)] path_rest_join [OF assms(1)] ne again Let_def if_False)
qed

lemma route_match_end [simp]: "route_match r st (join_path []) = (Some r, st)"
  by (subst route_match.simps) (simp add: join_path_def strip_slash_def)

section \<open>What a path can match\<close>

definition accepts :: "('t, 'm) route \<Rightarrow> string \<Rightarrow> bool" where
  "accepts p segment = (case rt_predicate p of Some f \<Rightarrow> f segment | None \<Rightarrow> True)"

text \<open>The nodes a path can lead to, in no order of preference.\<close>

inductive matches :: "('t, 'm) route \<Rightarrow> string \<Rightarrow> ('t, 'm) route \<Rightarrow> bool" where
  here: "strip_slash path = [] \<Longrightarrow> matches r path r"
| static: "\<lbrakk>strip_slash path = p; p \<noteq> []; find_static_child r (path_segment p) = Some c; matches c (path_rest p) m\<rbrakk> \<Longrightarrow>
    matches r path m"
| param: "\<lbrakk>strip_slash path = p; p \<noteq> []; c \<in> set (rt_params r); accepts c (path_segment p); matches c (path_rest p) m\<rbrakk> \<Longrightarrow>
    matches r path m"
| wild: "\<lbrakk>strip_slash path \<noteq> []; rt_wildcard r = Some w\<rbrakk> \<Longrightarrow> matches r path w"

inductive_cases matchesE: "matches r path m"

text \<open>The attempt at one parameter child, and the choice among all of them.\<close>

definition param_trial ::
  "route_state \<Rightarrow> string \<Rightarrow> string \<Rightarrow> ('t, 'm) route \<Rightarrow> (('t, 'm) route \<times> route_state) option" where
  "param_trial state segment rest p =
     (if accepts p segment
      then (case route_match p (state\<lparr>rs_captures := capture_set (rt_name p) segment (rs_captures state)\<rparr>) rest of
              (Some matched, trial) \<Rightarrow> Some (matched, trial) | (None, _) \<Rightarrow> None)
      else None)"

definition deeper ::
  "(('t, 'm) route \<times> route_state) option \<Rightarrow> ('t, 'm) route \<times> route_state \<Rightarrow> (('t, 'm) route \<times> route_state) option" where
  "deeper best x = (case best of None \<Rightarrow> Some x | Some y \<Rightarrow> if rs_depth (snd x) > rs_depth (snd y) then Some x else best)"

lemma param_trial_Some:
  "param_trial state segment rest p = Some (m, t) \<longleftrightarrow> accepts p segment \<and>
     route_match p (state\<lparr>rs_captures := capture_set (rt_name p) segment (rs_captures state)\<rparr>) rest = (Some m, t)"
  by (simp add: param_trial_def split: prod.splits option.splits)

lemma match_params_trials:
  "match_params ps state segment rest best = foldl deeper best (List.map_filter (param_trial state segment rest) ps)"
  by (induction ps arbitrary: best)
    (auto simp: map_filter_simps param_trial_def accepts_def deeper_def Let_def split: option.splits prod.splits)

lemma foldl_deeper_Some: "\<exists>y. foldl deeper (Some b) xs = Some y \<and> y \<in> insert b (set xs) \<and>
    (\<forall>x \<in> insert b (set xs). rs_depth (snd x) \<le> rs_depth (snd y))"
proof (induction xs arbitrary: b)
  case (Cons x xs)
  show ?case
    using Cons [of x] Cons [of b] by (cases "rs_depth (snd b) < rs_depth (snd x)") (fastforce simp: deeper_def)+
qed simp

lemma foldl_deeper:
  "foldl deeper None xs = None \<longleftrightarrow> xs = []"
  "foldl deeper None xs = Some y \<Longrightarrow> y \<in> set xs \<and> (\<forall>x \<in> set xs. rs_depth (snd x) \<le> rs_depth (snd y))"
  using foldl_deeper_Some [of "hd xs" "tl xs"] by (cases xs; auto simp: deeper_def)+

lemma in_trials: "x \<in> set (List.map_filter f ps) \<longleftrightarrow> (\<exists>p \<in> set ps. f p = Some x)"
  by (induction ps) (auto simp: map_filter_simps split: option.splits)

lemma trials_Nil: "List.map_filter f ps = [] \<longleftrightarrow> (\<forall>p \<in> set ps. f p = None)"
  by (induction ps) (auto simp: map_filter_simps split: option.splits)

text \<open>One step of \<open>match\<close> below a non-empty path, by what its children give.\<close>

lemma route_match_step:
  assumes "p = strip_slash path" "p \<noteq> []" "state = st\<lparr>rs_depth := rs_depth st + 1\<rparr>"
  shows "route_match r st path =
    (case (case find_static_child r (path_segment p) of None \<Rightarrow> None
           | Some c \<Rightarrow> (case route_match c state (path_rest p) of
                         (Some matched, trial) \<Rightarrow> Some (matched, trial) | (None, _) \<Rightarrow> None)) of
       Some (matched, trial) \<Rightarrow> (Some matched, trial)
     | None \<Rightarrow>
         (case foldl deeper None (List.map_filter (param_trial state (path_segment p) (path_rest p)) (rt_params r)) of
            Some (best_match, best_state) \<Rightarrow> (Some best_match, best_state)
          | None \<Rightarrow>
              (case rt_wildcard r of
                 Some w \<Rightarrow> (Some w, state\<lparr>rs_captures := capture_set (rt_name w) p (rs_captures state)\<rparr>)
               | None \<Rightarrow> (None, state))))"
  using assms(2) unfolding assms(1,3) by (subst route_match.simps) (simp only: Let_def if_False match_params_trials)

lemma route_match_here: "strip_slash path = [] \<Longrightarrow> route_match r st path = (Some r, st)"
  by (subst route_match.simps) simp

lemma route_match_sound: "fst (route_match r st path) = Some m \<Longrightarrow> matches r path m"
proof (induction "length path" arbitrary: r st path rule: less_induct)
  case less
  let ?p = "strip_slash path" and ?st = "st\<lparr>rs_depth := rs_depth st + 1\<rparr>"
  show ?case
  proof (cases "?p = []")
    case True
    with less.prems show ?thesis by (simp add: route_match_here matches.here)
  next
    case False
    let ?trials = "List.map_filter (param_trial ?st (path_segment ?p) (path_rest ?p)) (rt_params r)"
    have ih: "fst (route_match c s (path_rest ?p)) = Some m \<Longrightarrow> matches c (path_rest ?p) m" for c s
      using less.hyps rest_shorter False by blast
    have params: "matches r path m" if t: "foldl deeper None ?trials = Some (m, s')" for s'
    proof -
      from foldl_deeper(2) [OF t] obtain c where c: "c \<in> set (rt_params r)"
        "param_trial ?st (path_segment ?p) (path_rest ?p) c = Some (m, s')"
        by (auto simp: in_trials)
      let ?s = "?st\<lparr>rs_captures := capture_set (rt_name c) (path_segment ?p) (rs_captures ?st)\<rparr>"
      have "accepts c (path_segment ?p)" "fst (route_match c ?s (path_rest ?p)) = Some m"
        using c(2) unfolding param_trial_Some by (metis, metis fst_conv)
      then show ?thesis using ih by (intro matches.param [OF refl False c(1)])
    qed
    consider (st) c where "find_static_child r (path_segment ?p) = Some c" "fst (route_match c ?st (path_rest ?p)) = Some m"
      | (pa) s' where "foldl deeper None ?trials = Some (m, s')" | (wi) "rt_wildcard r = Some m"
      using less.prems unfolding route_match_step [OF refl False refl] by (auto split: option.splits prod.splits)
    then show ?thesis
      by cases (use False ih params in \<open>auto intro: matches.wild matches.static [OF refl False]\<close>)
  qed
qed

lemma route_match_complete: "matches r path m \<Longrightarrow> fst (route_match r st path) \<noteq> None"
proof (induction arbitrary: st rule: matches.induct)
  case (here path r)
  then show ?case by (simp add: route_match_here)
next
  case (static path p r c m)
  obtain m' t where "route_match c (st\<lparr>rs_depth := rs_depth st + 1\<rparr>) (path_rest p) = (Some m', t)"
    using static.IH by (metis not_Some_eq prod.collapse)
  then show ?case using static(3) by (auto simp: route_match_step [OF static(1) [symmetric] static(2) refl] split: option.splits prod.splits)
next
  case (param path p c r m)
  let ?st = "st\<lparr>rs_depth := rs_depth st + 1\<rparr>"
  obtain m' t where "route_match c (?st\<lparr>rs_captures := capture_set (rt_name c) (path_segment p) (rs_captures ?st)\<rparr>) (path_rest p) =
      (Some m', t)"
    using param.IH by (metis not_Some_eq prod.collapse)
  then have "param_trial ?st (path_segment p) (path_rest p) c \<noteq> None" using param(4) by (simp add: param_trial_def)
  then have "foldl deeper None (List.map_filter (param_trial ?st (path_segment p) (path_rest p)) (rt_params r)) \<noteq> None"
    using param(3) by (simp only: foldl_deeper trials_Nil) metis
  then show ?case by (auto simp: route_match_step [OF param(1) [symmetric] param(2) refl] split: option.splits prod.splits)
next
  case (wild path r w)
  then show ?case by (auto simp: route_match_step [OF refl wild(1) refl] split: option.splits prod.splits)
qed

lemma route_match_None: "fst (route_match r st path) = None \<longleftrightarrow> (\<nexists>m. matches r path m)"
  using route_match_sound route_match_complete by (metis not_Some_eq)

section \<open>Registration followed by a match\<close>

lemma set_target_get: "get_target_loop (set_target_loop (m_id m) (m_name m) t ts) m = Some t"
  by (induction ts) auto

lemma get_target_route_method: "get_target (route_method m t r) m = Some t"
  by (simp add: route_method_def set_target_def get_target_def set_target_get)

definition static_segment :: "string \<Rightarrow> bool" where
  "static_segment s \<longleftrightarrow> plain_segment s \<and> hd s \<noteq> CHR '':'' \<and> s \<noteq> ''*''"

lemma child_edges_static: "\<forall>s \<in> set segs. static_segment s \<Longrightarrow> child_edges (join_path segs) = map EStatic segs"
  by (subst child_edges_join) (auto simp: static_segment_def takeWhile_eq_all_conv [THEN iffD2] dropWhile_eq_Nil_conv Let_def)

lemma match_at_static:
  assumes "wf_route r" "keeps_route f" "\<forall>s \<in> set segs. static_segment s"
  shows "\<exists>n. route_match (at_edges (map EStatic segs) f r) st (join_path segs) =
    (Some (f n), st\<lparr>rs_depth := rs_depth st + length segs\<rparr>)"
  using assms
proof (induction segs arbitrary: r st)
  case (Cons s segs)
  define c where "c = (case find_static_child r s of None \<Rightarrow> new_route KStatic s | Some c \<Rightarrow> c)"
  have "wf_route c"
    using Cons.prems(1) find_static_child_linear [OF wf_routeD(1) [OF Cons.prems(1)], of s]
    by (auto simp: c_def find_Some_iff wf_routeD(2) split: option.splits)
  then obtain n where n: "route_match (at_edges (map EStatic segs) f c) (st\<lparr>rs_depth := rs_depth st + 1\<rparr>) (join_path segs) =
      (Some (f n), st\<lparr>rs_depth := rs_depth st + length (s # segs)\<rparr>)"
    using Cons.IH [of c "st\<lparr>rs_depth := rs_depth st + 1\<rparr>"] Cons.prems by auto
  have "find_static_child (at_edges (map EStatic (s # segs)) f r) s = Some (at_edges (map EStatic segs) f c)"
    using find_or_create_static_find [OF Cons.prems(1) keeps_at_edges [OF Cons.prems(2)]] by (simp add: c_def)
  then show ?case
    using Cons.prems(3) n by (subst route_match_join) (auto simp: static_segment_def Let_def)
qed (auto intro: exI)

text \<open>The captures a single registered pattern takes from a path.\<close>

fun capture_path :: "edge list \<Rightarrow> string list \<Rightarrow> capture_map \<Rightarrow> capture_map option" where
  "capture_path [] [] caps = Some caps"
| "capture_path (EStatic s # es) (x # xs) caps = (if s = x then capture_path es xs caps else None)"
| "capture_path (EParam s # es) (x # xs) caps = capture_path es xs (capture_set s x caps)"
| "capture_path (EWild # es) (x # xs) caps = (if es = [] then Some (capture_set ''*'' (x @ join_path xs) caps) else None)"
| "capture_path _ _ caps = None"

lemma at_edges_fresh:
  "at_edges (EStatic s # es) f (new_route k n) = Route k n None [at_edges es f (new_route KStatic s)] [] None [] []"
  "at_edges (EParam s # es) f (new_route k n) = Route k n None [] [at_edges es f (new_route KParam s)] None [] []"
  "at_edges (EWild # es) f (new_route k n) = Route k n None [] [] (Some (at_edges es f (new_route KWildcard ''*''))) [] []"
  by (simp_all add: new_route_def find_or_create_static_child_def find_or_create_param_child_def
      find_or_create_wildcard_child_def lower_bound_def partition_point.simps Let_def)

lemma find_static_single:
  "find_static_child (Route k n p [c] ps w ts ms) s = (if rt_name c = s then Some c else None)"
  "find_static_child (Route k n p [] ps w ts ms) s = None"
  by (simp_all add: find_static_child_linear)

lemma at_edges_name: "rt_name (at_edges es (route_method m t) r) = rt_name r"
  using keeps_at_edges [OF keeps_registration(1)] by (rule keeps_routeD(2))

lemma fresh_names: "rt_name (new_route k n) = n"
  by (simp add: new_route_def)

lemma at_edges_inner:
  "rt_predicate (at_edges (e # es) f (new_route k n)) = None" "rt_targets (at_edges (e # es) f (new_route k n)) = []"
  by (cases e; simp add: at_edges_fresh del: at_edges.simps)+

lemma leaf_fields:
  "route_method m t (new_route k n) = Route k n None [] [] None [(m_id m, m_name m, t)] []"
  by (simp add: new_route_def route_method_def set_target_def)

lemma at_edges_predicate: "rt_predicate (at_edges es (route_method m t) (new_route k n)) = None"
  by (cases es) (simp_all add: at_edges_inner leaf_fields del: at_edges.simps(2-4))

text \<open>
  Whether a node holds the target decides the outcome: a path that ends inside the pattern
  matches a node without one.
\<close>

definition matched_target :: "('t, 'm) route option \<times> route_state \<Rightarrow> http_method \<Rightarrow> ('t \<times> capture_map) option" where
  "matched_target x m = (case x of (Some n, st) \<Rightarrow> map_option (\<lambda>t. (t, rs_captures st)) (get_target n m) | (None, _) \<Rightarrow> None)"

lemma match_leaf:
  "plain_segment x \<Longrightarrow> \<forall>s \<in> set xs. plain_segment s \<Longrightarrow>
   route_match (route_method m t (new_route k n)) st (join_path (x # xs)) = (None, st\<lparr>rs_depth := rs_depth st + 1\<rparr>)"
  by (subst route_match_join) (simp_all add: leaf_fields find_static_single Let_def)

lemma match_single:
  assumes "\<forall>s \<in> set segs. plain_segment s" "rs_captures st = caps"
  shows "matched_target (route_match (at_edges es (route_method m t) (new_route k n :: ('t, 'm) route)) st (join_path segs)) m =
    map_option (\<lambda>caps. (t, caps)) (capture_path es segs caps)"
  using assms
proof (induction es segs caps arbitrary: k n st rule: capture_path.induct)
  case (1 caps)
  then show ?case by (simp add: matched_target_def get_target_route_method)
next
  case (2 s es x xs caps)
  have ih: "s = x \<Longrightarrow> matched_target (route_match (at_edges es (route_method m t) (new_route KStatic s :: ('t, 'm) route))
      (st\<lparr>rs_depth := rs_depth st + 1\<rparr>) (join_path xs)) m =
    map_option (\<lambda>caps. (t, caps)) (capture_path es xs caps)"
    by (rule "2.IH") (use "2.prems" in simp_all)
  show ?case
    using "2.prems" ih
    by (subst route_match_join)
      (auto simp: at_edges_fresh find_static_single at_edges_name fresh_names Let_def matched_target_def
        simp del: at_edges.simps split: option.splits prod.splits)
next
  case (3 s es x xs caps)
  let ?st = "st\<lparr>rs_depth := rs_depth st + 1, rs_captures := capture_set s x (rs_captures st)\<rparr>"
  have "matched_target (route_match (at_edges es (route_method m t) (new_route KParam s :: ('t, 'm) route)) ?st (join_path xs)) m =
    map_option (\<lambda>caps. (t, caps)) (capture_path es xs (capture_set s x caps))"
    by (rule "3.IH") (use "3.prems" in simp_all)
  then show ?case
    using "3.prems"
    by (subst route_match_join)
      (auto simp: route_match_strip [OF strip_join_idem [of xs]] at_edges_fresh find_static_single at_edges_name fresh_names at_edges_predicate Let_def matched_target_def
        simp del: at_edges.simps split: option.splits prod.splits)
next
  case (4 es x xs caps)
  then show ?case
    by (subst route_match_join)
      (cases es; simp add: at_edges_fresh find_static_single at_edges_name fresh_names Let_def matched_target_def
        get_target_def at_edges_inner leaf_fields del: at_edges.simps(2-4))+
qed (simp_all add: matched_target_def get_target_def at_edges_inner match_leaf del: at_edges.simps(2-4))

section \<open>The order of preference\<close>

text \<open>The result of the static child and of the parameter children, below a non-empty path.\<close>

definition static_trial :: "route_state \<Rightarrow> string \<Rightarrow> ('t, 'm) route \<Rightarrow> (('t, 'm) route \<times> route_state) option" where
  "static_trial state p r =
     (case find_static_child r (path_segment p) of None \<Rightarrow> None
      | Some c \<Rightarrow> (case route_match c state (path_rest p) of
                    (Some matched, trial) \<Rightarrow> Some (matched, trial) | (None, _) \<Rightarrow> None))"

definition param_trials :: "route_state \<Rightarrow> string \<Rightarrow> ('t, 'm) route \<Rightarrow> (('t, 'm) route \<times> route_state) list" where
  "param_trials state p r = List.map_filter (param_trial state (path_segment p) (path_rest p)) (rt_params r)"

lemma match_preference:
  assumes "strip_slash path = p" "p \<noteq> []" "state = st\<lparr>rs_depth := rs_depth st + 1\<rparr>"
  shows "static_trial state p r = Some (n, st') \<Longrightarrow> route_match r st path = (Some n, st')"
    and "\<lbrakk>static_trial state p r = None; t \<in> set (param_trials state p r)\<rbrakk> \<Longrightarrow>
      \<exists>n st'. (n, st') \<in> set (param_trials state p r) \<and> route_match r st path = (Some n, st') \<and> rs_depth (snd t) \<le> rs_depth st'"
    and "\<lbrakk>static_trial state p r = None; param_trials state p r = []; rt_wildcard r = Some w\<rbrakk> \<Longrightarrow>
      route_match r st path = (Some w, state\<lparr>rs_captures := capture_set (rt_name w) p (rs_captures state)\<rparr>)"
proof -
  note step = route_match_step [OF assms(1) [symmetric] assms(2,3), of r, folded static_trial_def param_trials_def]
  show "static_trial state p r = Some (n, st') \<Longrightarrow> route_match r st path = (Some n, st')"
    "\<lbrakk>static_trial state p r = None; param_trials state p r = []; rt_wildcard r = Some w\<rbrakk> \<Longrightarrow>
      route_match r st path = (Some w, state\<lparr>rs_captures := capture_set (rt_name w) p (rs_captures state)\<rparr>)"
    by (simp_all add: step)
  assume none: "static_trial state p r = None" and t: "t \<in> set (param_trials state p r)"
  then have "foldl deeper None (param_trials state p r) \<noteq> None" by (auto simp: foldl_deeper)
  then obtain n st' where y: "foldl deeper None (param_trials state p r) = Some (n, st')" by auto
  with foldl_deeper(2) [OF y] t none show
    "\<exists>n st'. (n, st') \<in> set (param_trials state p r) \<and> route_match r st path = (Some n, st') \<and> rs_depth (snd t) \<le> rs_depth st'"
    by (auto simp: step)
qed

section \<open>Properties\<close>

text \<open>
  C3. \<open>route_match\<close> is sound and complete: it returns a node the path can lead to through static,
  accepting parameter and wildcard edges, and it returns none only when there is no such node,
  so the backtracking order never hides a route.
\<close>
theorem route_match_correct:
  "case fst (route_match r st path) of Some m \<Rightarrow> matches r path m | None \<Rightarrow> (\<nexists>m. matches r path m)"
  using route_match_sound [of r st path] route_match_None [of r st path] by (simp split: option.splits)

text \<open>
  C23. The order of preference at a node: a static child that leads to a match decides; otherwise
  the result is that of a parameter child, and no parameter child gets deeper; only when none of
  them leads to a match does the wildcard take the whole remaining path.
\<close>
theorem route_match_priority:
  assumes "strip_slash path = p" "p \<noteq> []" "state = st\<lparr>rs_depth := rs_depth st + 1\<rparr>"
  shows "case static_trial state p r of
      Some (n, st') \<Rightarrow> route_match r st path = (Some n, st')
    | None \<Rightarrow>
        if param_trials state p r \<noteq> []
        then \<exists>n st'. (n, st') \<in> set (param_trials state p r) \<and> route_match r st path = (Some n, st') \<and>
          (\<forall>t \<in> set (param_trials state p r). rs_depth (snd t) \<le> rs_depth st')
        else \<forall>w. rt_wildcard r = Some w \<longrightarrow>
          route_match r st path = (Some w, state\<lparr>rs_captures := capture_set (rt_name w) p (rs_captures state)\<rparr>)"
proof (cases "static_trial state p r")
  case None
  note pref = match_preference(2,3) [OF assms None]
  show ?thesis
  proof (cases "param_trials state p r = []")
    case False
    then obtain t where "t \<in> set (param_trials state p r)" by (meson list.set_sel(1))
    from pref(1) [OF this] obtain n st' where n: "route_match r st path = (Some n, st')"
      "(n, st') \<in> set (param_trials state p r)" by blast
    moreover have "rs_depth (snd t) \<le> rs_depth st'" if "t \<in> set (param_trials state p r)" for t
      using pref(1) [OF that] n by auto
    ultimately show ?thesis using None False by auto
  qed (use None pref(2) in simp)
qed (use match_preference(1) [OF assms] in auto)

theorem route_match_priority_witness:
  "\<exists>n st'. route_match (route_method_at (http_method_of ''GET'') ''/:id'' (1 :: nat)
      (route_method_at (http_method_of ''GET'') ''/me'' 2 (new_route KRoot [] :: (nat, unit) route))) empty_route_state ''/me'' =
    (Some n, st') \<and> get_target n (http_method_of ''GET'') = Some 2"
proof -
  let ?r = "route_method_at (http_method_of ''GET'') ''/:id'' (1 :: nat)
      (route_method_at (http_method_of ''GET'') ''/me'' 2 (new_route KRoot [] :: (nat, unit) route))"
  let ?st = "empty_route_state\<lparr>rs_depth := rs_depth empty_route_state + 1\<rparr>"
  have "map_option (\<lambda>(n, st'). get_target n (http_method_of ''GET'')) (static_trial ?st ''me'' ?r) = Some (Some 2)"
    by code_simp
  then show ?thesis
    using route_match_priority [of "''/me''" "''me''" ?st empty_route_state ?r]
    by (auto simp: strip_slash_def)
qed

text \<open>
  C29. Every registration keeps the trie well-formed: the static children of every node stay
  strictly sorted by name, which is what the binary search of \<open>find_static_child\<close> needs.
\<close>
theorem registration_keeps_wf:
  assumes "wf_route r"
  shows "wf_route (route_method_at m path t r) \<and> wf_route (route_any_at path t r) \<and>
    wf_route (route_param path predicate r) \<and> wf_route (route_resolve path r) \<and>
    wf_route (child path (route_prepend w) r) \<and> wf_route (child path (route_append w) r)"
  using assms unfolding route_method_at_def route_any_at_def route_param_def route_resolve_def child_def
  by (intro conjI keeps_routeD(1) [OF keeps_at_edges] keeps_registration) (auto simp: keeps_route_def)

theorem registration_keeps_wf_witness:
  "wf_route (route_method_at (http_method_of ''GET'') ''/a/b'' (1 :: nat) (new_route KRoot [] :: (nat, unit) route))"
  using registration_keeps_wf [of "new_route KRoot [] :: (nat, unit) route" "http_method_of ''GET''" "''/a/b''" 1] by simp

text \<open>
  A route registered for a method at a path of static segments is found again, in any
  well-formed trie, by a request for that path: the match is the node that holds the target,
  no capture changes, and the depth grows by the number of segments.
\<close>
theorem registered_route_matches:
  assumes "wf_route r" "\<forall>s \<in> set segs. static_segment s"
  shows "\<exists>n. route_match (route_method_at m (join_path segs) t r) st (join_path segs) =
      (Some n, st\<lparr>rs_depth := rs_depth st + length segs\<rparr>) \<and> get_target n m = Some t"
proof -
  obtain n where "route_match (at_edges (map EStatic segs) (route_method m t) r) st (join_path segs) =
      (Some (route_method m t n), st\<lparr>rs_depth := rs_depth st + length segs\<rparr>)"
    using match_at_static [OF assms(1) keeps_registration(1) assms(2), of m t st] ..
  then show ?thesis
    by (simp add: route_method_at_def child_def child_edges_static [OF assms(2)] get_target_route_method)
qed

theorem registered_route_matches_witness:
  "\<exists>n. route_match (route_method_at (http_method_of ''GET'') ''/api/users'' (7 :: nat)
      (new_route KRoot [] :: (nat, unit) route)) empty_route_state ''/api/users'' =
      (Some n, empty_route_state\<lparr>rs_depth := 2\<rparr>) \<and> get_target n (http_method_of ''GET'') = Some 7"
  using registered_route_matches [of "new_route KRoot [] :: (nat, unit) route" "[''api'', ''users'']"
      "http_method_of ''GET''" 7 empty_route_state]
  by (simp add: join_path_def static_segment_def plain_segment_def empty_route_state_def numeral_2_eq_2)

text \<open>
  C22. The captures of a pattern: a router holding the one pattern \<open>pats\<close> delivers a request
  exactly when its segments fit, and then the captures are the segments in the places of the
  \<open>:name\<close> parts, under the names with their colon, and the rest of the path under \<open>*\<close>.
\<close>
theorem pattern_captures:
  assumes "\<forall>s \<in> set segs. plain_segment s"
  shows "matched_target (route_match (route_method_at m (join_path pats) t (new_route KRoot [])) empty_route_state
      (join_path segs)) m =
    map_option (\<lambda>caps. (t, caps)) (capture_path (child_edges (join_path pats)) segs [])"
  unfolding route_method_at_def child_def by (rule match_single [OF assms]) (simp add: empty_route_state_def)

theorem pattern_captures_witness:
  "matched_target (route_match (route_method_at (http_method_of ''GET'') ''/users/:id/*'' (7 :: nat)
      (new_route KRoot [] :: (nat, unit) route)) empty_route_state ''/users/42/a/b'') (http_method_of ''GET'') =
    Some (7, [('':id'', ''42''), (''*'', ''a/b'')])"
proof -
  have "capture_path (child_edges (join_path [''users'', '':id'', ''*''])) [''users'', ''42'', ''a'', ''b''] [] =
    Some [('':id'', ''42''), (''*'', ''a/b'')]" by code_simp
  then show ?thesis
    using pattern_captures [of "[''users'', ''42'', ''a'', ''b'']" "http_method_of ''GET''" "[''users'', '':id'', ''*'']" "7 :: nat"]
    by (simp add: join_path_def plain_segment_def)
qed

text \<open>
  A failed match does not leave the state as it was: the depth has grown by one, although
  the comment at the declaration says the state is left as before the call.
\<close>
theorem failed_match_changes_state:
  "route_match (new_route KRoot [] :: ('t, 'm) route) st ''/x'' = (None, st\<lparr>rs_depth := rs_depth st + 1\<rparr>)"
  by (subst route_match_step [OF refl _ refl])
    (simp_all add: strip_slash_def new_route_def find_static_single map_filter_simps)

end
