(* ===== verification/Http_Date.thy ===== *)
theory Http_Date
  imports Prelude
begin

text \<open>
  \<open>src/src/protocol/http_date.cpp\<close>: HTTP dates.  The calendar functions \<open>gmtime_r\<close> and \<open>timegm\<close>
  of the C library are modelled on unbounded integers by the proleptic Gregorian calendar;
  \<open>gmtime_r\<close> fails when the year does not fit an \<open>int\<close>, and then the zeroed \<open>tm\<close> is printed.
\<close>

section \<open>The calendar\<close>

record tm =
  tm_sec :: int
  tm_min :: int
  tm_hour :: int
  tm_mday :: int
  tm_mon :: nat
  tm_year :: int
  tm_wday :: nat

definition is_leap :: "int \<Rightarrow> bool" where
  "is_leap y \<longleftrightarrow> 4 dvd y \<and> (\<not> 100 dvd y \<or> 400 dvd y)"

definition year_days :: "int \<Rightarrow> int" where
  "year_days y = (if is_leap y then 366 else 365)"

definition month_days :: "int \<Rightarrow> int list" where
  "month_days y = [31, if is_leap y then 29 else 28, 31, 30, 31, 30, 31, 31, 30, 31, 30, 31]"

text \<open>Days from the epoch to the first of January of a year.\<close>

definition days_before_year :: "int \<Rightarrow> int" where
  "days_before_year y = 365 * (y - 1970) + (y - 1) div 4 - (y - 1) div 100 + (y - 1) div 400 - 477"

definition days_before_month :: "int \<Rightarrow> nat \<Rightarrow> int" where
  "days_before_month y m = sum_list (take m (month_days y))"

text \<open>The broken-down date of a day number: the year and the day in it, then the month.\<close>

function year_of :: "int \<Rightarrow> int \<Rightarrow> int \<times> int" where
  "year_of y d =
     (if d < 0 then year_of (y - 1) (d + year_days (y - 1))
      else if d < year_days y then (y, d)
      else year_of (y + 1) (d - year_days y))"
  by pat_completeness auto
termination
  by (relation "measure (\<lambda>(y, d). if d < 0 then nat (- d) + 400 else nat d)") (auto simp: year_days_def split: if_splits)

declare year_of.simps [simp del]

fun month_of :: "int list \<Rightarrow> nat \<Rightarrow> int \<Rightarrow> nat \<times> int" where
  "month_of [] m d = (m, d)"
| "month_of (l # ls) m d = (if d < l then (m, d) else month_of ls (m + 1) (d - l))"

definition gmtime :: "int \<Rightarrow> tm option" where
  "gmtime t =
     (let days = t div 86400; secs = t mod 86400;
          (year, yday) = year_of 1970 days;
          (mon, mday) = month_of (month_days year) 0 yday
      in if year - 1900 < - (2 ^ 31) \<or> year - 1900 \<ge> 2 ^ 31 then None
         else Some \<lparr>tm_sec = secs mod 60, tm_min = secs div 60 mod 60, tm_hour = secs div 3600,
           tm_mday = mday + 1, tm_mon = mon, tm_year = year - 1900, tm_wday = nat ((days + 4) mod 7)\<rparr>)"

definition timegm :: "tm \<Rightarrow> int" where
  "timegm tm =
     (let y = tm_year tm + 1900
      in (days_before_year y + days_before_month y (tm_mon tm) + tm_mday tm - 1) * 86400 +
         tm_hour tm * 3600 + tm_min tm * 60 + tm_sec tm)"

definition zero_tm :: tm where
  "zero_tm = \<lparr>tm_sec = 0, tm_min = 0, tm_hour = 0, tm_mday = 0, tm_mon = 0, tm_year = 0, tm_wday = 0\<rparr>"

section \<open>Formatting\<close>

definition weekday_names :: "string list" where
  "weekday_names = [''Sun'', ''Mon'', ''Tue'', ''Wed'', ''Thu'', ''Fri'', ''Sat'']"

definition month_names :: "string list" where
  "month_names = [''Jan'', ''Feb'', ''Mar'', ''Apr'', ''May'', ''Jun'', ''Jul'', ''Aug'', ''Sep'', ''Oct'', ''Nov'', ''Dec'']"

text \<open>\<open>%0nd\<close> of \<open>printf\<close>.\<close>

definition pad_zero :: "nat \<Rightarrow> string \<Rightarrow> string" where
  "pad_zero n s = replicate (n - length s) (CHR ''0'') @ s"

definition printf_0d :: "nat \<Rightarrow> int \<Rightarrow> string" where
  "printf_0d n i = (if i < 0 then CHR ''-'' # pad_zero (n - 1) (to_string_nat (nat (- i))) else pad_zero n (to_string_nat (nat i)))"

text \<open>
  The buffer has 32 bytes, of which \<open>snprintf\<close> fills 31 and a terminator; a longer text makes the
  code read past the buffer, which is \<open>None\<close>.
\<close>

definition format_http_date :: "int \<Rightarrow> string option" where
  "format_http_date time =
     (let tm = (case gmtime time of Some tm \<Rightarrow> tm | None \<Rightarrow> zero_tm);
          text = weekday_names ! tm_wday tm @ '', '' @ printf_0d 2 (tm_mday tm) @ '' '' @ month_names ! tm_mon tm @ '' '' @
            printf_0d 4 (tm_year tm + 1900) @ '' '' @ printf_0d 2 (tm_hour tm) @ '':'' @ printf_0d 2 (tm_min tm) @ '':'' @
            printf_0d 2 (tm_sec tm) @ '' GMT''
      in if length text \<le> 31 then Some text
         else if length text = 32 then Some (take 31 text @ [NUL]) else None)"

section \<open>Parsing\<close>

fun month_index_from :: "string list \<Rightarrow> nat \<Rightarrow> string \<Rightarrow> nat option" where
  "month_index_from [] i name = None"
| "month_index_from (m # ms) i name = (if name = m then Some i else month_index_from ms (i + 1) name)"

definition month_index :: "string \<Rightarrow> nat option" where
  "month_index name = month_index_from month_names 0 name"

fun date_to_int :: "string \<Rightarrow> int \<Rightarrow> int" where
  "date_to_int [] value = value"
| "date_to_int (c # cs) value = (if \<not> is_digit c then -1 else date_to_int cs (value * 10 + int (digit_val c)))"

definition parse_http_date :: "string \<Rightarrow> int" where
  "parse_http_date text =
     (if length text < 29 then -1
      else case month_index (substr 8 3 text) of
        None \<Rightarrow> -1
      | Some month \<Rightarrow>
          let tm = \<lparr>tm_sec = date_to_int (substr 23 2 text) 0, tm_min = date_to_int (substr 20 2 text) 0,
                tm_hour = date_to_int (substr 17 2 text) 0, tm_mday = date_to_int (substr 5 2 text) 0, tm_mon = month,
                tm_year = date_to_int (substr 12 4 text) 0 - 1900, tm_wday = 0\<rparr>
          in if tm_mday tm < 0 \<or> tm_hour tm < 0 \<or> tm_min tm < 0 \<or> tm_sec tm < 0 then -1 else timegm tm)"

section \<open>The calendar functions are inverse\<close>

lemma div_step:
  assumes "(1 :: int) < n"
  shows "y div n = (y - 1) div n + of_bool (n dvd y)"
proof -
  let ?q = "(y - 1) div n" and ?r = "(y - 1) mod n"
  have y: "y = n * ?q + (?r + 1)" by simp
  have r: "0 \<le> ?r" "?r < n" using assms by simp_all
  show ?thesis
  proof (cases "?r + 1 = n")
    case True
    then have e: "y = n * (?q + 1)" using y by (simp add: algebra_simps)
    then have "n dvd y" by (metis dvd_triv_left)
    moreover have "y div n = ?q + 1" using assms by (subst e) simp
    ultimately show ?thesis by simp
  next
    case False
    then have "y div n = ?q" "y mod n = ?r + 1"
      using r y int_div_pos_eq [of y n ?q "?r + 1"] int_mod_pos_eq [of y n ?q "?r + 1"] by auto
    then show ?thesis using r(1) by (simp add: dvd_eq_mod_eq_0)
  qed
qed

lemma leap_sum:
  "(q \<longrightarrow> p) \<Longrightarrow> (r \<longrightarrow> q) \<Longrightarrow>
   365 * (y + 1 - 1970) + (a + of_bool p) - (b + of_bool q) + (c + of_bool r) - 477 =
   365 * (y - 1970) + a - b + c - 477 + (if p \<and> (\<not> q \<or> r) then 366 else 365 :: int)"
  by (cases p; cases q; cases r) (simp_all add: algebra_simps)

lemma days_before_year_step: "days_before_year (y + 1) = days_before_year y + year_days y"
proof -
  have "100 dvd y \<longrightarrow> 4 dvd y" "400 dvd y \<longrightarrow> 100 dvd y"
    using dvd_trans [of 100 400 y] dvd_trans [of 4 100 y] by simp_all
  note sum = leap_sum [OF this]
  have steps: "y div 4 = (y - 1) div 4 + of_bool (4 dvd y)" "y div 100 = (y - 1) div 100 + of_bool (100 dvd y)"
    "y div 400 = (y - 1) div 400 + of_bool (400 dvd y)"
    by (rule div_step, simp)+
  show ?thesis
    unfolding days_before_year_def add_diff_cancel_right' steps year_days_def is_leap_def by (rule sum)
qed

lemma days_before_year_mono: "y \<le> z \<Longrightarrow> days_before_year y \<le> days_before_year z"
proof (induction rule: int_ge_induct)
  case (step i)
  then show ?case using days_before_year_step [of i] by (simp add: year_days_def)
qed simp

lemma year_of_spec:
  "year_of y d = (y', d') \<Longrightarrow> 0 \<le> d' \<and> d' < year_days y' \<and> days_before_year y' + d' = days_before_year y + d"
proof (induction y d rule: year_of.induct)
  case (1 y d)
  show ?case
    using 1 days_before_year_step [of y] days_before_year_step [of "y - 1"]
    by (subst (asm) (3) year_of.simps) (auto split: if_splits)
qed

lemma month_of_spec:
  "month_of ls m d = (m', d') \<Longrightarrow> 0 \<le> d \<Longrightarrow> d < sum_list ls \<Longrightarrow>
   m \<le> m' \<and> m' < m + length ls \<and> d = sum_list (take (m' - m) ls) + d' \<and> 0 \<le> d' \<and> d' < ls ! (m' - m)"
proof (induction ls m d rule: month_of.induct)
  case (2 l ls m d)
  show ?case
  proof (cases "d < l")
    case False
    then have "month_of ls (m + 1) (d - l) = (m', d')" using "2.prems" by simp
    with "2.IH" [OF False] "2.prems" False have "m + 1 \<le> m'" "m' < m + 1 + length ls"
      "d - l = sum_list (take (m' - (m + 1)) ls) + d'" "0 \<le> d'" "d' < ls ! (m' - (m + 1))" by auto
    moreover from this(1) have "m' - m = Suc (m' - (m + 1))" by simp
    ultimately show ?thesis by simp
  qed (use "2.prems" in simp)
qed simp

lemma sum_month_days: "sum_list (month_days y) = year_days y"
  by (simp add: month_days_def year_days_def)

lemma month_days_le: "m < 12 \<Longrightarrow> month_days y ! m \<le> 31"
  by (auto simp: month_days_def nth_Cons split: nat.splits)

text \<open>The fields of a broken-down time are in range, and \<open>timegm\<close> gives the time back.\<close>

lemma gmtime_fields:
  assumes "gmtime t = Some tm"
  shows "timegm tm = t" "0 \<le> tm_sec tm \<and> tm_sec tm < 60" "0 \<le> tm_min tm \<and> tm_min tm < 60"
    "0 \<le> tm_hour tm \<and> tm_hour tm < 24" "1 \<le> tm_mday tm \<and> tm_mday tm \<le> 31" "tm_mon tm < 12" "tm_wday tm < 7"
    "days_before_year (tm_year tm + 1900) \<le> t div 86400" "t div 86400 < days_before_year (tm_year tm + 1901)"
proof -
  obtain year yday where y: "year_of 1970 (t div 86400) = (year, yday)" by fastforce
  obtain mon mday where m: "month_of (month_days year) 0 yday = (mon, mday)" by fastforce
  have ys: "0 \<le> yday" "yday < year_days year" "days_before_year year + yday = t div 86400"
    using year_of_spec [OF y] by (simp_all add: days_before_year_def)
  have ms: "mon < 12" "yday = days_before_month year mon + mday" "0 \<le> mday" "mday < month_days year ! mon"
    using month_of_spec [OF m ys(1)] ys(2) by (simp_all add: sum_month_days days_before_month_def) (simp add: month_days_def)
  define secs where "secs = t mod 86400"
  have secs: "0 \<le> secs" "secs < 86400" by (simp_all add: secs_def)
  have tm: "tm = \<lparr>tm_sec = secs mod 60, tm_min = secs div 60 mod 60, tm_hour = secs div 3600,
      tm_mday = mday + 1, tm_mon = mon, tm_year = year - 1900, tm_wday = nat ((t div 86400 + 4) mod 7)\<rparr>"
    using assms y m by (simp add: gmtime_def Let_def secs_def split: if_splits)
  have hms: "secs div 3600 * 3600 + secs div 60 mod 60 * 60 + secs mod 60 = secs"
  proof -
    have "secs div 3600 = secs div 60 div 60" using zdiv_zmult2_eq [of 60 secs 60] by simp
    moreover have "a * 3600 + b * 60 + c = (a * 60 + b) * 60 + c" for a b c :: int by simp
    ultimately show ?thesis by (simp only: div_mult_mod_eq)
  qed
  have t: "t div 86400 * 86400 + secs = t" by (simp add: secs_def)
  have day: "days_before_year year + days_before_month year mon + (mday + 1) - 1 = t div 86400"
    using ys(3) ms(2) by simp
  show "timegm tm = t"
    unfolding tm timegm_def Let_def tm.select_convs diff_add_cancel day
    using hms t by (simp only: add.assoc)
  show "0 \<le> tm_sec tm \<and> tm_sec tm < 60" "0 \<le> tm_min tm \<and> tm_min tm < 60" "tm_mon tm < 12"
    using ms by (simp_all add: tm)
  show "0 \<le> tm_hour tm \<and> tm_hour tm < 24" using secs zdiv_mono1 [of secs 86399 3600] by (simp add: tm pos_imp_zdiv_nonneg_iff)
  show "1 \<le> tm_mday tm \<and> tm_mday tm \<le> 31" using ms month_days_le [OF ms(1), of year] by (simp add: tm)
  have "(t div 86400 + 4) mod 7 < 7" by simp
  then show "tm_wday tm < 7" by (simp add: tm nat_less_iff)
  show "days_before_year (tm_year tm + 1900) \<le> t div 86400" "t div 86400 < days_before_year (tm_year tm + 1901)"
    using ys days_before_year_step [of year] by (simp_all add: tm algebra_simps)
qed

section \<open>Fields of the text\<close>

lemma length_to_string_nat: "k < 10 ^ n \<Longrightarrow> 0 < n \<Longrightarrow> length (to_string_nat k) \<le> n"
proof (induction k arbitrary: n rule: to_string_nat.induct)
  case (1 k)
  show ?case
  proof (cases "k < 10")
    case True
    with "1.prems" show ?thesis by (subst to_string_nat.simps) simp
  next
    case False
    then obtain m where n: "n = Suc m" "0 < m" using "1.prems" by (cases n; cases "n - 1") auto
    then have "k div 10 < 10 ^ m" using "1.prems"(1) by (simp add: less_mult_imp_div_less mult.commute)
    with 1(1) [OF False _ n(2)] False show ?thesis by (subst to_string_nat.simps) (simp add: n(1))
  qed
qed

lemma dec_value_zeros: "dec_value (replicate k (CHR ''0'') @ s) = dec_value s"
  by (induction k) (simp_all add: dec_value_def digit_val_def chcode_def)

lemma date_to_int_digits:
  "\<forall>c \<in> set s. is_digit c \<Longrightarrow> date_to_int s (int v) = int (foldl (\<lambda>v c. v * 10 + digit_val c) v s)"
proof (induction s arbitrary: v)
  case (Cons c s)
  from Cons.IH [of "v * 10 + digit_val c"] Cons.prems show ?case by simp
qed simp

lemma printf_0d_field:
  assumes "0 \<le> i" "i < 10 ^ n" "0 < n"
  shows "length (printf_0d n i) = n" "date_to_int (printf_0d n i) 0 = i"
proof -
  have "nat i < 10 ^ n" using assms by (simp add: nat_less_iff)
  then have len: "length (to_string_nat (nat i)) \<le> n" using assms(3) by (rule length_to_string_nat)
  then show "length (printf_0d n i) = n" using assms(1) by (simp add: printf_0d_def pad_zero_def)
  have "\<forall>c \<in> set (printf_0d n i). is_digit c"
    using assms(1) to_string_nat_digits [of "nat i"] by (auto simp: printf_0d_def pad_zero_def is_digit_def chcode_def)
  then have "date_to_int (printf_0d n i) 0 = int (dec_value (printf_0d n i))"
    using date_to_int_digits [of _ 0] by (simp add: dec_value_def)
  also have "dec_value (printf_0d n i) = nat i"
    using assms(1) by (simp add: printf_0d_def pad_zero_def dec_value_zeros)
  finally show "date_to_int (printf_0d n i) 0 = i" using assms(1) by simp
qed

lemma weekday_length: "k < 7 \<Longrightarrow> length (weekday_names ! k) = 3"
  by (auto simp: weekday_names_def nth_Cons split: nat.splits)

lemma month_name: "k < 12 \<Longrightarrow> length (month_names ! k) = 3 \<and> month_index (month_names ! k) = Some k"
  by (auto simp: month_names_def month_index_def nth_Cons split: nat.splits)

text \<open>The fixed positions at which the fields are read.\<close>

lemma date_positions:
  assumes "length wd = 3" "length d = 2" "length mo = 3" "length y = 4" "length h = 2" "length mi = 2" "length se = 2"
    and line: "line = wd @ '', '' @ d @ '' '' @ mo @ '' '' @ y @ '' '' @ h @ '':'' @ mi @ '':'' @ se @ '' GMT''"
  shows "length line = 29" "substr 5 2 line = d" "substr 8 3 line = mo" "substr 12 4 line = y" "substr 17 2 line = h"
    "substr 20 2 line = mi" "substr 23 2 line = se"
  using assms by (simp_all add: substr_def)

section \<open>Properties\<close>

lemma http_date_years: "-719528 \<le> d \<Longrightarrow> d < 2932897 \<Longrightarrow> days_before_year y \<le> d \<Longrightarrow> d < days_before_year (y + 1) \<Longrightarrow> 0 \<le> y \<and> y < 10000"
  using days_before_year_mono [of "y + 1" 0] days_before_year_mono [of 10000 y]
  by (rule_tac ccontr) (auto simp: days_before_year_def [of 0] days_before_year_def [of 10000])

lemma gmtime_defined:
  assumes "-719528 \<le> t div 86400" "t div 86400 < 2932897"
  shows "gmtime t \<noteq> None"
proof -
  obtain year yday where y: "year_of 1970 (t div 86400) = (year, yday)" by fastforce
  have "days_before_year year \<le> t div 86400" "t div 86400 < days_before_year (year + 1)"
    using year_of_spec [OF y] by (simp_all add: days_before_year_step) (simp_all add: days_before_year_def [of 1970])
  from http_date_years [OF assms this] show ?thesis using y by (simp add: gmtime_def Let_def split: prod.splits)
qed

text \<open>
  C31. Every time from the year 0 to the end of the year 9999 is printed as an HTTP date of 29
  characters, and parsing that line gives the time back.
\<close>
theorem http_date_round_trip:
  assumes "-62167219200 \<le> t" "t < 253402300800"
  shows "\<exists>line. format_http_date t = Some line \<and> length line = 29 \<and> parse_http_date line = t"
proof -
  have d: "-719528 \<le> t div 86400" "t div 86400 < 2932897" using assms by linarith+
  from gmtime_defined [OF d] obtain tm where tm: "gmtime t = Some tm" by blast
  note f = gmtime_fields [OF tm]
  have y: "0 \<le> tm_year tm + 1900" "tm_year tm + 1900 < 10000"
    using http_date_years [OF d f(8)] f(9) by (simp_all add: algebra_simps)
  note fld = printf_0d_field
  define line where line: "line = weekday_names ! tm_wday tm @ '', '' @ printf_0d 2 (tm_mday tm) @ '' '' @ month_names ! tm_mon tm @ '' '' @
      printf_0d 4 (tm_year tm + 1900) @ '' '' @ printf_0d 2 (tm_hour tm) @ '':'' @ printf_0d 2 (tm_min tm) @ '':'' @
      printf_0d 2 (tm_sec tm) @ '' GMT''"
  have vals: "length (printf_0d 2 (tm_mday tm)) = 2" "date_to_int (printf_0d 2 (tm_mday tm)) 0 = tm_mday tm"
    "length (printf_0d 4 (tm_year tm + 1900)) = 4" "date_to_int (printf_0d 4 (tm_year tm + 1900)) 0 = tm_year tm + 1900"
    "length (printf_0d 2 (tm_hour tm)) = 2" "date_to_int (printf_0d 2 (tm_hour tm)) 0 = tm_hour tm"
    "length (printf_0d 2 (tm_min tm)) = 2" "date_to_int (printf_0d 2 (tm_min tm)) 0 = tm_min tm"
    "length (printf_0d 2 (tm_sec tm)) = 2" "date_to_int (printf_0d 2 (tm_sec tm)) 0 = tm_sec tm"
    using f y by (simp_all add: printf_0d_field)
  note pos = date_positions [OF weekday_length [OF f(7)] vals(1) month_name [THEN conjunct1, OF f(6)] vals(3,5,7,9) line]
  have "format_http_date t = Some line" using pos(1) by (simp add: format_http_date_def tm Let_def line)
  moreover have "parse_http_date line = timegm tm"
    using f(2-5) pos vals month_name [OF f(6)] by (simp add: parse_http_date_def timegm_def Let_def)
  ultimately show ?thesis using f(1) pos(1) by simp
qed

theorem http_date_round_trip_witness:
  "format_http_date 784887151 = Some ''Tue, 15 Nov 1994 08:12:31 GMT'' \<and>
   parse_http_date ''Tue, 15 Nov 1994 08:12:31 GMT'' = 784887151"
proof -
  have f: "format_http_date 784887151 = Some ''Tue, 15 Nov 1994 08:12:31 GMT''" by code_simp
  with http_date_round_trip [of 784887151] show ?thesis by auto
qed

end
