(* ===== verification/Mime.thy ===== *)
theory Mime
  imports Http_Header
begin

text \<open>
  \<open>src/src/protocol/http_mime_type.cpp\<close>: the parameters of a header value, media types, and the
  media type of a file name.
\<close>

section \<open>Parameters\<close>

text \<open>One segment between semicolons; a key that is already there keeps its value.\<close>

definition unquote :: "string \<Rightarrow> string" where
  "unquote val = (if length val \<ge> 2 \<and> hd val = CHR 0x22 \<and> last val = CHR 0x22 then substr 1 (length val - 2) val else val)"

definition add_parameter :: "string \<Rightarrow> (string, string) omap \<Rightarrow> (string, string) omap" where
  "add_parameter segment out =
     (if segment = [] then out
      else case find_char (CHR ''='') segment of
        None \<Rightarrow> out
      | Some eq \<Rightarrow>
          let key = trim (take eq segment); val = unquote (trim (drop (eq + 1) segment))
          in if key \<noteq> [] then omap_emplace key val out else out)"

fun parameters_loop :: "string \<Rightarrow> (string, string) omap \<Rightarrow> (string, string) omap" where
  "parameters_loop value out =
     (if value = [] then out
      else case find_char (CHR '';'') value of
        None \<Rightarrow> add_parameter (trim value) out
      | Some semi \<Rightarrow> parameters_loop (drop (semi + 1) value) (add_parameter (trim (take semi value)) out))"

declare parameters_loop.simps [simp del]

definition parse_header_parameters :: "string \<Rightarrow> (string, string) omap" where
  "parse_header_parameters value = parameters_loop value []"

section \<open>Media types\<close>

record mime_type =
  mt_type :: string
  mt_subtype :: string
  mt_parameters :: "(string, string) omap"

definition mime_essence :: "mime_type \<Rightarrow> string" where
  "mime_essence m = mt_type m @ ''/'' @ mt_subtype m"

definition mime_parameter :: "mime_type \<Rightarrow> string \<Rightarrow> string option" where
  "mime_parameter m name = omap_find (mt_parameters m) name"

definition mime_parse :: "string \<Rightarrow> mime_type" where
  "mime_parse value =
     (let semi = find_char (CHR '';'') value;
          essence_part = trim (case semi of None \<Rightarrow> value | Some i \<Rightarrow> take i value);
          params_part = (case semi of None \<Rightarrow> [] | Some i \<Rightarrow> drop (i + 1) value);
          parameters = parse_header_parameters params_part
      in case find_char (CHR ''/'') essence_part of
           None \<Rightarrow> \<lparr>mt_type = essence_part, mt_subtype = [], mt_parameters = parameters\<rparr>
         | Some slash \<Rightarrow> \<lparr>mt_type = take slash essence_part, mt_subtype = drop (slash + 1) essence_part,
             mt_parameters = parameters\<rparr>)"

definition mime_to_string :: "mime_type \<Rightarrow> string" where
  "mime_to_string m = foldl (\<lambda>out (key, val). out @ ''; '' @ key @ ''='' @ val) (mime_essence m) (mt_parameters m)"

section \<open>File names\<close>

definition octet_stream :: string where
  "octet_stream = ''application/octet-stream''"

definition mime_table :: "(string \<times> string) list" where
  "mime_table =
    [(''html'', ''text/html''), (''htm'', ''text/html''), (''txt'', ''text/plain''), (''css'', ''text/css''),
     (''csv'', ''text/csv''), (''json'', ''application/json''), (''js'', ''application/javascript''),
     (''mjs'', ''application/javascript''), (''xml'', ''application/xml''), (''pdf'', ''application/pdf''),
     (''png'', ''image/png''), (''jpg'', ''image/jpeg''), (''jpeg'', ''image/jpeg''), (''gif'', ''image/gif''),
     (''svg'', ''image/svg+xml''), (''ico'', ''image/x-icon''), (''bin'', octet_stream), (''wasm'', ''application/wasm''),
     (''woff'', ''font/woff''), (''woff2'', ''font/woff2''), (''mp4'', ''video/mp4''), (''mp3'', ''audio/mpeg''),
     (''wav'', ''audio/wav''), (''zip'', ''application/zip'')]"

definition mime_type_from_extension :: "string \<Rightarrow> string" where
  "mime_type_from_extension path =
     (let filename = (case rfind_char (CHR ''/'') path of None \<Rightarrow> path | Some i \<Rightarrow> drop (i + 1) path)
      in case rfind_char (CHR ''.'') filename of
           None \<Rightarrow> octet_stream
         | Some dot \<Rightarrow>
             (case map_of mime_table (map tolower (drop (dot + 1) filename)) of
                Some mime \<Rightarrow> mime | None \<Rightarrow> octet_stream))"

section \<open>Printed media types\<close>

definition wf_token :: "string \<Rightarrow> bool" where
  "wf_token s \<longleftrightarrow> s \<noteq> [] \<and> (\<forall>c \<in> set s. c \<notin> {CHR '';'', CHR ''='', CHR ''/'', CHR 0x22} \<and> \<not> is_blank c)"

definition wf_mime :: "mime_type \<Rightarrow> bool" where
  "wf_mime m \<longleftrightarrow> wf_token (mt_type m) \<and> wf_token (mt_subtype m) \<and> omap_inv (mt_parameters m) \<and>
     (\<forall>(k, v) \<in> set (mt_parameters m). wf_token k \<and> wf_token v)"

lemma trim_token: "\<forall>c \<in> set s. \<not> is_blank c \<Longrightarrow> trim s = s"
proof -
  assume s: "\<forall>c \<in> set s. \<not> is_blank c"
  have "dropWhile is_blank t = t" if "set t = set s" for t using that s by (cases t) auto
  then show ?thesis by (simp add: trim_def)
qed

lemma unquote_token: "wf_token v \<Longrightarrow> unquote v = v"
  by (cases v) (auto simp: unquote_def wf_token_def)

lemma add_parameter_token:
  assumes "wf_token k" "wf_token v"
  shows "add_parameter (k @ CHR ''='' # v) out = omap_emplace k v out"
proof -
  have "CHR ''='' \<notin> set k" "trim k = k" "trim v = v"
    using assms by (auto simp: wf_token_def intro!: trim_token)
  then show ?thesis
    using assms(1) by (simp add: add_parameter_def find_char_hit Let_def unquote_token [OF assms(2)]) (simp add: wf_token_def)
qed

lemma foldl_text: "foldl (\<lambda>out (key, val). out @ f key val) acc ps = acc @ concat (map (\<lambda>(key, val). f key val) ps)"
  by (induction ps arbitrary: acc) auto

definition parameters_text :: "(string \<times> string) list \<Rightarrow> string" where
  "parameters_text ps = concat (map (\<lambda>(k, v). ''; '' @ k @ ''='' @ v) ps)"

lemma parameter_segment:
  assumes "wf_token k" "wf_token v"
  shows "CHR '';'' \<notin> set (CHR '' '' # k @ ''='' @ v)" "trim (CHR '' '' # k @ ''='' @ v) = k @ ''='' @ v"
proof -
  show "CHR '';'' \<notin> set (CHR '' '' # k @ ''='' @ v)" using assms by (auto simp: wf_token_def)
  have "\<forall>c \<in> set (k @ ''='' @ v). \<not> is_blank c" using assms by (auto simp: wf_token_def is_blank_def TAB_def)
  from trim_token [OF this] show "trim (CHR '' '' # k @ ''='' @ v) = k @ ''='' @ v"
    by (subst trim_blank_Cons) (simp_all add: is_blank_def)
qed

lemma parameters_loop_text:
  assumes "\<forall>(k, v) \<in> set ((k, v) # ps). wf_token k \<and> wf_token v"
  shows "parameters_loop (CHR '' '' # k @ ''='' @ v @ parameters_text ps) out =
    foldl (\<lambda>a (k, v). omap_emplace k v a) out ((k, v) # ps)"
  using assms
proof (induction ps arbitrary: k v out)
  case Nil
  then have wf: "wf_token k" "wf_token v" by simp_all
  have "find_char (CHR '';'') (CHR '' '' # k @ ''='' @ v) = None"
    using parameter_segment(1) [OF wf] by (simp only: find_char_None not_False_eq_True)
  then show ?case
    using parameter_segment(2) [OF wf] add_parameter_token [OF wf, of out]
    by (subst parameters_loop.simps) (simp add: parameters_text_def)
next
  case (Cons kv ps)
  obtain k' v' where kv: "kv = (k', v')" by force
  have wf: "wf_token k" "wf_token v" using Cons.prems by simp_all
  let ?seg = "CHR '' '' # k @ ''='' @ v" and ?rest = "CHR '' '' # k' @ ''='' @ v' @ parameters_text ps"
  have "CHR '' '' # k @ ''='' @ v @ parameters_text (kv # ps) = ?seg @ CHR '';'' # ?rest"
    by (simp add: parameters_text_def kv)
  moreover have "parameters_loop (?seg @ CHR '';'' # ?rest) out = parameters_loop ?rest (add_parameter (trim ?seg) out)"
    by (subst parameters_loop.simps, subst find_char_hit [OF parameter_segment(1) [OF wf]]) simp
  moreover have "add_parameter (trim ?seg) out = omap_emplace k v out"
    unfolding parameter_segment(2) [OF wf] using add_parameter_token [OF wf] by simp
  moreover have "parameters_loop ?rest (omap_emplace k v out) =
      foldl (\<lambda>a (k, v). omap_emplace k v a) (omap_emplace k v out) ((k', v') # ps)"
    using Cons.prems kv by (intro Cons.IH) simp
  ultimately show ?case by (simp only: kv foldl_Cons prod.case)
qed

lemma omap_emplace_all: "omap_inv (ms @ m) \<Longrightarrow> foldl (\<lambda>a (k, v). omap_emplace k v a) ms m = ms @ m"
proof (induction m arbitrary: ms)
  case (Cons kv m)
  obtain k v where kv: "kv = (k, v)" by force
  from Cons.prems have inv: "omap_inv (ms @ [(k, v)])" "omap_find ms k = None"
    by (auto simp: omap_inv_def sorted_wrt_append kv omap_find_def map_of_eq_None_iff)
  then have "omap_emplace k v ms = ms @ [(k, v)]" by (simp add: omap_emplace_def omap_assign_snoc)
  with Cons show ?case by (simp add: kv)
qed simp

text \<open>
  A well-formed media type printed by \<open>to_string\<close> is parsed back to itself: type, subtype
  and every parameter, in the order of the map.
\<close>
theorem mime_round_trip:
  assumes "wf_mime m"
  shows "mime_parse (mime_to_string m) = m"
proof -
  let ?ess = "mime_essence m"
  have tok: "wf_token (mt_type m)" "wf_token (mt_subtype m)" using assms by (simp_all add: wf_mime_def)
  have "\<forall>c \<in> set ?ess. \<not> is_blank c"
    using tok by (auto simp: mime_essence_def wf_token_def is_blank_def TAB_def)
  then have trim: "trim ?ess = ?ess" by (rule trim_token)
  have semi: "CHR '';'' \<notin> set ?ess" using tok by (auto simp: mime_essence_def wf_token_def)
  have "CHR ''/'' \<notin> set (mt_type m)" using tok by (auto simp: wf_token_def)
  then have slash: "find_char (CHR ''/'') ?ess = Some (length (mt_type m))" by (simp add: mime_essence_def find_char_hit)
  note ess = semi trim slash
  have str: "mime_to_string m = ?ess @ parameters_text (mt_parameters m)"
    by (simp add: mime_to_string_def parameters_text_def foldl_text)
  have params: "parse_header_parameters (tl (parameters_text (mt_parameters m))) = mt_parameters m"
  proof (cases "mt_parameters m")
    case (Cons kv ps)
    obtain k v where kv: "kv = (k, v)" by force
    have "parameters_loop (CHR '' '' # k @ ''='' @ v @ parameters_text ps) [] = [] @ (k, v) # ps"
      using assms Cons kv parameters_loop_text [of k v ps "[]"] omap_emplace_all [of "[]" "(k, v) # ps"]
      by (simp add: wf_mime_def)
    then show ?thesis using Cons kv by (simp add: parse_header_parameters_def parameters_text_def)
  qed (simp add: parse_header_parameters_def parameters_text_def parameters_loop.simps)
  show ?thesis
  proof (cases "mt_parameters m")
    case Nil
    then show ?thesis
      using ess params find_char_None [of "CHR '';''" ?ess]
      by (simp add: mime_parse_def str parameters_text_def Let_def) (simp add: mime_essence_def)
  next
    case (Cons kv ps)
    then have "mime_to_string m = ?ess @ CHR '';'' # tl (parameters_text (mt_parameters m))"
      by (auto simp: str parameters_text_def split: prod.splits)
    moreover have "take (length (mt_type m)) ?ess = mt_type m" "drop (length (mt_type m) + 1) ?ess = mt_subtype m"
      by (simp_all add: mime_essence_def)
    ultimately show ?thesis
      using ess params find_char_hit [OF ess(1)] by (simp add: mime_parse_def Let_def)
  qed
qed

theorem mime_round_trip_witness:
  "mime_parse ''text/html; charset=utf-8; q=1'' =
   \<lparr>mt_type = ''text'', mt_subtype = ''html'', mt_parameters = [(''charset'', ''utf-8''), (''q'', ''1'')]\<rparr>"
proof -
  let ?m = "\<lparr>mt_type = ''text'', mt_subtype = ''html'', mt_parameters = [(''charset'', ''utf-8''), (''q'', ''1'')]\<rparr>"
  have "wf_mime ?m" by code_simp
  moreover have "mime_to_string ?m = ''text/html; charset=utf-8; q=1''" by code_simp
  ultimately show ?thesis using mime_round_trip [of ?m] by simp
qed

end
