(* ===== verification/Multipart.thy ===== *)
theory Multipart
  imports Mime Chunked
begin

text \<open>
  \<open>src/src/protocol/http_multipart.cpp\<close>: the reader of multipart bodies.  The reader keeps a
  buffer over its source and looks for \<open>CRLF--boundary\<close> in it; the body of a part is handed
  out in pieces while more of the source is read.  The lemmas compare it with the same search
  on the whole of what is left to read.
\<close>

section \<open>The reader\<close>

record 's multipart_reader =
  mp_source :: 's
  mp_marker :: string
  mp_buffer :: string
  mp_eof :: bool
  mp_finished :: bool
  mp_active :: bool

text \<open>The buffer starts with a line break, so that the first delimiter is found as the others are.\<close>

definition multipart_reader_of :: "'s \<Rightarrow> string \<Rightarrow> 's multipart_reader" where
  "multipart_reader_of source boundary =
     \<lparr>mp_source = source, mp_marker = CRLF @ ''--'' @ boundary, mp_buffer = CRLF, mp_eof = False, mp_finished = False,
      mp_active = False\<rparr>"

definition mp_fill_more :: "'s stream_ops \<Rightarrow> 's multipart_reader \<Rightarrow> (bool \<times> 's multipart_reader) option" where
  "mp_fill_more ops r =
     (if mp_eof r then Some (False, r)
      else Option.bind (st_read ops 4096 (mp_source r))
        (\<lambda>(chunk, s). if chunk = [] then Some (False, r\<lparr>mp_source := s, mp_eof := True\<rparr>)
                      else Some (True, r\<lparr>mp_source := s, mp_buffer := mp_buffer r @ chunk\<rparr>)))"

partial_function (option) ensure_delimiter_or_eof ::
  "'s stream_ops \<Rightarrow> 's multipart_reader \<Rightarrow> (nat option \<times> 's multipart_reader) option" where
  "ensure_delimiter_or_eof ops r =
     (case find_sub (mp_marker r) (mp_buffer r) of
        Some pos \<Rightarrow> Some (Some pos, r)
      | None \<Rightarrow>
          if mp_eof r then Some (None, r)
          else Option.bind (mp_fill_more ops r) (\<lambda>(_, r). ensure_delimiter_or_eof ops r))"

partial_function (option) read_header_line ::
  "'s stream_ops \<Rightarrow> 's multipart_reader \<Rightarrow> (string option \<times> 's multipart_reader) option" where
  "read_header_line ops r =
     (case take_line (mp_buffer r) of
        Some (line, n) \<Rightarrow> Some (Some line, r\<lparr>mp_buffer := drop n (mp_buffer r)\<rparr>)
      | None \<Rightarrow>
          if mp_eof r then Some (None, r)
          else Option.bind (mp_fill_more ops r) (\<lambda>(_, r). read_header_line ops r))"

text \<open>
  \<open>read_part_body\<close> gives up to \<open>n\<close> bytes before the delimiter; without a delimiter in the buffer
  it keeps back the bytes that could be the start of one.
\<close>

definition take_buffer :: "nat \<Rightarrow> 's multipart_reader \<Rightarrow> string \<times> 's multipart_reader" where
  "take_buffer k r = (take k (mp_buffer r), r\<lparr>mp_buffer := drop k (mp_buffer r)\<rparr>)"

partial_function (option) read_part_loop ::
  "'s stream_ops \<Rightarrow> nat \<Rightarrow> 's multipart_reader \<Rightarrow> (string \<times> 's multipart_reader) option" where
  "read_part_loop ops n r =
     (case find_sub (mp_marker r) (mp_buffer r) of
        Some pos \<Rightarrow>
          if min n pos > 0 then Some (take_buffer (min n pos) r) else Some ([], r\<lparr>mp_active := False\<rparr>)
      | None \<Rightarrow>
          let safe = length (mp_buffer r) - (length (mp_marker r) - 1) in
          if length (mp_buffer r) > length (mp_marker r) \<and> min n safe > 0 then Some (take_buffer (min n safe) r)
          else if mp_eof r then
            (if min n (length (mp_buffer r)) > 0 then Some (take_buffer (min n (length (mp_buffer r))) r)
             else Some ([], r\<lparr>mp_active := False\<rparr>))
          else Option.bind (mp_fill_more ops r) (\<lambda>(_, r). read_part_loop ops n r))"

definition read_part_body :: "'s stream_ops \<Rightarrow> nat \<Rightarrow> 's multipart_reader \<Rightarrow> (string \<times> 's multipart_reader) option" where
  "read_part_body ops n r = (if mp_active r then read_part_loop ops n r else Some ([], r))"

text \<open>The stream of a part's body.\<close>

definition part_ops :: "'s stream_ops \<Rightarrow> 's multipart_reader stream_ops" where
  "part_ops ops = \<lparr>st_get_length = (\<lambda>_. -1), st_can_seek = (\<lambda>_. False), st_seek = (\<lambda>_ _ s. (-1, s)),
     st_read = read_part_body ops, st_write = (\<lambda>_ s. (0, s))\<rparr>"

section \<open>\<open>next_part\<close>\<close>

partial_function (option) drain_part :: "'s stream_ops \<Rightarrow> 's multipart_reader \<Rightarrow> 's multipart_reader option" where
  "drain_part ops r =
     (if \<not> mp_active r then Some r
      else Option.bind (read_part_body ops 512 r) (\<lambda>(bs, r). if bs = [] then Some r else drain_part ops r))"

partial_function (option) fill_two :: "'s stream_ops \<Rightarrow> 's multipart_reader \<Rightarrow> 's multipart_reader option" where
  "fill_two ops r =
     (if length (mp_buffer r) < 2 \<and> \<not> mp_eof r then Option.bind (mp_fill_more ops r) (\<lambda>(_, r). fill_two ops r)
      else Some r)"

text \<open>The header lines of a part; a line that is no header is skipped.\<close>

partial_function (option) read_part_headers ::
  "'s stream_ops \<Rightarrow> http_headers \<Rightarrow> 's multipart_reader \<Rightarrow> (http_headers option \<times> 's multipart_reader) option" where
  "read_part_headers ops headers r =
     Option.bind (read_header_line ops r)
       (\<lambda>(line, r).
          case line of
            None \<Rightarrow> Some (None, r\<lparr>mp_finished := True\<rparr>)
          | Some line \<Rightarrow>
              if line = [] then Some (Some headers, r\<lparr>mp_active := True\<rparr>)
              else (case header_try_parse (line @ [LF]) of
                      Parsed _ h \<Rightarrow> read_part_headers ops (headers_add (h_name h) (h_value h) headers) r
                    | _ \<Rightarrow> read_part_headers ops headers r))"

definition next_part :: "'s stream_ops \<Rightarrow> 's multipart_reader \<Rightarrow> (http_headers option \<times> 's multipart_reader) option" where
  "next_part ops r =
     (if mp_finished r then Some (None, r)
      else Option.bind (drain_part ops r)
        (\<lambda>r. Option.bind (ensure_delimiter_or_eof ops r)
          (\<lambda>(pos, r).
             case pos of
               None \<Rightarrow> Some (None, r\<lparr>mp_finished := True\<rparr>)
             | Some delimiter_pos \<Rightarrow>
                 Option.bind (fill_two ops (r\<lparr>mp_buffer := drop (delimiter_pos + length (mp_marker r)) (mp_buffer r)\<rparr>))
                   (\<lambda>r. if length (mp_buffer r) < 2 \<or> take 2 (mp_buffer r) = ''--''
                        then Some (None, r\<lparr>mp_finished := True\<rparr>)
                        else read_part_headers ops [] (r\<lparr>mp_buffer := drop 2 (mp_buffer r)\<rparr>)))))"

text \<open>The name and file name of a part.\<close>

definition part_parameter :: "string \<Rightarrow> http_headers \<Rightarrow> string option" where
  "part_parameter key headers =
     (case headers_get headers ''Content-Disposition'' of
        None \<Rightarrow> None | Some disposition \<Rightarrow> omap_find (parse_header_parameters disposition) key)"

definition part_name :: "http_headers \<Rightarrow> string option" where
  "part_name headers = part_parameter ''name'' headers"

definition part_filename :: "http_headers \<Rightarrow> string option" where
  "part_filename headers = part_parameter ''filename'' headers"

section \<open>Searching\<close>

lemma prefix_append_long: "length m \<le> length a \<Longrightarrow> prefix m (a @ b) \<longleftrightarrow> prefix m a"
  by (metis append_eq_append_conv_if append_take_drop_id prefix_def take_is_prefix prefix_order.dual_order.trans prefixI)

lemma find_sub_append: "find_sub m buf = Some p \<Longrightarrow> find_sub m (buf @ rest) = Some p"
proof -
  assume a: "find_sub m buf = Some p"
  then have p: "p \<le> length buf" "prefix m (drop p buf)" "\<forall>j < p. \<not> prefix m (drop j buf)"
    by (simp_all add: find_sub_Some_iff)
  then have len: "length m \<le> length buf - p" using prefix_length_le by fastforce
  have "\<not> prefix m (drop j (buf @ rest))" if "j < p" for j
    using p(1,3) len that prefix_append_long [of m "drop j buf" rest] by simp
  moreover have "prefix m (drop p (buf @ rest))" using p by (simp add: prefix_def) (metis append.assoc)
  ultimately show ?thesis using p(1) by (simp add: find_sub_Some_iff)
qed

lemma find_sub_fits: "find_sub m s = Some p \<Longrightarrow> p + length m \<le> length s"
  using prefix_length_le [of m "drop p s"] by (auto simp: find_sub_Some_iff)

text \<open>A delimiter not in the buffer yet starts, at the earliest, in the bytes that are kept back.\<close>

lemma find_sub_late: "find_sub m buf = None \<Longrightarrow> find_sub m (buf @ rest) = Some p \<Longrightarrow> length buf < p + length m"
proof (rule ccontr)
  assume none: "find_sub m buf = None" and some: "find_sub m (buf @ rest) = Some p" and "\<not> length buf < p + length m"
  then have "p \<le> length buf" "length m \<le> length (drop p buf)" by auto
  with some have "prefix m (drop p buf)"
    using prefix_append_long [of m "drop p buf" rest] by (simp add: find_sub_Some_iff)
  with none \<open>p \<le> length buf\<close> show False by (simp add: find_sub_None_iff)
qed

lemma find_sub_drop: "find_sub m s = Some p \<Longrightarrow> k \<le> p \<Longrightarrow> find_sub m (drop k s) = Some (p - k)"
  by (auto simp: find_sub_Some_iff less_diff_conv add.commute)

lemma find_sub_drop_None: "find_sub m s = None \<Longrightarrow> find_sub m (drop k s) = None"
  using find_sub_found_iff [of m s] find_sub_found_iff [of m "drop k s"]
  by (meson sublist_order.order.trans suffix_drop suffix_imp_sublist)

section \<open>What is before the delimiter\<close>

definition before_marker :: "string \<Rightarrow> string \<Rightarrow> string" where
  "before_marker m s = (case find_sub m s of Some i \<Rightarrow> take i s | None \<Rightarrow> s)"

definition from_marker :: "string \<Rightarrow> string \<Rightarrow> string" where
  "from_marker m s = (case find_sub m s of Some i \<Rightarrow> drop i s | None \<Rightarrow> [])"

lemma before_from_marker: "before_marker m s @ from_marker m s = s"
  by (simp add: before_marker_def from_marker_def split: option.splits)

text \<open>Cutting bytes off that lie before the delimiter.\<close>

lemma marker_cut:
  assumes "k \<le> length (before_marker m s)"
  shows "before_marker m s = take k s @ before_marker m (drop k s)" "from_marker m (drop k s) = from_marker m s"
proof -
  have "before_marker m s = take k s @ before_marker m (drop k s) \<and> from_marker m (drop k s) = from_marker m s"
  proof (cases "find_sub m s")
    case (Some p)
    then have "k \<le> p" using assms find_sub_fits [OF Some] by (simp add: before_marker_def)
    moreover from this have "take k s @ drop k (take p s) = take p s"
      using append_take_drop_id [of k "take p s"] by (simp add: min_absorb1)
    ultimately show ?thesis
      using Some find_sub_drop [OF Some] by (simp add: before_marker_def from_marker_def take_drop)
  qed (simp add: before_marker_def from_marker_def find_sub_drop_None)
  then show "before_marker m s = take k s @ before_marker m (drop k s)" "from_marker m (drop k s) = from_marker m s"
    by blast+
qed

section \<open>Reading from a source\<close>

definition mp_raw :: "('s \<Rightarrow> string) \<Rightarrow> 's multipart_reader \<Rightarrow> string" where
  "mp_raw content r = mp_buffer r @ content (mp_source r)"

definition mp_inv :: "('s \<Rightarrow> string) \<Rightarrow> ('s \<Rightarrow> bool) \<Rightarrow> 's multipart_reader \<Rightarrow> bool" where
  "mp_inv content invar r \<longleftrightarrow>
     invar (mp_source r) \<and> (mp_eof r \<longrightarrow> content (mp_source r) = []) \<and> mp_marker r \<noteq> []"

definition mp_todo :: "('s \<Rightarrow> string) \<Rightarrow> 's multipart_reader \<Rightarrow> nat" where
  "mp_todo content r = (if mp_eof r then 0 else Suc (length (content (mp_source r))))"

text \<open>The reader has only read ahead.\<close>

definition reads_ahead ::
  "('s \<Rightarrow> string) \<Rightarrow> ('s \<Rightarrow> bool) \<Rightarrow> 's multipart_reader \<Rightarrow> 's multipart_reader \<Rightarrow> bool" where
  "reads_ahead content invar r r' \<longleftrightarrow> mp_inv content invar r' \<and> mp_raw content r' = mp_raw content r \<and>
     mp_marker r' = mp_marker r \<and> mp_finished r' = mp_finished r \<and> mp_active r' = mp_active r"

lemma reads_ahead_refl [simp]: "reads_ahead content invar r r \<longleftrightarrow> mp_inv content invar r"
  by (simp add: reads_ahead_def)

lemma reads_ahead_trans: "reads_ahead content invar r r' \<Longrightarrow> reads_ahead content invar r' r'' \<Longrightarrow> reads_ahead content invar r r''"
  by (simp add: reads_ahead_def)

context byte_source
begin

lemma mp_fill_more_ok:
  assumes "mp_inv content invar r" "\<not> mp_eof r"
  obtains b r' where "mp_fill_more ops r = Some (b, r')" "reads_ahead content invar r r'" "mp_todo content r' < mp_todo content r"
proof -
  from assms(1) have "invar (mp_source r)" by (simp add: mp_inv_def)
  from readE [OF this, of 4096] obtain bs s' where r: "st_read ops 4096 (mp_source r) = Some (bs, s')"
    "content (mp_source r) = bs @ content s'" "content (mp_source r) = [] \<longleftrightarrow> bs = []" "invar s'" by (metis zero_less_numeral)
  show ?thesis
  proof (cases "bs = []")
    case True
    with r assms show ?thesis
      by (intro that [of False "r\<lparr>mp_source := s', mp_eof := True\<rparr>"])
        (simp_all add: mp_fill_more_def reads_ahead_def mp_inv_def mp_raw_def mp_todo_def)
  next
    case False
    with r assms show ?thesis
      by (intro that [of True "r\<lparr>mp_source := s', mp_buffer := mp_buffer r @ bs\<rparr>"])
        (simp_all add: mp_fill_more_def reads_ahead_def mp_inv_def mp_raw_def mp_todo_def)
  qed
qed

lemma eof_raw: "mp_inv content invar r \<Longrightarrow> mp_eof r \<Longrightarrow> mp_raw content r = mp_buffer r"
  by (simp add: mp_inv_def mp_raw_def)

lemma ensure_delimiter_ok:
  "mp_inv content invar r \<Longrightarrow>
   \<exists>r'. ensure_delimiter_or_eof ops r = Some (find_sub (mp_marker r) (mp_raw content r), r') \<and> reads_ahead content invar r r' \<and>
     (\<forall>p. find_sub (mp_marker r) (mp_raw content r) = Some p \<longrightarrow> p + length (mp_marker r) \<le> length (mp_buffer r'))"
proof (induction "mp_todo content r" arbitrary: r rule: less_induct)
  case less
  show ?case
  proof (cases "find_sub (mp_marker r) (mp_buffer r)")
    case (Some p)
    with find_sub_fits [OF Some] find_sub_append [OF Some, of "content (mp_source r)"] less.prems show ?thesis
      by (subst ensure_delimiter_or_eof.simps) (simp add: mp_raw_def)
  next
    case None
    show ?thesis
    proof (cases "mp_eof r")
      case True
      with None less.prems show ?thesis
        by (subst ensure_delimiter_or_eof.simps) (simp add: eof_raw)
    next
      case False
      obtain b r' where f: "mp_fill_more ops r = Some (b, r')" "reads_ahead content invar r r'" "mp_todo content r' < mp_todo content r"
        using mp_fill_more_ok [OF less.prems False] .
      have "mp_inv content invar r'" "mp_marker r' = mp_marker r" "mp_raw content r' = mp_raw content r"
        using f(2) by (simp_all add: reads_ahead_def)
      with less.hyps [OF f(3)] None False f(1,2) show ?thesis
        by (subst ensure_delimiter_or_eof.simps) (auto intro: reads_ahead_trans)
    qed
  qed
qed

lemma read_header_line_ok:
  "mp_inv content invar r \<Longrightarrow>
   case take_line (mp_raw content r) of
     None \<Rightarrow> \<exists>r'. read_header_line ops r = Some (None, r')
   | Some (line, n) \<Rightarrow> \<exists>r'. read_header_line ops r = Some (Some line, r') \<and> mp_inv content invar r' \<and>
       mp_raw content r' = drop n (mp_raw content r) \<and> mp_marker r' = mp_marker r \<and> mp_finished r' = mp_finished r \<and>
       mp_active r' = mp_active r"
proof (induction "mp_todo content r" arbitrary: r rule: less_induct)
  case less
  show ?case
  proof (cases "take_line (mp_buffer r)")
    case (Some ln)
    obtain line n where ln: "ln = (line, n)" by force
    with take_line_append [of "mp_buffer r" line n "content (mp_source r)"] take_line_consumed [of "mp_buffer r" line n] Some less.prems
    show ?thesis
      by (subst read_header_line.simps) (simp add: mp_raw_def mp_inv_def)
  next
    case None
    show ?thesis
    proof (cases "mp_eof r")
      case True
      with None less.prems show ?thesis
        by (subst read_header_line.simps) (simp add: eof_raw)
    next
      case False
      obtain b r' where f: "mp_fill_more ops r = Some (b, r')" "reads_ahead content invar r r'" "mp_todo content r' < mp_todo content r"
        using mp_fill_more_ok [OF less.prems False] .
      have "read_header_line ops r = read_header_line ops r'"
        using None False f(1) by (subst read_header_line.simps) simp
      moreover have "mp_inv content invar r'" using f(2) by (simp add: reads_ahead_def)
      ultimately show ?thesis
        using less.hyps [OF f(3)] f(2) by (simp add: reads_ahead_def split: option.splits prod.splits)
    qed
  qed
qed

text \<open>One read of a part: the bytes come from before the delimiter, and none only at it.\<close>

definition part_step :: "nat \<Rightarrow> 's multipart_reader \<Rightarrow> string \<Rightarrow> 's multipart_reader \<Rightarrow> bool" where
  "part_step n r bs r' \<longleftrightarrow> mp_inv content invar r' \<and> mp_marker r' = mp_marker r \<and> mp_finished r' = mp_finished r \<and>
     length bs \<le> n \<and>
     before_marker (mp_marker r) (mp_raw content r) = bs @ before_marker (mp_marker r) (mp_raw content r') \<and>
     from_marker (mp_marker r) (mp_raw content r') = from_marker (mp_marker r) (mp_raw content r) \<and>
     (if bs = [] then before_marker (mp_marker r) (mp_raw content r) = [] \<and> \<not> mp_active r' else mp_active r' = mp_active r)"

lemma take_buffer_step:
  assumes "mp_inv content invar r" "0 < k" "k \<le> n" "k \<le> length (mp_buffer r)"
    "k \<le> length (before_marker (mp_marker r) (mp_raw content r))"
  shows "\<exists>bs r'. Some (take_buffer k r) = Some (bs, r') \<and> part_step n r bs r'"
proof -
  have raw: "mp_raw content (r\<lparr>mp_buffer := drop k (mp_buffer r)\<rparr>) = drop k (mp_raw content r)"
    "take k (mp_raw content r) = take k (mp_buffer r)"
    using assms(4) by (simp_all add: mp_raw_def)
  have "take k (mp_buffer r) \<noteq> []" using assms(2,4) by auto
  moreover have "mp_inv content invar (r\<lparr>mp_buffer := drop k (mp_buffer r)\<rparr>)" using assms(1) by (simp add: mp_inv_def)
  ultimately show ?thesis
    using marker_cut [OF assms(5)] raw assms(3) by (simp add: take_buffer_def part_step_def)
qed

lemma end_of_part_step:
  "mp_inv content invar r \<Longrightarrow> before_marker (mp_marker r) (mp_raw content r) = [] \<Longrightarrow>
   \<exists>bs r'. Some ([], r\<lparr>mp_active := False\<rparr>) = Some (bs, r') \<and> part_step n r bs r'"
  by (simp add: part_step_def mp_inv_def mp_raw_def)

lemma read_part_loop_ok:
  assumes "0 < n"
  shows "mp_inv content invar r \<Longrightarrow> \<exists>bs r'. read_part_loop ops n r = Some (bs, r') \<and> part_step n r bs r'"
proof (induction "mp_todo content r" arbitrary: r rule: less_induct)
  case less
  let ?m = "mp_marker r" and ?buf = "mp_buffer r" and ?raw = "mp_raw content r"
  show ?case
  proof (cases "find_sub ?m ?buf")
    case (Some pos)
    have f: "find_sub ?m ?raw = Some pos" using find_sub_append [OF Some] by (simp add: mp_raw_def)
    have len: "pos \<le> length ?buf" "length (before_marker ?m ?raw) = pos"
      using find_sub_fits [OF Some] find_sub_fits [OF f] f by (simp_all add: before_marker_def)
    show ?thesis
    proof (cases "min n pos > 0")
      case True
      then show ?thesis
        using take_buffer_step [OF less.prems, of "min n pos" n] len Some by (subst read_part_loop.simps) simp
    next
      case False
      then show ?thesis
        using end_of_part_step [OF less.prems] len Some assms by (subst read_part_loop.simps) simp
    qed
  next
    case None
    let ?safe = "length ?buf - (length ?m - 1)"
    have m: "?m \<noteq> []" using less.prems by (simp add: mp_inv_def)
    have safe: "?safe \<le> length (before_marker ?m ?raw)"
    proof (cases "find_sub ?m ?raw")
      case (Some p)
      have "length ?buf < p + length ?m"
        using find_sub_late [OF None, of "content (mp_source r)" p] Some by (simp add: mp_raw_def)
      then show ?thesis using Some find_sub_fits [OF Some] m by (simp add: before_marker_def)
    qed (simp add: before_marker_def mp_raw_def)
    show ?thesis
    proof (cases "length ?buf > length ?m \<and> min n ?safe > 0")
      case True
      then show ?thesis
        using take_buffer_step [OF less.prems, of "min n ?safe" n] safe None by (subst read_part_loop.simps) (simp add: Let_def)
    next
      case kept: False
      show ?thesis
      proof (cases "mp_eof r")
        case True
        then have raw: "?raw = ?buf" "before_marker ?m ?raw = ?buf"
          using eof_raw [OF less.prems] None by (simp_all add: before_marker_def)
        show ?thesis
        proof (cases "?buf = []")
          case True
          then show ?thesis
            using end_of_part_step [OF less.prems] raw kept None \<open>mp_eof r\<close> by (subst read_part_loop.simps) (simp add: Let_def)
        next
          case False
          then have "min n (length ?buf) > 0" using assms by simp
          with kept raw None \<open>mp_eof r\<close> take_buffer_step [OF less.prems this, of n] show ?thesis
            by (subst read_part_loop.simps) (auto simp: Let_def)
        qed
      next
        case False
        obtain b r' where f: "mp_fill_more ops r = Some (b, r')" "reads_ahead content invar r r'" "mp_todo content r' < mp_todo content r"
          using mp_fill_more_ok [OF less.prems False] .
        have "read_part_loop ops n r = read_part_loop ops n r'"
          using None False kept f(1) by (subst read_part_loop.simps) (auto simp: Let_def)
        moreover have "mp_inv content invar r'" using f(2) by (simp add: reads_ahead_def)
        from less.hyps [OF f(3) this] obtain bs r'' where "read_part_loop ops n r' = Some (bs, r'')" "part_step n r' bs r''" by blast
        moreover from this(2) f(2) have "part_step n r bs r''" by (auto simp: part_step_def reads_ahead_def split: if_splits)
        ultimately show ?thesis by simp
      qed
    qed
  qed
qed

text \<open>Hence the stream of a part is a source: its content is what comes before the delimiter.\<close>

definition part_content :: "'s multipart_reader \<Rightarrow> string" where
  "part_content r = (if mp_active r then before_marker (mp_marker r) (mp_raw content r) else [])"

definition part_inv :: "string \<Rightarrow> bool \<Rightarrow> string \<Rightarrow> 's multipart_reader \<Rightarrow> bool" where
  "part_inv m fin rest r \<longleftrightarrow> mp_inv content invar r \<and> mp_marker r = m \<and> mp_finished r = fin \<and>
     from_marker m (mp_raw content r) = rest \<and> (\<not> mp_active r \<longrightarrow> before_marker m (mp_raw content r) = [])"

lemma part_byte_source: "byte_source (part_ops ops) part_content (part_inv m fin rest)"
proof
  fix r :: "'s multipart_reader" and n :: nat
  assume inv: "part_inv m fin rest r" and n: "0 < n"
  show "\<exists>bs r'. st_read (part_ops ops) n r = Some (bs, r') \<and> part_content r = bs @ part_content r' \<and> length bs \<le> n \<and>
      (part_content r \<noteq> [] \<longrightarrow> bs \<noteq> []) \<and> part_inv m fin rest r'"
  proof (cases "mp_active r")
    case False
    then show ?thesis using inv by (simp add: part_ops_def read_part_body_def part_content_def)
  next
    case True
    have "mp_inv content invar r" using inv by (simp add: part_inv_def)
    from read_part_loop_ok [OF n this] obtain bs r' where
      r: "read_part_loop ops n r = Some (bs, r')" "part_step n r bs r'" by blast
    show ?thesis
    proof (cases "bs = []")
      case nil: True
      have "before_marker (mp_marker r) (mp_raw content r) = []" "\<not> mp_active r'"
        "before_marker (mp_marker r) (mp_raw content r') = []"
        using r(2) nil by (auto simp: part_step_def)
      with r inv True nil show ?thesis
        by (simp add: part_ops_def read_part_body_def part_content_def part_inv_def part_step_def)
    next
      case False
      then have "mp_active r'" using r(2) True by (simp add: part_step_def)
      with r inv True False show ?thesis
        by (simp add: part_ops_def read_part_body_def part_content_def part_inv_def part_step_def)
    qed
  qed
qed

text \<open>Draining ends at the delimiter.\<close>

lemma part_inv_step:
  assumes "part_inv m fin rest r" "mp_active r" "part_step n r bs r'"
  shows "part_inv m fin rest r'" "part_content r = bs @ part_content r'" "bs = [] \<longleftrightarrow> \<not> mp_active r'"
  using assms by (auto simp: part_inv_def part_step_def part_content_def split: if_splits)

lemma drain_part_ok:
  "part_inv m fin rest r \<Longrightarrow> \<exists>r'. drain_part ops r = Some r' \<and> part_inv m fin rest r' \<and> \<not> mp_active r'"
proof (induction "length (part_content r)" arbitrary: r rule: less_induct)
  case less
  show ?case
  proof (cases "mp_active r")
    case False
    with less.prems show ?thesis by (subst drain_part.simps) simp
  next
    case True
    have "mp_inv content invar r" using less.prems by (simp add: part_inv_def)
    from read_part_loop_ok [OF _ this, of 512] obtain bs r' where
      r: "read_part_loop ops 512 r = Some (bs, r')" "part_step 512 r bs r'" by auto
    note s = part_inv_step [OF less.prems True r(2)]
    show ?thesis
    proof (cases "bs = []")
      case nil: True
      with r True s show ?thesis by (subst drain_part.simps) (simp add: read_part_body_def)
    next
      case False
      then have "length (part_content r') < length (part_content r)" by (simp add: s(2))
      from less.hyps [OF this s(1)] r True False show ?thesis
        by (subst drain_part.simps) (simp add: read_part_body_def)
    qed
  qed
qed

lemma fill_two_ok:
  "mp_inv content invar r \<Longrightarrow>
   \<exists>r'. fill_two ops r = Some r' \<and> reads_ahead content invar r r' \<and> (2 \<le> length (mp_buffer r') \<or> mp_buffer r' = mp_raw content r)"
proof (induction "mp_todo content r" arbitrary: r rule: less_induct)
  case less
  show ?case
  proof (cases "length (mp_buffer r) < 2 \<and> \<not> mp_eof r")
    case False
    with less.prems show ?thesis by (subst fill_two.simps) (auto simp: eof_raw)
  next
    case True
    obtain b r' where f: "mp_fill_more ops r = Some (b, r')" "reads_ahead content invar r r'" "mp_todo content r' < mp_todo content r"
      using mp_fill_more_ok [OF less.prems] True by blast
    moreover have "mp_inv content invar r'" "mp_raw content r' = mp_raw content r" using f(2) by (simp_all add: reads_ahead_def)
    ultimately show ?thesis
      using less.hyps [OF f(3)] True by (subst fill_two.simps) (auto intro: reads_ahead_trans)
  qed
qed

end

section \<open>Multipart bodies\<close>

definition wf_part_header :: "http_header \<Rightarrow> bool" where
  "wf_part_header h \<longleftrightarrow> wf_header h \<and> (h_value h = [] \<or> last (h_value h) \<noteq> CR)"

type_synonym part = "http_headers \<times> string"

definition wf_part :: "string \<Rightarrow> part \<Rightarrow> bool" where
  "wf_part m p \<longleftrightarrow> (\<forall>h \<in> set (fst p). wf_part_header h) \<and> find_sub m (snd p) = None"

definition part_text :: "string \<Rightarrow> part \<Rightarrow> string" where
  "part_text boundary p = ''--'' @ boundary @ CRLF @ headers_write_to (fst p) @ CRLF @ snd p @ CRLF"

definition multipart_text :: "string \<Rightarrow> part list \<Rightarrow> string \<Rightarrow> string" where
  "multipart_text boundary parts epilogue = concat (map (part_text boundary) parts) @ ''--'' @ boundary @ ''--'' @ epilogue"

text \<open>The same text cut at the delimiters, each with the line break before it.\<close>

fun parts_raw :: "string \<Rightarrow> part list \<Rightarrow> string \<Rightarrow> string" where
  "parts_raw m [] epilogue = m @ ''--'' @ epilogue"
| "parts_raw m (p # ps) epilogue = m @ CRLF @ headers_write_to (fst p) @ CRLF @ snd p @ parts_raw m ps epilogue"

lemma multipart_text_raw: "CRLF @ multipart_text boundary parts epilogue = parts_raw (CRLF @ ''--'' @ boundary) parts epilogue"
proof (induction parts)
  case (Cons p parts)
  have "CRLF @ multipart_text boundary (p # parts) epilogue =
      CRLF @ ''--'' @ boundary @ CRLF @ headers_write_to (fst p) @ CRLF @ snd p @ CRLF @ multipart_text boundary parts epilogue"
    by (simp add: multipart_text_def part_text_def)
  then show ?case using Cons by simp
qed (simp add: multipart_text_def)

lemma parts_raw_marker: "\<exists>x. parts_raw m ps epilogue = m @ x"
  by (cases ps) auto

lemma find_marker_after:
  assumes "find_sub m body = None" "m = CR # t" "CR \<notin> set t"
  shows "find_sub m (body @ m @ x) = Some (length body)"
proof -
  have "\<not> prefix m (drop j (body @ m @ x))" if "j < length body" for j
  proof
    assume pre: "prefix m (drop j (body @ m @ x))"
    show False
    proof (cases "length m \<le> length body - j")
      case True
      then have "prefix m (drop j body)" using pre that prefix_append_long [of m "drop j body" "m @ x"] by simp
      with assms(1) that show False by (simp add: find_sub_None_iff)
    next
      case False
      let ?d = "length body - j"
      from pre have "m ! ?d = drop j (body @ m @ x) ! ?d"
        using False by (metis nth_take prefix_def append_eq_conv_conj not_le)
      then have "m ! ?d = CR" using that assms(2) by (simp add: nth_append)
      moreover have "m ! ?d \<in> set t" using False that assms(2) by (cases ?d) auto
      ultimately show False using assms(3) by simp
    qed
  qed
  then show ?thesis by (simp add: find_sub_Some_iff)
qed

lemma find_sub_here: "find_sub m (m @ x) = Some 0"
  by (simp add: find_sub_Some_iff)

lemma marker_split:
  "wf_part m p \<Longrightarrow> m = CR # t \<Longrightarrow> CR \<notin> set t \<Longrightarrow>
   before_marker m (snd p @ parts_raw m ps epilogue) = snd p \<and>
   from_marker m (snd p @ parts_raw m ps epilogue) = parts_raw m ps epilogue"
  using find_marker_after [of m "snd p" t] parts_raw_marker [of m ps epilogue]
  by (auto simp: wf_part_def before_marker_def from_marker_def)

lemma take_line_lf: "LF \<notin> set l \<Longrightarrow> l = [] \<or> last l \<noteq> CR \<Longrightarrow> take_line (l @ LF # r) = Some (l, length l + 1)"
  using find_char_hit [of LF l r] by (cases l rule: rev_cases) (auto simp: take_line_def Let_def nth_append)

lemma part_header_line:
  assumes "wf_part_header h"
  shows "header_try_parse ((h_name h @ '': '' @ h_value h) @ [LF]) = Parsed (length (h_name h @ '': '' @ h_value h) + 1) h"
    and "LF \<notin> set (h_name h @ '': '' @ h_value h)"
proof -
  let ?l = "h_name h @ '': '' @ h_value h"
  show lf: "LF \<notin> set ?l" using assms by (auto simp: wf_part_header_def wf_header_def LF_def)
  have "last ?l \<noteq> CR" using assms by (auto simp: wf_part_header_def CR_def)
  from take_line_lf [OF lf disjI2 [OF this], of "[]"] show "header_try_parse (?l @ [LF]) = Parsed (length ?l + 1) h"
    using header_of_written_line [of h] assms by (simp add: header_try_parse_def wf_part_header_def)
qed

context byte_source
begin

lemma read_part_headers_ok:
  "mp_inv content invar r \<Longrightarrow> mp_raw content r = headers_write_to hs @ CRLF @ x \<Longrightarrow> \<forall>h \<in> set hs. wf_part_header h \<Longrightarrow>
   \<exists>r'. read_part_headers ops acc r = Some (Some (acc @ hs), r') \<and> mp_inv content invar r' \<and> mp_raw content r' = x \<and>
     mp_active r' \<and> mp_marker r' = mp_marker r \<and> mp_finished r' = mp_finished r"
proof (induction hs arbitrary: acc r)
  case Nil
  then have "take_line (mp_raw content r) = Some ([], 2)"
    using take_line_crlf [of "[]" x] by (simp add: headers_write_to_def)
  with read_header_line_ok [OF Nil(1)] Nil obtain r' where "read_header_line ops r = Some (Some [], r')" "mp_inv content invar r'"
    "mp_raw content r' = x" "mp_marker r' = mp_marker r" "mp_finished r' = mp_finished r"
    by (auto simp: headers_write_to_def)
  then show ?case by (subst read_part_headers.simps) (simp add: mp_inv_def mp_raw_def)
next
  case (Cons h hs)
  define l where "l = h_name h @ '': '' @ h_value h"
  have h: "wf_part_header h" using Cons.prems by simp
  have raw: "mp_raw content r = l @ CR # LF # headers_write_to hs @ CRLF @ x"
    using Cons.prems(2) by (simp add: l_def headers_write_to_def header_write_def)
  have line: "take_line (mp_raw content r) = Some (l, length l + 2)"
    unfolding raw by (rule take_line_crlf [OF part_header_line(2) [OF h, folded l_def]])
  have "drop (length l + 2) (mp_raw content r) = headers_write_to hs @ CRLF @ x" by (simp add: raw)
  with read_header_line_ok [OF Cons.prems(1)] line obtain r' where r': "read_header_line ops r = Some (Some l, r')"
    "mp_inv content invar r'" "mp_raw content r' = headers_write_to hs @ CRLF @ x" "mp_marker r' = mp_marker r"
    "mp_finished r' = mp_finished r"
    by auto
  have hs: "\<forall>h \<in> set hs. wf_part_header h" using Cons.prems by simp
  have "l \<noteq> []" and eta: "\<lparr>h_name = h_name h, h_value = h_value h\<rparr> = h" by (simp_all add: l_def)
  with Cons.IH [OF r'(2,3) hs, of "headers_add (h_name h) (h_value h) acc"] r' part_header_line(1) [OF h, folded l_def] show ?case
    by (subst read_part_headers.simps) (simp add: headers_add_def eta)
qed

lemma drop_buffer:
  assumes "k \<le> length (mp_buffer r)"
  shows "mp_raw content (r\<lparr>mp_buffer := drop k (mp_buffer r)\<rparr>) = drop k (mp_raw content r)"
    and "mp_inv content invar (r\<lparr>mp_buffer := drop k (mp_buffer r)\<rparr>) \<longleftrightarrow> mp_inv content invar r"
  using assms by (simp_all add: mp_raw_def mp_inv_def)

lemma next_part_ok:
  assumes inv: "part_inv m False (parts_raw m ps epilogue) r" and m: "m = CR # t" "CR \<notin> set t"
  shows "case ps of
      [] \<Rightarrow> \<exists>r'. next_part ops r = Some (None, r')
    | p # ps' \<Rightarrow> wf_part m p \<longrightarrow>
        (\<exists>r'. next_part ops r = Some (Some (fst p), r') \<and> part_inv m False (parts_raw m ps' epilogue) r' \<and> part_content r' = snd p)"
proof -
  let ?raw = "parts_raw m ps epilogue"
  obtain x where x: "?raw = m @ x" using parts_raw_marker by blast
  obtain r1 where r1: "drain_part ops r = Some r1" "part_inv m False ?raw r1" "\<not> mp_active r1"
    using drain_part_ok [OF inv] by blast
  then have raw1: "mp_raw content r1 = m @ x" "mp_inv content invar r1" "mp_marker r1 = m" "\<not> mp_finished r1"
    using before_from_marker [of m "mp_raw content r1"] x by (auto simp: part_inv_def)
  then obtain r2 where r2: "ensure_delimiter_or_eof ops r1 = Some (Some 0, r2)" "reads_ahead content invar r1 r2"
    "length m \<le> length (mp_buffer r2)"
    using ensure_delimiter_ok [OF raw1(2)] by (auto simp: find_sub_here)
  define r3 where "r3 = r2\<lparr>mp_buffer := drop (length m) (mp_buffer r2)\<rparr>"
  have r3: "mp_raw content r3 = x" "mp_inv content invar r3" "mp_marker r3 = m" "\<not> mp_finished r3"
    using r2(2) raw1 drop_buffer [OF r2(3)] by (simp_all add: r3_def reads_ahead_def)
  obtain r4 where r4: "fill_two ops r3 = Some r4" "reads_ahead content invar r3 r4"
    "2 \<le> length (mp_buffer r4) \<or> mp_buffer r4 = x"
    using fill_two_ok [OF r3(2)] r3(1) by auto
  have step: "next_part ops r = (if length (mp_buffer r4) < 2 \<or> take 2 (mp_buffer r4) = ''--''
      then Some (None, r4\<lparr>mp_finished := True\<rparr>)
      else read_part_headers ops [] (r4\<lparr>mp_buffer := drop 2 (mp_buffer r4)\<rparr>))"
    using inv r1(1) r2(1,2) raw1 r4(1) by (simp add: next_part_def part_inv_def r3_def reads_ahead_def)
  have x4: "x = mp_buffer r4 @ content (mp_source r4)" using r4(2) r3(1) by (simp add: reads_ahead_def mp_raw_def)
  have two: "2 \<le> length x" using x by (cases ps) (auto simp: headers_write_to_def)
  then have len: "2 \<le> length (mp_buffer r4)" using r4(3) by auto
  then have take: "take 2 (mp_buffer r4) = take 2 x" by (simp add: x4)
  show ?thesis
  proof (cases ps)
    case Nil
    then have "x = ''--'' @ epilogue" using x by simp
    then show ?thesis using Nil step take by simp
  next
    case (Cons p ps')
    let ?r5 = "r4\<lparr>mp_buffer := drop 2 (mp_buffer r4)\<rparr>"
    have x': "x = CRLF @ headers_write_to (fst p) @ CRLF @ snd p @ parts_raw m ps' epilogue"
      using x Cons by simp
    have r5: "mp_inv content invar ?r5" "mp_raw content ?r5 = headers_write_to (fst p) @ CRLF @ snd p @ parts_raw m ps' epilogue"
      using drop_buffer [OF len] r4(2) r3(1) x' by (simp_all add: reads_ahead_def)
    have "take 2 (mp_buffer r4) \<noteq> ''--''" using take x' by (simp add: CR_def)
    then have eq: "next_part ops r = read_part_headers ops [] ?r5" using step len by simp
    have "\<exists>r'. next_part ops r = Some (Some (fst p), r') \<and> part_inv m False (parts_raw m ps' epilogue) r' \<and> part_content r' = snd p"
      if wf: "wf_part m p"
    proof -
      obtain r' where r': "read_part_headers ops [] ?r5 = Some (Some (fst p), r')" "mp_inv content invar r'"
        "mp_raw content r' = snd p @ parts_raw m ps' epilogue" "mp_active r'" "mp_marker r' = mp_marker ?r5" "mp_finished r' = mp_finished ?r5"
        using read_part_headers_ok [OF r5, of "[]"] wf by (auto simp: wf_part_def)
      moreover have "mp_marker ?r5 = m" "\<not> mp_finished ?r5" using r4(2) r3 by (simp_all add: reads_ahead_def)
      ultimately show ?thesis
        using marker_split [OF wf m] eq by (simp add: part_inv_def part_content_def)
    qed
    then show ?thesis using Cons by simp
  qed
qed

end

section \<open>Properties\<close>

text \<open>A client that takes every part and reads its body to the end.\<close>

partial_function (option) collect_parts ::
  "'s stream_ops \<Rightarrow> part list \<Rightarrow> 's multipart_reader \<Rightarrow> (part list \<times> 's multipart_reader) option" where
  "collect_parts ops acc r =
     Option.bind (next_part ops r)
       (\<lambda>(headers, r). case headers of
          None \<Rightarrow> Some (acc, r)
        | Some hs \<Rightarrow> Option.bind (read_all (part_ops ops) [] r) (\<lambda>(body, r). collect_parts ops (acc @ [(hs, body)]) r))"

context byte_source
begin

lemma collect_parts_ok:
  assumes m: "m = CR # t" "CR \<notin> set t"
  shows "part_inv m False (parts_raw m ps epilogue) r \<Longrightarrow> \<forall>p \<in> set ps. wf_part m p \<Longrightarrow>
    \<exists>r'. collect_parts ops acc r = Some (acc @ ps, r')"
proof (induction ps arbitrary: acc r)
  case Nil
  with next_part_ok [OF Nil(1) m] show ?case by (subst collect_parts.simps) auto
next
  case (Cons p ps)
  obtain r1 where r1: "next_part ops r = Some (Some (fst p), r1)" "part_inv m False (parts_raw m ps epilogue) r1" "part_content r1 = snd p"
    using next_part_ok [OF Cons.prems(1) m] Cons.prems(2) by auto
  obtain r2 where r2: "read_all (part_ops ops) [] r1 = Some (snd p, r2)" "part_inv m False (parts_raw m ps epilogue) r2"
    using byte_source.read_all_content [OF part_byte_source r1(2), of "[]"] r1(3) by auto
  have "\<forall>p \<in> set ps. wf_part m p" using Cons.prems(2) by simp
  from Cons.IH [OF r2(2) this, of "acc @ [p]"] r1(1) r2(1) show ?case
    by (subst collect_parts.simps) simp
qed

end

text \<open>
  C13. A multipart body with any number of parts is read back exactly, however the source is
  segmented: taking every part and reading its body to the end returns, with the headers and the
  bodies that were written, provided no body contains the delimiter.
\<close>
theorem multipart_round_trip:
  assumes "byte_source ops content invar" "invar s" "content s = multipart_text boundary parts epilogue"
    and "CR \<notin> set boundary" "\<forall>p \<in> set parts. wf_part (CRLF @ ''--'' @ boundary) p"
  shows "\<exists>r. collect_parts ops [] (multipart_reader_of s boundary) = Some (parts, r)"
proof -
  let ?m = "CRLF @ ''--'' @ boundary" and ?r = "multipart_reader_of s boundary"
  have raw: "mp_raw content ?r = parts_raw ?m parts epilogue"
    using multipart_text_raw [of boundary parts epilogue] by (simp add: mp_raw_def multipart_reader_of_def assms(3))
  then obtain x where x: "mp_raw content ?r = ?m @ x" using parts_raw_marker [of ?m parts epilogue] by auto
  then have "before_marker ?m (mp_raw content ?r) = []" "from_marker ?m (mp_raw content ?r) = mp_raw content ?r"
    using find_sub_here [of ?m x] by (simp_all add: before_marker_def from_marker_def)
  then have "byte_source.part_inv content invar ?m False (parts_raw ?m parts epilogue) ?r"
    using assms(1,2) raw by (simp add: byte_source.part_inv_def mp_inv_def) (simp add: multipart_reader_of_def)
  moreover have "?m = CR # LF # ''--'' @ boundary" "CR \<notin> set (LF # ''--'' @ boundary)"
    using assms(4) by (auto simp: CR_def LF_def)
  ultimately show ?thesis
    using byte_source.collect_parts_ok [OF assms(1), of ?m "LF # ''--'' @ boundary" parts epilogue ?r "[]"] assms(5) by simp
qed

theorem multipart_round_trip_witness:
  "\<exists>r. collect_parts socket_ops [] (multipart_reader_of
      \<lparr>rx = [''--xyz'', CRLF @ ''A: b'' @ CRLF @ CRLF @ ''da'', ''ta'' @ CRLF @ ''--xyz--''], tx = []\<rparr> ''xyz'') =
    Some ([([\<lparr>h_name = ''A'', h_value = ''b''\<rparr>], ''data'')], r)"
proof -
  let ?parts = "[([\<lparr>h_name = ''A'', h_value = ''b''\<rparr>], ''data'')]"
  let ?s = "\<lparr>rx = [''--xyz'', CRLF @ ''A: b'' @ CRLF @ CRLF @ ''da'', ''ta'' @ CRLF @ ''--xyz--''], tx = []\<rparr>"
  have "socket_content ?s = multipart_text ''xyz'' ?parts []" by code_simp
  moreover have "socket_inv ?s" by simp
  moreover have "\<forall>p \<in> set ?parts. wf_part (CRLF @ ''--'' @ ''xyz'') p" by code_simp
  ultimately show ?thesis
    using multipart_round_trip [OF socket.byte_source_axioms, of ?s "''xyz''" ?parts "[]"] by (simp add: CR_def)
qed

end
