(* ===== verification/Websocket.thy ===== *)
theory Websocket
  imports Http1_Io
begin

text \<open>
  \<open>src/src/ws/connection.cpp\<close>: the WebSocket frame codec.  A connection reads frames through its
  buffer from the wire; \<open>receive\<close> reassembles fragmented messages and answers control frames.
  The reference is a decoder of one frame on a whole byte string.
\<close>

unbundle bit_operations_syntax

section \<open>Frames\<close>

definition opcode_continuation :: byte where "opcode_continuation = 0x0"
definition opcode_text :: byte where "opcode_text = 0x1"
definition opcode_binary :: byte where "opcode_binary = 0x2"
definition opcode_close :: byte where "opcode_close = 0x8"
definition opcode_ping :: byte where "opcode_ping = 0x9"
definition opcode_pong :: byte where "opcode_pong = 0xA"

lemmas opcode_defs = opcode_continuation_def opcode_text_def opcode_binary_def opcode_close_def opcode_ping_def opcode_pong_def

record raw_frame =
  fr_fin :: bool
  fr_opcode :: byte
  fr_payload :: string

datatype message_type = TextMessage | BinaryMessage

record message =
  msg_type :: message_type
  msg_data :: string

record 's ws_connection =
  ws_wire :: 's
  ws_buffer :: string
  ws_eof :: bool
  ws_closed :: bool

definition ws_connection_of :: "'s \<Rightarrow> string \<Rightarrow> 's ws_connection" where
  "ws_connection_of wire initial_buffer = \<lparr>ws_wire = wire, ws_buffer = initial_buffer, ws_eof = False, ws_closed = False\<rparr>"

definition ws_fill_more :: "'s stream_ops \<Rightarrow> 's ws_connection \<Rightarrow> (bool \<times> 's ws_connection) option" where
  "ws_fill_more ops c =
     (if ws_eof c then Some (False, c)
      else Option.bind (st_read ops 4096 (ws_wire c))
        (\<lambda>(chunk, w). if chunk = [] then Some (False, c\<lparr>ws_wire := w, ws_eof := True\<rparr>)
                      else Some (True, c\<lparr>ws_wire := w, ws_buffer := ws_buffer c @ chunk\<rparr>)))"

partial_function (option) ws_read_exact ::
  "'s stream_ops \<Rightarrow> nat \<Rightarrow> 's ws_connection \<Rightarrow> (string option \<times> 's ws_connection) option" where
  "ws_read_exact ops n c =
     (if length (ws_buffer c) < n
      then Option.bind (ws_fill_more ops c) (\<lambda>(more, c). if more then ws_read_exact ops n c else Some (None, c))
      else Some (Some (take n (ws_buffer c)), c\<lparr>ws_buffer := drop n (ws_buffer c)\<rparr>))"

text \<open>The length bytes, most significant first; eight of them fill the 64 bits exactly.\<close>

definition be_value :: "string \<Rightarrow> nat" where
  "be_value ext = foldl (\<lambda>len c. len * 256 + chcode c) 0 ext"

definition unmask :: "string \<Rightarrow> string \<Rightarrow> string" where
  "unmask key payload = map (\<lambda>(i, c). chr8 (ord8 c XOR ord8 (key ! (i mod 4)))) (enumerate 0 payload)"

text \<open>A read that the end of the wire cuts short makes \<open>read_frame\<close> return no frame.\<close>

definition or_closed ::
  "(string option \<times> 's ws_connection) option \<Rightarrow> (string \<Rightarrow> 's ws_connection \<Rightarrow> ('f option \<times> 's ws_connection) option) \<Rightarrow>
   ('f option \<times> 's ws_connection) option" where
  "or_closed m f = Option.bind m (\<lambda>(bs, c). case bs of None \<Rightarrow> Some (None, c) | Some bs \<Rightarrow> f bs c)"

definition read_payload ::
  "'s stream_ops \<Rightarrow> bool \<Rightarrow> byte \<Rightarrow> string option \<Rightarrow> nat \<Rightarrow> 's ws_connection \<Rightarrow> (raw_frame option \<times> 's ws_connection) option" where
  "read_payload ops fin opcode key len c =
     (if len > 0 then or_closed (ws_read_exact ops len c)
        (\<lambda>payload c. Some (Some \<lparr>fr_fin = fin, fr_opcode = opcode,
           fr_payload = (case key of None \<Rightarrow> payload | Some k \<Rightarrow> unmask k payload)\<rparr>, c))
      else Some (Some \<lparr>fr_fin = fin, fr_opcode = opcode, fr_payload = []\<rparr>, c))"

definition read_key_payload ::
  "'s stream_ops \<Rightarrow> bool \<Rightarrow> byte \<Rightarrow> bool \<Rightarrow> nat \<Rightarrow> 's ws_connection \<Rightarrow> (raw_frame option \<times> 's ws_connection) option" where
  "read_key_payload ops fin opcode masked len c =
     (if masked then or_closed (ws_read_exact ops 4 c) (\<lambda>key c. read_payload ops fin opcode (Some key) len c)
      else read_payload ops fin opcode None len c)"

definition read_frame :: "'s stream_ops \<Rightarrow> 's ws_connection \<Rightarrow> (raw_frame option \<times> 's ws_connection) option" where
  "read_frame ops c =
     or_closed (ws_read_exact ops 2 c)
       (\<lambda>head c.
          let b0 = ord8 (head ! 0); b1 = ord8 (head ! 1);
              fin = (b0 AND 0x80 \<noteq> 0); opcode = b0 AND 0x0F; masked = (b1 AND 0x80 \<noteq> 0); len = unat (b1 AND 0x7F)
          in if len = 126 then or_closed (ws_read_exact ops 2 c) (\<lambda>ext c. read_key_payload ops fin opcode masked (be_value ext) c)
             else if len = 127 then or_closed (ws_read_exact ops 8 c) (\<lambda>ext c. read_key_payload ops fin opcode masked (be_value ext) c)
             else read_key_payload ops fin opcode masked len c)"

definition frame_head :: "bool \<Rightarrow> byte \<Rightarrow> nat \<Rightarrow> string" where
  "frame_head fin opcode n =
     chr8 ((if fin then 0x80 else 0x00) OR (opcode AND 0x0F)) #
     (if n \<le> 125 then [char_of n]
      else if n \<le> 0xFFFF then [char_of (126 :: nat), char_of (n div 2 ^ 8), char_of n]
      else char_of (127 :: nat) # map (\<lambda>shift. char_of (n div 2 ^ shift)) [56, 48, 40, 32, 24, 16, 8, 0])"

definition write_frame :: "'s stream_ops \<Rightarrow> bool \<Rightarrow> byte \<Rightarrow> string \<Rightarrow> 's ws_connection \<Rightarrow> 's ws_connection option" where
  "write_frame ops fin opcode data c =
     Option.bind (write_all ops (frame_head fin opcode (length data)) (ws_wire c))
       (\<lambda>w. map_option (\<lambda>w. c\<lparr>ws_wire := w\<rparr>) (if data \<noteq> [] then write_all ops data w else Some w))"

section \<open>Messages\<close>

definition ws_close :: "'s stream_ops \<Rightarrow> nat \<Rightarrow> string \<Rightarrow> 's ws_connection \<Rightarrow> 's ws_connection option" where
  "ws_close ops code reason c =
     (if ws_closed c then Some c
      else map_option (\<lambda>c. c\<lparr>ws_closed := True\<rparr>)
        (write_frame ops True opcode_close (char_of (code div 2 ^ 8) # char_of code # reason) c))"

partial_function (option) receive_loop ::
  "'s stream_ops \<Rightarrow> string \<Rightarrow> byte option \<Rightarrow> 's ws_connection \<Rightarrow> (message option \<times> 's ws_connection) option" where
  "receive_loop ops accumulated message_opcode c =
     (if ws_closed c then Some (None, c)
      else Option.bind (read_frame ops c)
        (\<lambda>(f, c). case f of
           None \<Rightarrow> Some (None, c\<lparr>ws_closed := True\<rparr>)
         | Some f \<Rightarrow>
             if fr_opcode f = opcode_close then
               map_option (\<lambda>c. (None, c\<lparr>ws_closed := True\<rparr>)) (write_frame ops True opcode_close (fr_payload f) c)
             else if fr_opcode f = opcode_ping then
               Option.bind (write_frame ops True opcode_pong (fr_payload f) c) (receive_loop ops accumulated message_opcode)
             else if fr_opcode f = opcode_pong then receive_loop ops accumulated message_opcode c
             else if fr_opcode f = opcode_continuation \<and> message_opcode = None then
               map_option (Pair None) (ws_close ops 1002 ''unexpected continuation frame'' c)
             else if fr_opcode f \<noteq> opcode_continuation \<and> fr_opcode f \<noteq> opcode_text \<and> fr_opcode f \<noteq> opcode_binary then
               map_option (Pair None) (ws_close ops 1002 ''unsupported opcode'' c)
             else
               let (accumulated, opcode) =
                     (if fr_opcode f = opcode_continuation then (accumulated @ fr_payload f, the message_opcode)
                      else (fr_payload f, fr_opcode f))
               in if fr_fin f
                  then Some (Some \<lparr>msg_type = (if opcode = opcode_text then TextMessage else BinaryMessage), msg_data = accumulated\<rparr>, c)
                  else receive_loop ops accumulated (Some opcode) c))"

definition ws_receive :: "'s stream_ops \<Rightarrow> 's ws_connection \<Rightarrow> (message option \<times> 's ws_connection) option" where
  "ws_receive ops c = receive_loop ops [] None c"

definition send_text :: "'s stream_ops \<Rightarrow> string \<Rightarrow> 's ws_connection \<Rightarrow> 's ws_connection option" where
  "send_text ops data c = write_frame ops True opcode_text data c"

definition send_binary :: "'s stream_ops \<Rightarrow> string \<Rightarrow> 's ws_connection \<Rightarrow> 's ws_connection option" where
  "send_binary ops data c = write_frame ops True opcode_binary data c"

section \<open>Frames as a client sends them\<close>

definition len_field :: "bool \<Rightarrow> nat \<Rightarrow> string" where
  "len_field masked n =
     (let m = (if masked then 128 else 0)
      in if n \<le> 125 then [char_of (m + n)]
         else if n \<le> 0xFFFF then char_of (m + 126) # map (\<lambda>i. char_of (n div 256 ^ i)) (rev [0..<2])
         else char_of (m + 127) # map (\<lambda>i. char_of (n div 256 ^ i)) (rev [0..<8]))"

definition frame_text :: "bool \<Rightarrow> byte \<Rightarrow> string option \<Rightarrow> string \<Rightarrow> string" where
  "frame_text fin opcode key payload =
     chr8 ((if fin then 0x80 else 0x00) OR (opcode AND 0x0F)) # len_field (key \<noteq> None) (length payload) @
     (case key of None \<Rightarrow> payload | Some k \<Rightarrow> k @ unmask k payload)"

lemma byte_positions: "rev [0..<2] = [1, 0]" "rev [0..<8] = [7, 6, 5, 4, 3, 2, 1, 0]"
  by (simp_all add: upt_rec)

lemma frame_head_text: "frame_head fin opcode (length data) @ data = frame_text fin opcode None data"
  by (simp add: frame_head_def frame_text_def len_field_def Let_def byte_positions)

lemma be_value_Cons: "be_value (c # cs) = chcode c * 256 ^ length cs + be_value cs"
proof -
  have "foldl (\<lambda>len c. len * 256 + chcode c) v cs = v * 256 ^ length cs + foldl (\<lambda>len c. len * 256 + chcode c) 0 cs" for v
    by (induction cs rule: rev_induct) (simp_all add: algebra_simps)
  from this [of "chcode c"] show ?thesis by (simp add: be_value_def)
qed

lemma be_value_bytes: "be_value (map (\<lambda>i. char_of (n div 256 ^ i)) (rev [0..<k])) = n mod 256 ^ k"
proof (induction k)
  case (Suc k)
  have "n mod (256 ^ k * 256) = 256 ^ k * (n div 256 ^ k mod 256) + n mod 256 ^ k" by (rule mod_mult2_eq)
  with Suc show ?case by (simp add: be_value_Cons mult.commute chcode_def)
qed (simp add: be_value_def)

lemma top_bit: "(w :: byte) AND 0x80 \<noteq> 0 \<longleftrightarrow> bit w 7"
proof -
  have "(0x80 :: byte) = push_bit 7 1" by simp
  then show ?thesis by (simp only: bit_iff_and_push_bit_not_eq_0 [of w 7])
qed

lemma low_bits_mask: "(w :: byte) AND 0x0F = take_bit 4 w" "w AND 0x7F = take_bit 7 w"
  by (simp_all add: take_bit_eq_mask mask_eq_exp_minus_1)

lemma first_byte:
  fixes opcode :: byte
  assumes "opcode AND 0x0F = opcode"
  shows "((if fin then 0x80 else 0x00) OR (opcode AND 0x0F)) AND 0x80 \<noteq> 0 \<longleftrightarrow> fin"
    and "((if fin then 0x80 else 0x00) OR (opcode AND 0x0F)) AND 0x0F = opcode"
proof -
  show "((if fin then 0x80 else 0x00) OR (opcode AND 0x0F)) AND 0x80 \<noteq> 0 \<longleftrightarrow> fin"
    unfolding top_bit low_bits_mask by (simp add: bit_or_iff bit_take_bit_iff)
  show "((if fin then 0x80 else 0x00) OR (opcode AND 0x0F)) AND 0x0F = opcode"
    using assms by (simp add: bit.conj_disj_distrib2)
qed

lemma length_byte:
  assumes "k < 128"
  shows "ord8 (char_of ((if masked then 128 else 0) + k :: nat)) AND 0x80 \<noteq> 0 \<longleftrightarrow> masked"
    and "unat (ord8 (char_of ((if masked then 128 else 0) + k :: nat)) AND 0x7F) = k"
proof -
  define x where "x = (if masked then 128 else 0) + k"
  have "x div 128 = (if masked then 1 else 0)" using assms by (auto simp: x_def intro!: div_nat_eqI)
  then have x: "x < 256" "x mod 128 = k" "odd (x div 128) \<longleftrightarrow> masked" using assms by (auto simp: x_def)
  have w: "ord8 (char_of x) = (of_nat x :: byte)"
  proof -
    have "ord8 (char_of x) = of_nat (of_char (char_of x) :: nat)" by (simp only: ord8_def of_nat_of_char)
    then show ?thesis using x(1) by simp
  qed
  show "ord8 (char_of ((if masked then 128 else 0) + k :: nat)) AND 0x80 \<noteq> 0 \<longleftrightarrow> masked"
    unfolding x_def [symmetric] w top_bit bit_of_nat_iff using x(3) by (simp add: bit_iff_odd)
  have "unat (take_bit 7 (of_nat x :: byte)) = x mod 128"
    by (simp only: take_bit_of_nat) (simp add: unat_of_nat take_bit_eq_mod)
  then show "unat (ord8 (char_of ((if masked then 128 else 0) + k :: nat)) AND 0x7F) = k"
    unfolding x_def [symmetric] w low_bits_mask using x(2) by simp
qed

lemma unmask_unmask: "length k = 4 \<Longrightarrow> unmask k (unmask k payload) = payload"
  by (rule nth_equalityI) (simp_all add: unmask_def nth_enumerate_eq xor.assoc)

lemma length_unmask [simp]: "length (unmask k payload) = length payload"
  by (simp add: unmask_def)

section \<open>Reading a frame\<close>

definition ws_raw :: "('s \<Rightarrow> string) \<Rightarrow> 's ws_connection \<Rightarrow> string" where
  "ws_raw content c = ws_buffer c @ content (ws_wire c)"

definition ws_inv :: "('s \<Rightarrow> string) \<Rightarrow> ('s \<Rightarrow> bool) \<Rightarrow> 's ws_connection \<Rightarrow> bool" where
  "ws_inv content invar c \<longleftrightarrow> invar (ws_wire c) \<and> (ws_eof c \<longrightarrow> content (ws_wire c) = [])"

definition wf_frame :: "byte \<Rightarrow> string option \<Rightarrow> string \<Rightarrow> bool" where
  "wf_frame opcode key payload \<longleftrightarrow> opcode AND 0x0F = opcode \<and> length payload < 2 ^ 64 \<and>
     (case key of None \<Rightarrow> True | Some k \<Rightarrow> length k = 4)"

context duplex
begin

text \<open>Taking bytes that are there leaves the rest, and writes nothing.\<close>

definition reads_to :: "'s ws_connection \<Rightarrow> string \<Rightarrow> 's ws_connection \<Rightarrow> bool" where
  "reads_to c rest c' \<longleftrightarrow> ws_inv content invar c' \<and> ws_raw content c' = rest \<and> ws_closed c' = ws_closed c \<and>
     sent (ws_wire c') = sent (ws_wire c)"

lemma ws_read_exact_ok:
  "ws_inv content invar c \<Longrightarrow> ws_raw content c = bs @ rest \<Longrightarrow> length bs = n \<Longrightarrow>
   \<exists>c'. ws_read_exact ops n c = Some (Some bs, c') \<and> reads_to c rest c'"
proof (induction "length (content (ws_wire c))" arbitrary: c rule: less_induct)
  case less
  show ?case
  proof (cases "length (ws_buffer c) < n")
    case False
    have "take n (ws_raw content c) = bs" "drop n (ws_raw content c) = rest" using less.prems(2,3) by simp_all
    with False have "take n (ws_buffer c) = bs" "drop n (ws_buffer c) @ content (ws_wire c) = rest"
      by (simp_all add: ws_raw_def)
    with False less.prems show ?thesis
      by (subst ws_read_exact.simps) (simp add: reads_to_def ws_inv_def ws_raw_def)
  next
    case True
    have inv: "invar (ws_wire c)" using less.prems(1) by (simp add: ws_inv_def)
    have ne: "content (ws_wire c) \<noteq> []" using True less.prems(2,3) by (auto simp: ws_raw_def)
    then have eof: "\<not> ws_eof c" using less.prems(1) by (auto simp: ws_inv_def)
    obtain chunk w where r: "st_read ops 4096 (ws_wire c) = Some (chunk, w)" "content (ws_wire c) = chunk @ content w"
      "content (ws_wire c) = [] \<longleftrightarrow> chunk = []" "invar w"
      using readE [OF inv, of 4096] by (metis zero_less_numeral)
    let ?c = "c\<lparr>ws_wire := w, ws_buffer := ws_buffer c @ chunk\<rparr>"
    have step: "ws_read_exact ops n c = ws_read_exact ops n ?c"
      using True eof r(1,3) ne by (subst ws_read_exact.simps) (simp add: ws_fill_more_def)
    have "ws_inv content invar ?c" "ws_raw content ?c = bs @ rest"
      using less.prems(2) r(2,4) eof by (simp_all add: ws_inv_def ws_raw_def)
    moreover have "length (content (ws_wire ?c)) < length (content (ws_wire c))" using r(2,3) ne by simp
    ultimately obtain c' where c': "ws_read_exact ops n ?c = Some (Some bs, c')" "reads_to ?c rest c'"
      using less.hyps less.prems(3) by blast
    moreover have "sent w = sent (ws_wire c)" using read_sent [OF inv r(1)] .
    ultimately have "reads_to c rest c'" by (simp add: reads_to_def)
    with step c'(1) show ?thesis by auto
  qed
qed

lemma or_closed_read:
  assumes "ws_inv content invar c" "ws_raw content c = bs @ rest" "length bs = n"
    and "\<And>c'. reads_to c rest c' \<Longrightarrow> \<exists>x c''. f bs c' = Some (x, c'') \<and> P x c''"
  shows "\<exists>x c''. or_closed (ws_read_exact ops n c) f = Some (x, c'') \<and> P x c''"
  using ws_read_exact_ok [OF assms(1-3)] assms(4) by (auto simp: or_closed_def)

text \<open>The frame a text holds is the frame that is read.\<close>

lemma reads_to_trans: "reads_to c rest c' \<Longrightarrow> reads_to c' rest' c'' \<Longrightarrow> reads_to c rest' c''"
  by (simp add: reads_to_def)

lemma read_payload_ok:
  assumes "ws_inv content invar c" "ws_raw content c = (case key of None \<Rightarrow> payload | Some k \<Rightarrow> unmask k payload) @ rest"
    "\<forall>k. key = Some k \<longrightarrow> length k = 4"
  shows "\<exists>x c'. read_payload ops fin opcode key (length payload) c = Some (x, c') \<and>
    x = Some \<lparr>fr_fin = fin, fr_opcode = opcode, fr_payload = payload\<rparr> \<and> reads_to c rest c'"
proof (cases "payload = []")
  case True
  then have "ws_raw content c = rest" using assms(2) by (simp add: unmask_def split: option.splits)
  with True assms(1) show ?thesis by (simp add: read_payload_def reads_to_def)
next
  case False
  let ?data = "case key of None \<Rightarrow> payload | Some k \<Rightarrow> unmask k payload"
  have "length ?data = length payload" by (simp split: option.splits)
  moreover have "(case key of None \<Rightarrow> ?data | Some k \<Rightarrow> unmask k ?data) = payload"
    using assms(3) by (simp add: unmask_unmask split: option.splits)
  moreover have "0 < length payload" using False by simp
  ultimately show ?thesis
    unfolding read_payload_def by (simp only: if_True) (rule or_closed_read [OF assms(1,2)]; simp)
qed

lemma read_key_payload_ok:
  assumes "ws_inv content invar c"
    "ws_raw content c = (case key of None \<Rightarrow> payload | Some k \<Rightarrow> k @ unmask k payload) @ rest" "\<forall>k. key = Some k \<longrightarrow> length k = 4"
  shows "\<exists>x c'. read_key_payload ops fin opcode (key \<noteq> None) (length payload) c = Some (x, c') \<and>
    x = Some \<lparr>fr_fin = fin, fr_opcode = opcode, fr_payload = payload\<rparr> \<and> reads_to c rest c'"
proof (cases key)
  case None
  then show ?thesis using read_payload_ok [where key = None and c = c and payload = payload and rest = rest] assms by (simp add: read_key_payload_def)
next
  case (Some k)
  have "\<exists>x c''. read_payload ops fin opcode (Some k) (length payload) c' = Some (x, c'') \<and>
      x = Some \<lparr>fr_fin = fin, fr_opcode = opcode, fr_payload = payload\<rparr> \<and> reads_to c rest c''"
    if "reads_to c (unmask k payload @ rest) c'" for c'
    using read_payload_ok [where c = c' and key = "Some k" and payload = payload and rest = rest and fin = fin and opcode = opcode] that assms(3) Some reads_to_trans [OF that]
    by (fastforce simp: reads_to_def)
  moreover have "ws_raw content c = k @ unmask k payload @ rest" "length k = 4" using assms Some by simp_all
  ultimately show ?thesis
    unfolding read_key_payload_def Some by (simp only: if_True option.distinct simp_thms) (rule or_closed_read [OF assms(1)]; simp)
qed

lemma read_frame_ok:
  assumes inv: "ws_inv content invar c" and raw: "ws_raw content c = frame_text fin opcode key payload @ rest"
    and wf: "wf_frame opcode key payload"
  shows "\<exists>c'. read_frame ops c = Some (Some \<lparr>fr_fin = fin, fr_opcode = opcode, fr_payload = payload\<rparr>, c') \<and> reads_to c rest c'"
proof -
  define b0 where "b0 = (if fin then 0x80 else 0x00) OR (opcode AND 0x0F)"
  have op: "b0 AND 0x80 \<noteq> 0 \<longleftrightarrow> fin" "b0 AND 0x0F = opcode"
    using first_byte [of opcode fin] wf by (simp_all add: wf_frame_def b0_def)
  let ?data = "(case key of None \<Rightarrow> payload | Some k \<Rightarrow> k @ unmask k payload) @ rest"
  let ?n = "length payload" and ?m = "(if key \<noteq> None then 128 else 0) :: nat"
  let ?P = "\<lambda>x c'. x = Some \<lparr>fr_fin = fin, fr_opcode = opcode, fr_payload = payload\<rparr> \<and> reads_to c rest c'"
  have key: "\<forall>k. key = Some k \<longrightarrow> length k = 4" using wf by (auto simp: wf_frame_def)
  have payload: "\<exists>x c''. read_key_payload ops fin opcode (key \<noteq> None) ?n c' = Some (x, c'') \<and> ?P x c''"
    if "reads_to c ?data c'" for c'
    using read_key_payload_ok [where c = c' and key = key and payload = payload and rest = rest and fin = fin and opcode = opcode]
      that key reads_to_trans [OF that] by (fastforce simp: reads_to_def)
  define K where "K code c' = (if code = 126 then or_closed (ws_read_exact ops 2 c') (\<lambda>ext c. read_key_payload ops fin opcode (key \<noteq> None) (be_value ext) c)
    else if code = 127 then or_closed (ws_read_exact ops 8 c') (\<lambda>ext c. read_key_payload ops fin opcode (key \<noteq> None) (be_value ext) c)
    else read_key_payload ops fin opcode (key \<noteq> None) code c')" for code c'
  have ext: "\<exists>x c''. or_closed (ws_read_exact ops k c') (\<lambda>ext c. read_key_payload ops fin opcode (key \<noteq> None) (be_value ext) c) = Some (x, c'') \<and> ?P x c''"
    if "reads_to c (ext @ ?data) c'" "length ext = k" "be_value ext = ?n" for k ext c'
    using that(1) payload by (intro or_closed_read [OF _ _ that(2), of _ ?data]) (auto simp: that(3) reads_to_def)
  obtain code ext where code: "len_field (key \<noteq> None) ?n = char_of (?m + code) # ext" "code < 128"
    "\<And>c'. reads_to c (ext @ ?data) c' \<Longrightarrow> \<exists>x c''. K code c' = Some (x, c'') \<and> ?P x c''"
  proof -
    let ?e = "\<lambda>k. map (\<lambda>i. char_of (?n div 256 ^ i)) (rev [0..<k])"
    consider "?n \<le> 125" | "125 < ?n" "?n \<le> 0xFFFF" | "0xFFFF < ?n" by linarith
    then show thesis
    proof cases
      case 1
      then show ?thesis using payload by (intro that [of ?n "[]"]) (simp_all add: len_field_def K_def)
    next
      case 2
      then have "be_value (?e 2) = ?n" by (simp only: be_value_bytes) simp
      then show ?thesis using 2 ext [of "?e 2" _ 2] by (intro that [of 126 "?e 2"]) (simp_all add: len_field_def K_def)
    next
      case 3
      have "be_value (?e 8) = ?n" using wf by (simp only: be_value_bytes wf_frame_def) simp
      then show ?thesis using 3 ext [of "?e 8" _ 8] by (intro that [of 127 "?e 8"]) (simp_all add: len_field_def K_def)
    qed
  qed
  have raw': "ws_raw content c = [chr8 b0, char_of (?m + code)] @ ext @ ?data"
    unfolding raw frame_text_def code(1) b0_def by simp
  note len = length_byte [OF code(2), of "key \<noteq> None"]
  have "\<exists>x c''. read_frame ops c = Some (x, c'') \<and> ?P x c''"
    unfolding read_frame_def
  proof (rule or_closed_read [OF inv raw'], goal_cases)
    case (2 c')
    from code(3) [OF 2] show ?case
      by (simp only: K_def Let_def nth_Cons_0 nth_Cons_Suc One_nat_def ord8_chr8 op len)
  qed simp
  then show ?thesis by auto
qed

end

section \<open>Fragmented messages\<close>

text \<open>What may come between the first and the last fragment of a message.\<close>

datatype ws_item = ItemPing string | ItemPong string | ItemMore string

fun item_frame :: "string option \<times> ws_item \<Rightarrow> bool \<times> byte \<times> string option \<times> string" where
  "item_frame (key, ItemPing p) = (True, opcode_ping, key, p)"
| "item_frame (key, ItemPong p) = (True, opcode_pong, key, p)"
| "item_frame (key, ItemMore p) = (False, opcode_continuation, key, p)"

definition item_text :: "string option \<times> ws_item \<Rightarrow> string" where
  "item_text i = (case item_frame i of (fin, opcode, key, p) \<Rightarrow> frame_text fin opcode key p)"

definition wf_item :: "string option \<times> ws_item \<Rightarrow> bool" where
  "wf_item i \<longleftrightarrow> (case item_frame i of (fin, opcode, key, p) \<Rightarrow> wf_frame opcode key p)"

fun item_data :: "string option \<times> ws_item \<Rightarrow> string" where
  "item_data (_, ItemMore p) = p"
| "item_data _ = []"

fun item_answer :: "string option \<times> ws_item \<Rightarrow> string" where
  "item_answer (_, ItemPing p) = frame_text True opcode_pong None p"
| "item_answer _ = []"

definition message_of :: "byte \<Rightarrow> string \<Rightarrow> message" where
  "message_of opcode data = \<lparr>msg_type = (if opcode = opcode_text then TextMessage else BinaryMessage), msg_data = data\<rparr>"

context duplex
begin

text \<open>A connection that has come to \<open>rest\<close> on the wire and has sent \<open>out\<close> since.\<close>

definition moves_to :: "'s ws_connection \<Rightarrow> string \<Rightarrow> string \<Rightarrow> 's ws_connection \<Rightarrow> bool" where
  "moves_to c rest out c' \<longleftrightarrow> ws_inv content invar c' \<and> ws_raw content c' = rest \<and> ws_closed c' = ws_closed c \<and>
     sent (ws_wire c') = sent (ws_wire c) @ out"

lemma write_frame_ok:
  assumes "ws_inv content invar c"
  shows "\<exists>c'. write_frame ops fin opcode data c = Some c' \<and> moves_to c (ws_raw content c) (frame_text fin opcode None data) c'"
proof -
  have inv: "invar (ws_wire c)" using assms by (simp add: ws_inv_def)
  obtain w where w: "write_all ops (frame_head fin opcode (length data)) (ws_wire c) = Some w"
    "sent w = sent (ws_wire c) @ frame_head fin opcode (length data)" "invar w"
    using write_all_sends [OF inv] by blast
  obtain w' where w': "write_all ops data w = Some w'" "sent w' = sent w @ data" "invar w'"
    using write_all_sends [OF w(3)] by blast
  have "data = [] \<Longrightarrow> w' = w" using w'(1) by (subst (asm) write_all.simps) simp
  moreover have "content w' = content (ws_wire c)"
    using write_all_content [OF inv w(1)] write_all_content [OF w(3) w'(1)] by simp
  moreover have "sent w' = sent (ws_wire c) @ frame_text fin opcode None data"
    using w(2) w'(2) by (simp flip: frame_head_text)
  ultimately show ?thesis
    using w(1,3) w'(1,3) assms by (auto simp: write_frame_def moves_to_def ws_inv_def ws_raw_def)
qed

lemma receive_rest:
  assumes "\<not> ws_closed c" "ws_inv content invar c" "opcode = opcode_text \<or> opcode = opcode_binary"
    and "ws_raw content c = concat (map item_text items) @ frame_text True opcode_continuation key p @ rest"
    and "\<forall>i \<in> set items. wf_item i" "wf_frame opcode_continuation key p"
  shows "\<exists>c'. receive_loop ops acc (Some opcode) c = Some (Some (message_of opcode (acc @ concat (map item_data items) @ p)), c') \<and>
    moves_to c rest (concat (map item_answer items)) c'"
  using assms(1,2,4,5)
proof (induction items arbitrary: c acc)
  case Nil
  obtain c' where c': "read_frame ops c = Some (Some \<lparr>fr_fin = True, fr_opcode = opcode_continuation, fr_payload = p\<rparr>, c')"
    "reads_to c rest c'"
    using read_frame_ok [OF Nil(2), of True opcode_continuation key p rest] Nil(3) assms(6) by auto
  with Nil(1) show ?case
    by (subst receive_loop.simps) (simp add: opcode_defs message_of_def moves_to_def reads_to_def)
next
  case (Cons i items)
  obtain fin op k q where i: "item_frame i = (fin, op, k, q)" by (metis prod_cases4)
  let ?rest = "concat (map item_text items) @ frame_text True opcode_continuation key p @ rest"
  have "item_text i = frame_text fin op k q" "wf_frame op k q" using Cons.prems(4) i by (simp_all add: item_text_def wf_item_def)
  then obtain c1 where c1: "read_frame ops c = Some (Some \<lparr>fr_fin = fin, fr_opcode = op, fr_payload = q\<rparr>, c1)" "reads_to c ?rest c1"
    using read_frame_ok [OF Cons.prems(2), of fin op k q ?rest] Cons.prems(3) by auto
  have r1: "\<not> ws_closed c1" "ws_inv content invar c1" "ws_raw content c1 = ?rest" "\<forall>i \<in> set items. wf_item i"
    using c1(2) Cons.prems by (simp_all add: reads_to_def)
  obtain key' x where ix: "i = (key', x)" by force
  show ?case
  proof (cases x)
    case (ItemPing q')
    obtain c2 where c2: "write_frame ops True opcode_pong q c1 = Some c2" "moves_to c1 ?rest (frame_text True opcode_pong None q) c2"
      using write_frame_ok [OF r1(2)] r1(3) by metis
    have "\<not> ws_closed c2" "ws_inv content invar c2" "ws_raw content c2 = ?rest" using c2(2) r1(1) by (simp_all add: moves_to_def)
    from Cons.IH [OF this r1(4), of acc] obtain c' where "receive_loop ops acc (Some opcode) c2 =
        Some (Some (message_of opcode (acc @ concat (map item_data items) @ p)), c')" "moves_to c2 rest (concat (map item_answer items)) c'" by blast
    with c1 c2 Cons.prems(1) i ix ItemPing show ?thesis
      by (subst receive_loop.simps) (auto simp: opcode_defs moves_to_def reads_to_def)
  next
    case (ItemPong q')
    from Cons.IH [OF r1, of acc] obtain c' where "receive_loop ops acc (Some opcode) c1 =
        Some (Some (message_of opcode (acc @ concat (map item_data items) @ p)), c')" "moves_to c1 rest (concat (map item_answer items)) c'" by blast
    with c1 Cons.prems(1) i ix ItemPong show ?thesis
      by (subst receive_loop.simps) (auto simp: opcode_defs moves_to_def reads_to_def)
  next
    case (ItemMore q')
    from Cons.IH [OF r1, of "acc @ q"] obtain c' where "receive_loop ops (acc @ q) (Some opcode) c1 =
        Some (Some (message_of opcode ((acc @ q) @ concat (map item_data items) @ p)), c')" "moves_to c1 rest (concat (map item_answer items)) c'" by blast
    with c1 Cons.prems(1) i ix ItemMore show ?thesis
      by (subst receive_loop.simps) (auto simp: opcode_defs moves_to_def reads_to_def)
  qed
qed

lemma receive_message:
  assumes c: "\<not> ws_closed c" "ws_inv content invar c" and op: "opcode = opcode_text \<or> opcode = opcode_binary"
    and raw: "ws_raw content c = frame_text False opcode key0 p0 @ concat (map item_text items) @
      frame_text True opcode_continuation key p @ rest"
    and wf: "wf_frame opcode key0 p0" "\<forall>i \<in> set items. wf_item i" "wf_frame opcode_continuation key p"
  shows "\<exists>c'. ws_receive ops c = Some (Some (message_of opcode (p0 @ concat (map item_data items) @ p)), c') \<and>
    moves_to c rest (concat (map item_answer items)) c'"
proof -
  let ?rest = "concat (map item_text items) @ frame_text True opcode_continuation key p @ rest"
  obtain c1 where c1: "read_frame ops c = Some (Some \<lparr>fr_fin = False, fr_opcode = opcode, fr_payload = p0\<rparr>, c1)" "reads_to c ?rest c1"
    using read_frame_ok [OF c(2) raw wf(1)] by auto
  then have "\<not> ws_closed c1" "ws_inv content invar c1" "ws_raw content c1 = ?rest" using c by (simp_all add: reads_to_def)
  from receive_rest [OF this(1,2) op this(3) wf(2,3), of p0] c1 c(1) op show ?thesis
    unfolding ws_receive_def by (subst receive_loop.simps) (auto simp: opcode_defs moves_to_def reads_to_def)
qed

lemma receive_single:
  assumes c: "\<not> ws_closed c" "ws_inv content invar c" and op: "opcode = opcode_text \<or> opcode = opcode_binary"
    and raw: "ws_raw content c = frame_text True opcode key p @ rest" and wf: "wf_frame opcode key p"
  shows "\<exists>c'. ws_receive ops c = Some (Some (message_of opcode p), c') \<and> moves_to c rest [] c'"
proof -
  obtain c1 where "read_frame ops c = Some (Some \<lparr>fr_fin = True, fr_opcode = opcode, fr_payload = p\<rparr>, c1)" "reads_to c rest c1"
    using read_frame_ok [OF c(2) raw wf] by auto
  with c(1) op show ?thesis
    unfolding ws_receive_def by (subst receive_loop.simps) (auto simp: opcode_defs message_of_def moves_to_def reads_to_def)
qed

text \<open>Every read returns, also when the wire ends inside a frame.\<close>

lemma ws_read_exact_total:
  "ws_inv content invar c \<Longrightarrow>
   \<exists>x c'. ws_read_exact ops n c = Some (x, c') \<and> ws_inv content invar c' \<and> ws_closed c' = ws_closed c \<and>
     length (ws_raw content c') + (if x = None then 0 else n) \<le> length (ws_raw content c)"
proof (induction "length (content (ws_wire c))" arbitrary: c rule: less_induct)
  case less
  show ?case
  proof (cases "length (ws_buffer c) < n")
    case False
    with less.prems show ?thesis by (subst ws_read_exact.simps) (simp add: ws_inv_def ws_raw_def)
  next
    case True
    have inv: "invar (ws_wire c)" using less.prems(1) by (simp add: ws_inv_def)
    obtain chunk w where r: "st_read ops 4096 (ws_wire c) = Some (chunk, w)" "content (ws_wire c) = chunk @ content w"
      "content (ws_wire c) = [] \<longleftrightarrow> chunk = []" "invar w"
      using readE [OF inv, of 4096] by (metis zero_less_numeral)
    show ?thesis
    proof (cases "ws_eof c \<or> chunk = []")
      case stop: True
      then show ?thesis
        using True less.prems r by (subst ws_read_exact.simps) (auto simp: ws_fill_more_def ws_inv_def ws_raw_def)
    next
      case False
      let ?c = "c\<lparr>ws_wire := w, ws_buffer := ws_buffer c @ chunk\<rparr>"
      have "ws_read_exact ops n c = ws_read_exact ops n ?c"
        using True False r(1) by (subst ws_read_exact.simps) (simp add: ws_fill_more_def)
      moreover have "ws_inv content invar ?c" "ws_raw content ?c = ws_raw content c"
        using r False by (simp_all add: ws_inv_def ws_raw_def)
      ultimately show ?thesis using less.hyps [of ?c] r(2) False by simp
    qed
  qed
qed

lemma or_closed_total:
  assumes "ws_inv content invar c"
    and f: "\<And>bs c'. \<lbrakk>ws_inv content invar c'; ws_closed c' = ws_closed c\<rbrakk> \<Longrightarrow>
      \<exists>x c''. f bs c' = Some (x, c'') \<and> ws_inv content invar c'' \<and> ws_closed c'' = ws_closed c \<and>
        length (ws_raw content c'') \<le> length (ws_raw content c')"
  shows "\<exists>x c''. or_closed (ws_read_exact ops n c) f = Some (x, c'') \<and> ws_inv content invar c'' \<and> ws_closed c'' = ws_closed c \<and>
    length (ws_raw content c'') + (if x = None then 0 else n) \<le> length (ws_raw content c)"
proof -
  obtain x c' where r: "ws_read_exact ops n c = Some (x, c')" "ws_inv content invar c'" "ws_closed c' = ws_closed c"
    "length (ws_raw content c') + (if x = None then 0 else n) \<le> length (ws_raw content c)"
    using ws_read_exact_total [OF assms(1)] by blast
  show ?thesis
  proof (cases x)
    case (Some bs)
    from f [OF r(2,3), of bs] obtain y c'' where "f bs c' = Some (y, c'')" "ws_inv content invar c''"
      "ws_closed c'' = ws_closed c" "length (ws_raw content c'') \<le> length (ws_raw content c')" by blast
    with r Some show ?thesis by (auto simp: or_closed_def)
  qed (use r in \<open>simp add: or_closed_def\<close>)
qed

lemma read_frame_total:
  assumes "ws_inv content invar c"
  shows "\<exists>f c'. read_frame ops c = Some (f, c') \<and> ws_inv content invar c' \<and> ws_closed c' = ws_closed c \<and>
    length (ws_raw content c') + (if f = None then 0 else 2) \<le> length (ws_raw content c)"
proof -
  have weaken: "\<exists>x c''. m = Some (x, c'') \<and> ws_inv content invar c'' \<and> ws_closed c'' = b \<and> length (ws_raw content c'') \<le> k"
    if "\<exists>x c''. m = Some (x, c'') \<and> ws_inv content invar c'' \<and> ws_closed c'' = b \<and>
      length (ws_raw content c'') + (if x = None then 0 else n) \<le> k"
    for m :: "(raw_frame option \<times> 's ws_connection) option" and b k n
    using that by (metis le_add1 le_trans)
  have payload: "\<exists>x c''. read_payload ops fin opcode key len c' = Some (x, c'') \<and> ws_inv content invar c'' \<and>
      ws_closed c'' = ws_closed c \<and> length (ws_raw content c'') \<le> length (ws_raw content c')"
    if "ws_inv content invar c'" "ws_closed c' = ws_closed c" for fin opcode key len c'
    using that weaken [OF or_closed_total [OF that(1), where n = len]] by (auto simp: read_payload_def)
  have key: "\<exists>x c''. read_key_payload ops fin opcode masked len c' = Some (x, c'') \<and> ws_inv content invar c'' \<and>
      ws_closed c'' = ws_closed c \<and> length (ws_raw content c'') \<le> length (ws_raw content c')"
    if "ws_inv content invar c'" "ws_closed c' = ws_closed c" for fin opcode masked len c'
    using that payload weaken [OF or_closed_total [OF that(1), where n = 4]] by (simp add: read_key_payload_def)
  have ext: "\<exists>x c''. or_closed (ws_read_exact ops n c') (\<lambda>ext c. read_key_payload ops fin opcode masked (be_value ext) c) = Some (x, c'') \<and>
      ws_inv content invar c'' \<and> ws_closed c'' = ws_closed c \<and> length (ws_raw content c'') \<le> length (ws_raw content c')"
    if "ws_inv content invar c'" "ws_closed c' = ws_closed c" for n fin opcode masked c'
    using that key weaken [OF or_closed_total [OF that(1), where n = n]] by simp
  show ?thesis
    unfolding read_frame_def by (rule or_closed_total [OF assms]) (simp add: Let_def ext key)
qed

lemma opcode_distinct:
  "opcode_text \<noteq> opcode_continuation" "opcode_binary \<noteq> opcode_continuation" "opcode_text \<noteq> opcode_binary"
  "opcode_close \<noteq> opcode_continuation" "opcode_close \<noteq> opcode_text" "opcode_close \<noteq> opcode_binary"
  "opcode_ping \<noteq> opcode_continuation" "opcode_ping \<noteq> opcode_text" "opcode_ping \<noteq> opcode_binary" "opcode_ping \<noteq> opcode_close"
  "opcode_pong \<noteq> opcode_continuation" "opcode_pong \<noteq> opcode_text" "opcode_pong \<noteq> opcode_binary" "opcode_pong \<noteq> opcode_close"
  "opcode_pong \<noteq> opcode_ping"
  by (simp_all add: opcode_defs)

lemma receive_total:
  "ws_inv content invar c \<Longrightarrow> \<exists>x. receive_loop ops acc message_opcode c = Some x"
proof (induction "length (ws_raw content c)" arbitrary: c acc message_opcode rule: less_induct)
  case less
  obtain f c1 where c1: "read_frame ops c = Some (f, c1)" "ws_inv content invar c1"
    "length (ws_raw content c1) + (if f = None then 0 else 2) \<le> length (ws_raw content c)"
    using read_frame_total [OF less.prems] by blast
  show ?case
  proof (cases f)
    case None
    with c1 show ?thesis by (subst receive_loop.simps) simp
  next
    case (Some fr)
    then have less1: "length (ws_raw content c1) < length (ws_raw content c)" using c1(3) by simp
    note loop = less.hyps [OF less1 c1(2)]
    have wr: "\<exists>c'. write_frame ops fin op data c1 = Some c' \<and> ws_inv content invar c' \<and> ws_raw content c' = ws_raw content c1" for fin op data
      using write_frame_ok [OF c1(2), of fin op data] by (auto simp: moves_to_def)
    have pong: "\<exists>c' x. write_frame ops True opcode_pong data c1 = Some c' \<and> receive_loop ops acc message_opcode c' = Some x" for data
      using wr [of True opcode_pong data] less.hyps less1 by metis
    have close: "\<exists>c'. ws_close ops code reason c1 = Some c'" for code reason
      using wr [of True opcode_close "char_of (code div 2 ^ 8) # char_of code # reason"] by (auto simp: ws_close_def)
    obtain c2 where c2: "write_frame ops True opcode_close (fr_payload fr) c1 = Some c2"
      using wr by blast
    obtain c3 x3 where c3: "write_frame ops True opcode_pong (fr_payload fr) c1 = Some c3" "receive_loop ops acc message_opcode c3 = Some x3"
      using pong by blast
    obtain c4 c5 where c4: "ws_close ops 1002 ''unexpected continuation frame'' c1 = Some c4" "ws_close ops 1002 ''unsupported opcode'' c1 = Some c5"
      using close by blast
    have l: "receive_loop ops acc' message_opcode' c1 \<noteq> None" for acc' message_opcode'
      using loop by blast
    have "receive_loop ops acc message_opcode c \<noteq> None"
      by (subst receive_loop.simps) (simp add: c1(1) Some c2 c3 c4 l Let_def case_prod_beta del: not_None_eq not_Some_eq)
    then show ?thesis by blast
  qed
qed

end

section \<open>Properties\<close>

text \<open>
  C16. A fragmented message is reassembled: from the first fragment, any run of continuation, ping
  and pong frames, masked or not, and the last fragment, in any segmentation of the wire,
  \<open>receive\<close> returns the concatenated data as one message, has answered every ping in order with
  a pong of the same payload, and leaves the wire at the next frame.
\<close>
theorem ws_message_reassembly:
  assumes "duplex ops content invar sent" "invar wire"
    and "initial_buffer @ content wire =
      frame_text False opcode key0 p0 @ concat (map item_text items) @ frame_text True opcode_continuation key p @ rest"
    and "opcode = opcode_text \<or> opcode = opcode_binary"
    and "wf_frame opcode key0 p0" "\<forall>i \<in> set items. wf_item i" "wf_frame opcode_continuation key p"
  shows "\<exists>c. ws_receive ops (ws_connection_of wire initial_buffer) =
      Some (Some (message_of opcode (p0 @ concat (map item_data items) @ p)), c) \<and>
    ws_raw content c = rest \<and> sent (ws_wire c) = sent wire @ concat (map item_answer items) \<and> \<not> ws_closed c"
proof -
  let ?c = "ws_connection_of wire initial_buffer"
  have "\<not> ws_closed ?c" "ws_inv content invar ?c" "ws_raw content ?c = initial_buffer @ content wire" "ws_wire ?c = wire"
    using assms(2) by (simp_all add: ws_connection_of_def ws_inv_def ws_raw_def)
  with duplex.receive_message [OF assms(1) this(1,2) assms(4) _ assms(5-7)] assms(3) show ?thesis
    by (fastforce simp: duplex.moves_to_def [OF assms(1)])
qed

theorem ws_message_reassembly_witness:
  "\<exists>c. ws_receive socket_ops (ws_connection_of
      \<lparr>rx = [frame_text False opcode_text (Some ''abcd'') ''He'' @ frame_text True opcode_ping (Some ''wxyz'') ''?'',
             frame_text True opcode_continuation (Some ''abcd'') ''llo''], tx = []\<rparr> []) =
     Some (Some \<lparr>msg_type = TextMessage, msg_data = ''Hello''\<rparr>, c) \<and>
   tx (ws_wire c) = frame_text True opcode_pong None ''?''"
proof -
  let ?s = "\<lparr>rx = [frame_text False opcode_text (Some ''abcd'') ''He'' @ frame_text True opcode_ping (Some ''wxyz'') ''?'',
             frame_text True opcode_continuation (Some ''abcd'') ''llo''], tx = []\<rparr>"
  have "\<forall>i \<in> set [(Some ''wxyz'', ItemPing ''?'')]. wf_item i" by (simp add: wf_item_def wf_frame_def opcode_defs)
  moreover have "wf_frame opcode_text (Some ''abcd'') ''He''" "wf_frame opcode_continuation (Some ''abcd'') ''llo''"
    by (simp_all add: wf_frame_def opcode_defs)
  moreover have "socket_inv ?s" by (simp add: frame_text_def)
  ultimately show ?thesis
    using ws_message_reassembly [OF socket.duplex_axioms, of ?s "[]" opcode_text "Some ''abcd''" "''He''" "[(Some ''wxyz'', ItemPing ''?'')]"
        "Some ''abcd''" "''llo''" "[]"]
    by (auto simp: item_text_def message_of_def)
qed

text \<open>
  C32. What one end sends the other receives: the bytes \<open>send_text\<close> and \<open>send_binary\<close> put on a
  wire, whatever of the three length encodings they use, are received as one message with the
  same type and data.
\<close>
theorem ws_send_receive:
  assumes "duplex ops content invar sent" "ws_inv content invar c" "length data < 2 ^ 64"
    and "duplex ops' content' invar' sent'"
  shows "\<exists>d e text_out binary_out.
    send_text ops data c = Some d \<and> sent (ws_wire d) = sent (ws_wire c) @ text_out \<and>
    send_binary ops data c = Some e \<and> sent (ws_wire e) = sent (ws_wire c) @ binary_out \<and>
    (\<forall>c' rest. ws_inv content' invar' c' \<and> \<not> ws_closed c' \<longrightarrow>
       (ws_raw content' c' = text_out @ rest \<longrightarrow>
          (\<exists>d'. ws_receive ops' c' = Some (Some \<lparr>msg_type = TextMessage, msg_data = data\<rparr>, d') \<and> ws_raw content' d' = rest)) \<and>
       (ws_raw content' c' = binary_out @ rest \<longrightarrow>
          (\<exists>d'. ws_receive ops' c' = Some (Some \<lparr>msg_type = BinaryMessage, msg_data = data\<rparr>, d') \<and> ws_raw content' d' = rest)))"
proof -
  have wf: "wf_frame opcode_text None data" "wf_frame opcode_binary None data"
    using assms(3) by (simp_all add: wf_frame_def opcode_defs)
  obtain d e where de: "send_text ops data c = Some d" "sent (ws_wire d) = sent (ws_wire c) @ frame_text True opcode_text None data"
    "send_binary ops data c = Some e" "sent (ws_wire e) = sent (ws_wire c) @ frame_text True opcode_binary None data"
    using duplex.write_frame_ok [OF assms(1,2), of True opcode_text data] duplex.write_frame_ok [OF assms(1,2), of True opcode_binary data]
    by (auto simp: send_text_def send_binary_def duplex.moves_to_def [OF assms(1)])
  have recv: "\<exists>d'. ws_receive ops' c' = Some (Some (message_of op data), d') \<and> ws_raw content' d' = rest"
    if "ws_inv content' invar' c'" "\<not> ws_closed c'" "ws_raw content' c' = frame_text True op None data @ rest"
      "wf_frame op None data" "op = opcode_text \<or> op = opcode_binary" for c' rest op
    using duplex.receive_single [OF assms(4) that(2,1,5,3,4)] by (auto simp: duplex.moves_to_def [OF assms(4)])
  show ?thesis
    using recv [where op = opcode_text] recv [where op = opcode_binary] wf de
    by (intro exI [of _ d] exI [of _ e] exI [of _ "frame_text True opcode_text None data"]
        exI [of _ "frame_text True opcode_binary None data"] conjI allI impI) (auto simp: message_of_def opcode_defs)
qed

theorem ws_send_receive_witness:
  "\<exists>d d'. send_text socket_ops ''Hi'' (ws_connection_of \<lparr>rx = [], tx = []\<rparr> []) = Some d \<and>
    ws_receive socket_ops (ws_connection_of \<lparr>rx = [], tx = []\<rparr> (tx (ws_wire d))) =
      Some (Some \<lparr>msg_type = TextMessage, msg_data = ''Hi''\<rparr>, d')"
proof -
  let ?c = "ws_connection_of \<lparr>rx = [], tx = []\<rparr> []"
  obtain d out where d: "send_text socket_ops ''Hi'' ?c = Some d" "tx (ws_wire d) = tx (ws_wire ?c) @ out"
    "\<forall>c' rest. ws_inv socket_content socket_inv c' \<and> \<not> ws_closed c' \<longrightarrow> ws_raw socket_content c' = out @ rest \<longrightarrow>
      (\<exists>d'. ws_receive socket_ops c' = Some (Some \<lparr>msg_type = TextMessage, msg_data = ''Hi''\<rparr>, d') \<and> ws_raw socket_content d' = rest)"
    using ws_send_receive [OF socket.duplex_axioms, of ?c "''Hi''", OF _ _ socket.duplex_axioms]
    by (simp add: ws_inv_def ws_connection_of_def) metis
  let ?c' = "ws_connection_of \<lparr>rx = [], tx = []\<rparr> (tx (ws_wire d))"
  have "ws_inv socket_content socket_inv ?c'" "\<not> ws_closed ?c'" "ws_raw socket_content ?c' = out @ []"
    using d(2) by (simp_all add: ws_connection_of_def ws_inv_def ws_raw_def)
  with d(1,3) show ?thesis by blast
qed

text \<open>
  C33. \<open>receive\<close> returns on every wire that ends: whatever bytes come, valid frames or not, it
  delivers a message or reports the close, and never reads on for ever.
\<close>
theorem ws_receive_returns:
  assumes "duplex ops content invar sent" "ws_inv content invar c"
  shows "\<exists>x. ws_receive ops c = Some x"
  unfolding ws_receive_def by (rule duplex.receive_total [OF assms])

theorem ws_receive_returns_witness:
  "\<exists>x. ws_receive socket_ops (ws_connection_of \<lparr>rx = [''garbage''], tx = []\<rparr> ''more'') = Some x"
  using ws_receive_returns [OF socket.duplex_axioms, of "ws_connection_of \<lparr>rx = [''garbage''], tx = []\<rparr> ''more''"]
  by (simp add: ws_inv_def ws_connection_of_def)

end
