(* ===== verification/Handshake.thy ===== *)
theory Handshake
  imports Prelude
begin

text \<open>
  \<open>src/src/ws/sha1.cpp\<close> and \<open>src/src/ws/handshake.cpp\<close>: the SHA-1 digest, base64 and the
  \<open>Sec-WebSocket-Accept\<close> value computed from them.  The digest works on 32-bit words whose
  addition wraps.  The padding loop is shown to stop at the padding of FIPS 180-1, the array
  \<open>w\<close> to satisfy the recurrence of its message schedule, and base64 to be undone by a decoder.
\<close>

unbundle bit_operations_syntax

section \<open>\<open>sha1\<close>\<close>

definition rotl :: "u32 \<Rightarrow> nat \<Rightarrow> u32" where
  "rotl v bits = push_bit bits v OR drop_bit (32 - bits) v"

function pad_zeros :: "byte list \<Rightarrow> byte list" where
  "pad_zeros msg = (if length msg mod 64 \<noteq> 56 then pad_zeros (msg @ [0]) else msg)"
  by auto

definition push_length :: "u64 \<Rightarrow> byte list \<Rightarrow> byte list" where
  "push_length bit_length msg = msg @ map (\<lambda>i. ucast (drop_bit (i * 8) bit_length AND 0xFF)) (rev [0..<8])"

text \<open>The words of a chunk: the first 16 are read from the message, the others computed.\<close>

definition chunk_word :: "byte list \<Rightarrow> nat \<Rightarrow> u32" where
  "chunk_word msg p = push_bit 24 (ucast (msg ! p)) OR push_bit 16 (ucast (msg ! (p + 1))) OR
     push_bit 8 (ucast (msg ! (p + 2))) OR ucast (msg ! (p + 3))"

definition schedule_step :: "u32 list \<Rightarrow> nat \<Rightarrow> u32 list" where
  "schedule_step w i = w @ [rotl (w ! (i - 3) XOR w ! (i - 8) XOR w ! (i - 14) XOR w ! (i - 16)) 1]"

definition schedule :: "byte list \<Rightarrow> nat \<Rightarrow> u32 list" where
  "schedule msg chunk = foldl schedule_step (map (\<lambda>i. chunk_word msg (chunk + i * 4)) [0..<16]) [16..<80]"

type_synonym sha_state = "u32 \<times> u32 \<times> u32 \<times> u32 \<times> u32"

definition round_fk :: "nat \<Rightarrow> u32 \<Rightarrow> u32 \<Rightarrow> u32 \<Rightarrow> u32 \<times> u32" where
  "round_fk i b c d =
     (if i < 20 then ((b AND c) OR (NOT b AND d), 0x5A827999)
      else if i < 40 then (b XOR c XOR d, 0x6ED9EBA1)
      else if i < 60 then ((b AND c) OR (b AND d) OR (c AND d), 0x8F1BBCDC)
      else (b XOR c XOR d, 0xCA62C1D6))"

definition sha_round :: "u32 list \<Rightarrow> sha_state \<Rightarrow> nat \<Rightarrow> sha_state" where
  "sha_round w = (\<lambda>(a, b, c, d, e) i.
     let (f, k) = round_fk i b c d;
         temp = rotl a 5 + f + e + k + w ! i
     in (temp, a, rotl b 30, c, d))"

definition sha_chunk :: "byte list \<Rightarrow> nat \<Rightarrow> sha_state \<Rightarrow> sha_state" where
  "sha_chunk msg chunk = (\<lambda>(h0, h1, h2, h3, h4).
     let (a, b, c, d, e) = foldl (sha_round (schedule msg chunk)) (h0, h1, h2, h3, h4) [0..<80]
     in (h0 + a, h1 + b, h2 + c, h3 + d, h4 + e))"

function sha_chunks :: "byte list \<Rightarrow> nat \<Rightarrow> sha_state \<Rightarrow> sha_state" where
  "sha_chunks msg chunk h =
     (if chunk < length msg then sha_chunks msg (chunk + 64) (sha_chunk msg chunk h) else h)"
  by auto

definition put_word :: "u32 \<Rightarrow> byte list" where
  "put_word h = [ucast (drop_bit 24 h AND 0xFF), ucast (drop_bit 16 h AND 0xFF), ucast (drop_bit 8 h AND 0xFF), ucast (h AND 0xFF)]"

lemma pad_left: "r < 64 \<Longrightarrow> (120 - r) mod 64 = (if r \<le> 56 then 56 - r else 120 - r)" for r :: nat
  by (auto simp: le_mod_geq)

lemma pad_left_Suc:
  assumes "n mod 64 \<noteq> 56"
  shows "(120 - n mod 64) mod 64 = Suc ((120 - Suc n mod 64) mod 64)"
proof -
  have "n mod 64 < 64" by simp
  with assms show ?thesis unfolding mod_Suc by (auto simp: pad_left le_mod_geq)
qed

termination pad_zeros
  by (relation "measure (\<lambda>msg. (120 - length msg mod 64) mod 64)") (simp_all add: pad_left_Suc)

termination sha_chunks
  by (relation "measure (\<lambda>(msg, chunk, h). length msg - chunk)") auto

declare pad_zeros.simps [simp del] sha_chunks.simps [simp del]

definition sha1 :: "string \<Rightarrow> byte list" where
  "sha1 data =
     (let msg = bytes_of data;
          bit_length = of_nat (length msg) * 8;
          padded = push_length bit_length (pad_zeros (msg @ [0x80]));
          (h0, h1, h2, h3, h4) = sha_chunks padded 0 (0x67452301, 0xEFCDAB89, 0x98BADCFE, 0x10325476, 0xC3D2E1F0)
      in concat (map put_word [h0, h1, h2, h3, h4]))"

section \<open>\<open>base64_encode\<close> and \<open>compute_accept_key\<close>\<close>

definition base64_table :: string where
  "base64_table = ''ABCDEFGHIJKLMNOPQRSTUVWXYZabcdefghijklmnopqrstuvwxyz0123456789+/''"

definition base64_char :: "u32 \<Rightarrow> nat \<Rightarrow> char" where
  "base64_char n shift = base64_table ! unat (drop_bit shift n AND 0x3F)"

fun base64_encode :: "byte list \<Rightarrow> string" where
  "base64_encode (x # y # z # data) =
     (let n = push_bit 16 (ucast x) OR push_bit 8 (ucast y) OR ucast z
      in [base64_char n 18, base64_char n 12, base64_char n 6, base64_char n 0] @ base64_encode data)"
| "base64_encode [x] =
     (let n = push_bit 16 (ucast x) in [base64_char n 18, base64_char n 12, CHR ''='', CHR ''=''])"
| "base64_encode [x, y] =
     (let n = push_bit 16 (ucast x) OR push_bit 8 (ucast y)
      in [base64_char n 18, base64_char n 12, base64_char n 6, CHR ''=''])"
| "base64_encode [] = []"

definition magic_guid :: string where
  "magic_guid = ''258EAFA5-E914-47DA-95CA-C5AB0DC85B11''"

definition compute_accept_key :: "string \<Rightarrow> string" where
  "compute_accept_key client_key = base64_encode (sha1 (client_key @ magic_guid))"

section \<open>The digest of FIPS 180-1\<close>

text \<open>
  The reference: the padded message is cut into blocks of 64 bytes, the words of a block are given
  by a recurrence, and the functions of a round are choice, parity and majority, written with
  exclusive or.
\<close>

definition fips_pad :: "byte list \<Rightarrow> byte list" where
  "fips_pad msg = msg @ 0x80 # replicate ((119 - length msg mod 64) mod 64) 0 @
     map (\<lambda>i. ucast (drop_bit (8 * (7 - i)) (of_nat (8 * length msg) :: u64))) [0..<8]"

function fips_w :: "byte list \<Rightarrow> nat \<Rightarrow> u32" where
  "fips_w block t =
     (if t < 16 then chunk_word block (4 * t)
      else rotl (fips_w block (t - 3) XOR fips_w block (t - 8) XOR fips_w block (t - 14) XOR fips_w block (t - 16)) 1)"
  by auto
termination by (relation "measure snd") auto

declare fips_w.simps [simp del]

definition fips_f :: "nat \<Rightarrow> u32 \<Rightarrow> u32 \<Rightarrow> u32 \<Rightarrow> u32" where
  "fips_f t x y z =
     (if t < 20 then (x AND y) XOR (NOT x AND z)
      else if t < 40 then x XOR y XOR z
      else if t < 60 then (x AND y) XOR (x AND z) XOR (y AND z)
      else x XOR y XOR z)"

definition fips_k :: "nat \<Rightarrow> u32" where
  "fips_k t = [0x5A827999, 0x6ED9EBA1, 0x8F1BBCDC, 0xCA62C1D6] ! (t div 20)"

fun fips_rounds :: "byte list \<Rightarrow> nat \<Rightarrow> sha_state \<Rightarrow> sha_state" where
  "fips_rounds block 0 h = h"
| "fips_rounds block (Suc t) h =
     (case fips_rounds block t h of (a, b, c, d, e) \<Rightarrow>
        (rotl a 5 + fips_f t b c d + e + fips_k t + fips_w block t, a, rotl b 30, c, d))"

definition fips_block :: "sha_state \<Rightarrow> byte list \<Rightarrow> sha_state" where
  "fips_block h block = (case (h, fips_rounds block 80 h) of ((h0, h1, h2, h3, h4), (a, b, c, d, e)) \<Rightarrow>
     (h0 + a, h1 + b, h2 + c, h3 + d, h4 + e))"

function blocks_of :: "nat \<Rightarrow> 'a list \<Rightarrow> 'a list list" where
  "blocks_of n xs = (if xs = [] \<or> n = 0 then [] else take n xs # blocks_of n (drop n xs))"
  by auto
termination by (relation "measure (\<lambda>(n, xs). length xs)") auto

declare blocks_of.simps [simp del]

definition fips_sha1 :: "string \<Rightarrow> byte list" where
  "fips_sha1 data =
     (case foldl fips_block (0x67452301, 0xEFCDAB89, 0x98BADCFE, 0x10325476, 0xC3D2E1F0)
        (blocks_of 64 (fips_pad (bytes_of data))) of
        (h0, h1, h2, h3, h4) \<Rightarrow> put_word h0 @ put_word h1 @ put_word h2 @ put_word h3 @ put_word h4)"

section \<open>The code computes the reference\<close>

lemma pad_zeros_eq: "pad_zeros msg = msg @ replicate ((120 - length msg mod 64) mod 64) 0"
proof (induction msg rule: pad_zeros.induct)
  case (1 msg)
  show ?case
  proof (cases "length msg mod 64 = 56")
    case False
    with 1 show ?thesis by (subst pad_zeros.simps) (simp add: pad_left_Suc)
  qed (simp add: pad_zeros.simps)
qed

lemma push_length_eq:
  "push_length (of_nat (length msg) * 8) (pad_zeros (msg @ [0x80])) = fips_pad msg"
proof -
  have "(120 - Suc (length msg) mod 64) mod 64 = (119 - length msg mod 64) mod 64"
    by (cases "length msg mod 64 = 63") (simp_all add: mod_Suc)
  moreover have "ucast (drop_bit n (w :: u64) AND mask 8) = (ucast (drop_bit n w) :: byte)" for n w
    by (rule bit_word_eqI) (auto simp: bit_simps)
  then have "ucast (drop_bit n (w :: u64) AND 0xFF) = (ucast (drop_bit n w) :: byte)" for n w
    by (simp add: mask_eq_exp_minus_1)
  moreover have "rev [0..<8] = map (\<lambda>i. 7 - i) [0..<8]" by (simp add: upt_rec)
  ultimately show ?thesis
    by (simp add: push_length_def pad_zeros_eq fips_pad_def mult.commute)
qed

lemma fips_pad_length: "length (fips_pad msg) mod 64 = 0"
proof -
  define q r where "q = length msg div 64" and "r = length msg mod 64"
  have "length msg = 64 * q + r" "r < 64" by (simp_all add: q_def r_def)
  moreover have "length (fips_pad msg) = length msg + 9 + (119 - r) mod 64" by (simp add: fips_pad_def r_def)
  moreover have "(119 - r) mod 64 = (if r < 56 then 55 - r else 119 - r)" by (auto simp: le_mod_geq)
  ultimately have "length (fips_pad msg) = 64 * q + (if r < 56 then 64 else 128)" by (simp split: if_splits)
  then show ?thesis by simp
qed

lemma schedule_prefix:
  assumes "chunk + 64 \<le> length msg"
  defines "block \<equiv> take 64 (drop chunk msg)"
  shows "16 \<le> n \<Longrightarrow> foldl schedule_step (map (\<lambda>i. chunk_word msg (chunk + i * 4)) [0..<16]) [16..<n] = map (fips_w block) [0..<n]"
proof (induction n rule: nat_induct_at_least)
  case base
  have "chunk_word msg (chunk + i * 4) = fips_w block i" if "i < 16" for i
    using that assms by (subst fips_w.simps) (simp add: chunk_word_def block_def mult.commute add.assoc)
  then show ?case by simp
next
  case (Suc n)
  then show ?case by (simp add: schedule_step_def fips_w.simps [of block n])
qed

lemma round_fk_eq: "i < 80 \<Longrightarrow> round_fk i b c d = (fips_f i b c d, fips_k i)"
proof -
  assume "i < 80"
  have choice: "(b AND c) OR (NOT b AND d) = (b AND c) XOR (NOT b AND d)" by (rule bit_word_eqI) (auto simp: bit_simps)
  have majority: "(b AND c) OR (b AND d) OR (c AND d) = (b AND c) XOR (b AND d) XOR (c AND d)"
    by (rule bit_word_eqI) (auto simp: bit_simps)
  have "i div 20 = (if i < 20 then 0 else if i < 40 then 1 else if i < 60 then 2 else 3)"
    using \<open>i < 80\<close> by auto
  then show ?thesis unfolding round_fk_def fips_f_def fips_k_def choice majority by simp
qed

lemma sha_chunk_eq:
  assumes "chunk + 64 \<le> length msg"
  shows "sha_chunk msg chunk h = fips_block h (take 64 (drop chunk msg))"
proof -
  let ?b = "take 64 (drop chunk msg)"
  have sched: "schedule msg chunk = map (fips_w ?b) [0..<80]"
    unfolding schedule_def using schedule_prefix [OF assms, of 80] by simp
  have "n \<le> 80 \<Longrightarrow> foldl (sha_round (schedule msg chunk)) h [0..<n] = fips_rounds ?b n h" for n
  proof (induction n)
    case (Suc n)
    then show ?case by (simp add: sched sha_round_def round_fk_eq Let_def add_ac split: prod.splits)
  qed simp
  from this [of 80] show ?thesis by (cases h) (simp add: sha_chunk_def fips_block_def Let_def split: prod.splits)
qed

lemma sha_chunks_eq:
  "chunk mod 64 = 0 \<Longrightarrow> length msg mod 64 = 0 \<Longrightarrow> sha_chunks msg chunk h = foldl fips_block h (blocks_of 64 (drop chunk msg))"
proof (induction msg chunk h rule: sha_chunks.induct)
  case (1 msg chunk h)
  show ?case
  proof (cases "chunk < length msg")
    case True
    with 1(2,3) have "chunk + 64 \<le> length msg" by presburger
    with True 1 show ?thesis
      by (subst sha_chunks.simps, subst blocks_of.simps) (simp add: sha_chunk_eq add.commute)
  qed (simp add: sha_chunks.simps blocks_of.simps)
qed

lemma sha1_length [simp]: "length (sha1 data) = 20"
  by (simp add: sha1_def put_word_def Let_def split: prod.splits)

lemma sha1_eq: "sha1 data = fips_sha1 data"
  unfolding sha1_def fips_sha1_def Let_def push_length_eq
  by (simp add: sha_chunks_eq fips_pad_length split: prod.splits)

section \<open>Base64 decoding\<close>

text \<open>The reference decoder of RFC 4648, on padded groups of four characters.\<close>

definition base64_value :: "char \<Rightarrow> u32 option" where
  "base64_value c = map_option of_nat (find_char c base64_table)"

definition base64_group :: "char \<Rightarrow> char \<Rightarrow> char \<Rightarrow> char \<Rightarrow> u32 option" where
  "base64_group p q r s =
     (case (base64_value p, base64_value q, base64_value r, base64_value s) of
        (Some a, Some b, Some c, Some d) \<Rightarrow> Some (push_bit 18 a OR push_bit 12 b OR push_bit 6 c OR d)
      | _ \<Rightarrow> None)"

fun base64_decode :: "string \<Rightarrow> byte list option" where
  "base64_decode [] = Some []"
| "base64_decode (p # q # r # s # rest) =
     (if s \<noteq> CHR ''='' then
        Option.bind (base64_group p q r s) (\<lambda>n.
          map_option (append [ucast (drop_bit 16 n), ucast (drop_bit 8 n), ucast n]) (base64_decode rest))
      else if rest \<noteq> [] then None
      else if r \<noteq> CHR ''='' then
        map_option (\<lambda>n. [ucast (drop_bit 16 n), ucast (drop_bit 8 n)]) (base64_group p q r (CHR ''A''))
      else map_option (\<lambda>n. [ucast (drop_bit 16 n)]) (base64_group p q (CHR ''A'') (CHR ''A'')))"
| "base64_decode _ = None"

lemma base64_table_facts: "length base64_table = 64" "distinct base64_table" "CHR ''='' \<notin> set base64_table"
  by (simp_all add: base64_table_def)

lemma find_char_nth: "distinct s \<Longrightarrow> k < length s \<Longrightarrow> find_char (s ! k) s = Some k"
proof (induction s arbitrary: k)
  case (Cons c s)
  then show ?case by (cases k) auto
qed simp

lemma sextet_bound: "unat (drop_bit n (w :: u32) AND 0x3F) < 64"
proof -
  have "drop_bit n w AND 0x3F \<le> 0x3F" by (rule word_and_le1)
  then show ?thesis by (simp add: word_le_nat_alt)
qed

lemma base64_value_char [simp]: "base64_value (base64_char n shift) = Some (drop_bit shift n AND 0x3F)"
  by (simp add: base64_value_def base64_char_def find_char_nth base64_table_facts sextet_bound)

lemma base64_char_not_pad [simp]: "base64_char n shift \<noteq> CHR ''=''"
  using base64_table_facts(1,3) nth_mem [OF sextet_bound [of shift n, folded base64_table_facts(1)]]
  unfolding base64_char_def by metis

lemma base64_value_A: "base64_value (CHR ''A'') = Some 0"
  by (simp add: base64_value_def base64_table_def)

lemma mask6: "(0x3F :: u32) = mask 6" by (simp add: mask_eq_exp_minus_1)

lemma sextets_join:
  "push_bit 18 (drop_bit 18 n AND 0x3F) OR push_bit 12 (drop_bit 12 n AND 0x3F) OR push_bit 6 (drop_bit 6 n AND 0x3F) OR
     (drop_bit 0 n AND 0x3F) = n AND mask 24" for n :: u32
  unfolding mask6
proof (rule bit_word_eqI)
  fix i
  assume "i < LENGTH(32)"
  consider "i < 6" | "6 \<le> i" "i < 12" | "12 \<le> i" "i < 18" | "18 \<le> i" "i < 24" | "24 \<le> i" by linarith
  then show "bit (push_bit 18 (drop_bit 18 n AND mask 6) OR push_bit 12 (drop_bit 12 n AND mask 6) OR
      push_bit 6 (drop_bit 6 n AND mask 6) OR (drop_bit 0 n AND mask 6)) i = bit (n AND mask 24) i"
    by cases (auto simp: bit_simps less_diff_conv2)
qed

lemma group_of_encode [simp]:
  "base64_group (base64_char n 18) (base64_char n 12) (base64_char n 6) (base64_char n 0) = Some (n AND mask 24)"
  unfolding base64_group_def base64_value_char by (simp only: prod.case option.case sextets_join)

lemma group_of_padded:
  "drop_bit 0 n AND 0x3F = 0 \<Longrightarrow>
     base64_group (base64_char n 18) (base64_char n 12) (base64_char n 6) (CHR ''A'') = Some (n AND mask 24)"
  "drop_bit 0 n AND 0x3F = 0 \<Longrightarrow> drop_bit 6 n AND 0x3F = 0 \<Longrightarrow>
     base64_group (base64_char n 18) (base64_char n 12) (CHR ''A'') (CHR ''A'') = Some (n AND mask 24)"
  using sextets_join [of n] unfolding base64_group_def base64_value_char base64_value_A
  by (simp_all only: prod.case option.case)

lemma base64_decode_encode: "base64_decode (base64_encode bs) = Some bs"
proof (induction bs rule: base64_encode.induct)
  case (1 x y z data)
  let ?n = "push_bit 16 (ucast x) OR push_bit 8 (ucast y) OR ucast z :: u32"
  have "ucast (drop_bit 16 (?n AND mask 24)) = x" "ucast (drop_bit 8 (?n AND mask 24)) = y" "ucast (?n AND mask 24) = z"
    by (rule bit_word_eqI; auto simp: bit_simps dest: bit_imp_le_length)+
  with 1 show ?case by (simp add: Let_def)
next
  case (2 x)
  let ?n = "push_bit 16 (ucast x) :: u32"
  have "ucast (drop_bit 16 (?n AND mask 24)) = x" by (rule bit_word_eqI) (auto simp: bit_simps)
  moreover have "drop_bit 0 ?n AND 0x3F = 0" "drop_bit 6 ?n AND 0x3F = 0"
    unfolding mask6 by (rule bit_word_eqI; auto simp: bit_simps)+
  ultimately show ?case by (simp add: Let_def group_of_padded)
next
  case (3 x y)
  let ?n = "push_bit 16 (ucast x) OR push_bit 8 (ucast y) :: u32"
  have "ucast (drop_bit 16 (?n AND mask 24)) = x" "ucast (drop_bit 8 (?n AND mask 24)) = y"
    by (rule bit_word_eqI; auto simp: bit_simps dest: bit_imp_le_length)+
  moreover have "drop_bit 0 ?n AND 0x3F = 0"
    unfolding mask6 by (rule bit_word_eqI) (auto simp: bit_simps)
  ultimately show ?case by (simp add: Let_def group_of_padded)
qed simp

lemma base64_encode_length: "length (base64_encode bs) = 4 * ((length bs + 2) div 3)"
  by (induction bs rule: base64_encode.induct) (simp_all add: Let_def, presburger)

section \<open>Properties\<close>



end
