(* ===== verification/Server.thy ===== *)
theory Server
  imports Http_Resource Http1_Io Route "HOL-Library.Multiset"
begin

text \<open>
  The server's core (\<open>request.hpp\<close>, \<open>response.cpp\<close>, \<open>tag_storage.hpp\<close>, \<open>extension.cpp\<close>,
  \<open>extensions/vpath.cpp\<close>, \<open>extensions/vhost.cpp\<close>).  A handler gets the request by reference, so
  it is a function on an exchange, the request with the application's state, that returns the
  changed exchange with its result; \<open>None\<close> stands for a coroutine that never completes or that
  uses a dangling reference.  An extension is the record of its three virtual functions.  The
  nested registries are values: registration happens before the server runs.
\<close>

section \<open>Tags\<close>

text \<open>
  The types the library stores in a \<open>tag_storage\<close>, and the slot of each.  The owner of a cache is
  the address of the extension that filled it.
\<close>

datatype file_kind = NotFound | RegularFile | Directory | OtherFile

record file_info =
  fi_kind :: file_kind
  fi_size :: int
  fi_mtime :: int

datatype tag =
    VpathTag "string list"
  | RouteMatchTag route_state
  | ResolveCache "nat option" bool "(string \<times> file_info) option"
  | StatCache "nat option" bool "file_info option"

datatype tag_type = TVpath | TRouteMatch | TResolveCache | TStatCache

fun typeid :: "tag \<Rightarrow> tag_type" where
  "typeid (VpathTag _) = TVpath"
| "typeid (RouteMatchTag _) = TRouteMatch"
| "typeid (ResolveCache _ _ _) = TResolveCache"
| "typeid (StatCache _ _ _) = TStatCache"

type_synonym tag_storage = "tag_type \<Rightarrow> tag option"

text \<open>\<open>ensure\<close> leaves an existing slot alone; \<open>tag_put\<close> is an assignment through its result.\<close>

definition tag_ensure :: "tag \<Rightarrow> tag_storage \<Rightarrow> tag_storage" where
  "tag_ensure t slots = (if slots (typeid t) = None then slots(typeid t \<mapsto> t) else slots)"

definition tag_get :: "tag_type \<Rightarrow> tag_storage \<Rightarrow> tag option" where
  "tag_get ty slots = (case slots ty of None \<Rightarrow> None | Some t \<Rightarrow> if typeid t = ty then Some t else None)"

definition tag_has :: "tag_type \<Rightarrow> tag_storage \<Rightarrow> bool" where
  "tag_has ty slots \<longleftrightarrow> slots ty \<noteq> None"

definition tag_clear :: "tag_storage \<Rightarrow> tag_storage" where
  "tag_clear slots = Map.empty"

definition tag_put :: "tag \<Rightarrow> tag_storage \<Rightarrow> tag_storage" where
  "tag_put t slots = slots(typeid t \<mapsto> t)"

section \<open>Requests and responses\<close>

record 'b request =
  rq_resource :: http_resource
  rq_headers :: http_headers
  rq_body :: 'b
  rq_hostname :: string
  rq_tags :: tag_storage

definition rq_method :: "'b request \<Rightarrow> http_method" where "rq_method r = r_method (rq_resource r)"
definition rq_path :: "'b request \<Rightarrow> string" where "rq_path r = r_path (rq_resource r)"

record ('c, 'w) response =
  rs_status :: int
  rs_headers :: http_headers
  rs_body :: "'c option"
  rs_content_length :: int
  rs_upgrade :: "('w \<Rightarrow> string \<Rightarrow> 'w option) option"

text \<open>A response body is any stream: one kept in memory, a window of another, or the handler's own.\<close>

datatype 'r resp_body = MemoryBody memory_stream | WindowBody "'r range_stream" | StreamBody 'r

definition empty_response :: "('c, 'w) response" where
  "empty_response = \<lparr>rs_status = 200, rs_headers = [], rs_body = None, rs_content_length = 0, rs_upgrade = None\<rparr>"

definition make_response :: "int \<Rightarrow> ('c, 'w) response" where
  "make_response status_code = empty_response\<lparr>rs_status := status_code, rs_content_length := 0\<rparr>"

definition make_text_response :: "string \<Rightarrow> string \<Rightarrow> ('r resp_body, 'w) response" where
  "make_text_response text mime =
     empty_response\<lparr>rs_status := 200, rs_headers := headers_set ''Content-Type'' mime [],
       rs_content_length := int (length text), rs_body := Some (MemoryBody (memory_of text))\<rparr>"

definition make_stream_response :: "('c \<Rightarrow> int) \<Rightarrow> 'c option \<Rightarrow> string \<Rightarrow> int \<Rightarrow> ('c, 'w) response" where
  "make_stream_response get_length body mime len =
     empty_response\<lparr>rs_status := 200, rs_headers := headers_set ''Content-Type'' mime [], rs_body := body,
       rs_content_length := (if len \<ge> 0 then len else case body of Some b \<Rightarrow> get_length b | None \<Rightarrow> 0)\<rparr>"

section \<open>Extensions\<close>

type_synonym ('b, 'a) exchange = "'b request \<times> 'a"
type_synonym ('b, 'a, 'x) handler = "('b, 'a) exchange \<Rightarrow> ('x \<times> ('b, 'a) exchange) option"

record ('b, 'a, 'c, 'w) extension =
  ext_priority :: u32
  ext_wants :: "('b, 'a, bool) handler"
  ext_handle :: "('b, 'a, ('c, 'w) response) handler"

type_synonym ('b, 'a, 'c, 'w) registry = "('b, 'a, 'c, 'w) extension list"

text \<open>\<open>std::upper_bound\<close> by priority: the first position whose extension comes after \<open>ext\<close>.\<close>

definition registry_add :: "('b, 'a, 'c, 'w) extension \<Rightarrow> ('b, 'a, 'c, 'w) registry \<Rightarrow> ('b, 'a, 'c, 'w) registry" where
  "registry_add ext exts =
     (let it = partition_point (\<lambda>i. \<not> ext_priority ext < ext_priority (exts ! i)) 0 (length exts)
      in take it exts @ ext # drop it exts)"

fun registry_dispatch :: "('b, 'a, 'c, 'w) registry \<Rightarrow> ('b, 'a, ('c, 'w) response option) handler" where
  "registry_dispatch [] x = Some (None, x)"
| "registry_dispatch (ext # exts) x =
     Option.bind (ext_wants ext x) (\<lambda>(wanted, x).
       if wanted then map_option (\<lambda>(r, x). (Some r, x)) (ext_handle ext x) else registry_dispatch exts x)"

section \<open>\<open>vpath\<close>\<close>

definition path_has_prefix :: "string \<Rightarrow> string \<Rightarrow> bool" where
  "path_has_prefix path prefix0 \<longleftrightarrow>
     (if prefix0 = [] \<or> prefix0 = ''/'' then True
      else let prefix = (if last prefix0 = CHR ''/'' then butlast prefix0 else prefix0) in
        if length path < length prefix \<or> take (length prefix) path \<noteq> prefix then False
        else length path = length prefix \<or> path ! length prefix = CHR ''/'')"

definition subpath_of :: "'b request \<Rightarrow> string" where
  "subpath_of req = (case tag_get TVpath (rq_tags req) of
     Some (VpathTag subpaths) \<Rightarrow> if subpaths \<noteq> [] then last subpaths else rq_path req
   | _ \<Rightarrow> rq_path req)"

record ('b, 'a, 'c, 'w) vpath =
  vp_base_path :: string
  vp_priority :: u32
  vp_registry :: "('b, 'a, 'c, 'w) registry"

definition vpath_of :: "string \<Rightarrow> u32 \<Rightarrow> ('b, 'a, 'c, 'w) vpath" where
  "vpath_of base_path prio =
     \<lparr>vp_base_path = (if length base_path > 1 \<and> last base_path = CHR ''/'' then butlast base_path else base_path),
      vp_priority = prio, vp_registry = []\<rparr>"

definition vpath_extends :: "('b, 'a, 'c, 'w) extension \<Rightarrow> ('b, 'a, 'c, 'w) vpath \<Rightarrow> ('b, 'a, 'c, 'w) vpath" where
  "vpath_extends ext v = v\<lparr>vp_registry := registry_add ext (vp_registry v)\<rparr>"

definition vpath_wants :: "('b, 'a, 'c, 'w) vpath \<Rightarrow> ('b, 'a, bool) handler" where
  "vpath_wants v x = Some (path_has_prefix (subpath_of (fst x)) (vp_base_path v), x)"

definition vpath_on_handle :: "('b, 'a, ('c, 'w) response option) handler" where
  "vpath_on_handle x = Some (None, x)"

text \<open>The stack of remainders, pushed and popped around the nested registry.\<close>

definition push_subpath :: "string \<Rightarrow> ('b, 'a) exchange \<Rightarrow> ('b, 'a) exchange" where
  "push_subpath remainder = (\<lambda>(req, a).
     let tags = tag_ensure (VpathTag []) (rq_tags req) in
     case tag_get TVpath tags of
       Some (VpathTag subpaths) \<Rightarrow> (req\<lparr>rq_tags := tag_put (VpathTag (subpaths @ [remainder])) tags\<rparr>, a)
     | _ \<Rightarrow> (req\<lparr>rq_tags := tags\<rparr>, a))"

definition pop_subpath :: "('b, 'a) exchange \<Rightarrow> ('b, 'a) exchange option" where
  "pop_subpath = (\<lambda>(req, a). case tag_get TVpath (rq_tags req) of
     Some (VpathTag subpaths) \<Rightarrow>
       if subpaths = [] then None
       else Some (req\<lparr>rq_tags := tag_put (VpathTag (butlast subpaths)) (rq_tags req)\<rparr>, a)
   | _ \<Rightarrow> None)"

definition vpath_remainder :: "string \<Rightarrow> string \<Rightarrow> string" where
  "vpath_remainder base_path current =
     (let prefix_len = min (length current) (length base_path); remainder = drop prefix_len current
      in if remainder = [] then ''/'' else remainder)"

definition vpath_handle ::
  "('b, 'a, ('c, 'w) response option) handler \<Rightarrow> ('b, 'a, 'c, 'w) vpath \<Rightarrow> ('b, 'a, ('c, 'w) response) handler" where
  "vpath_handle on_handle v x =
     Option.bind (registry_dispatch (vp_registry v) (push_subpath (vpath_remainder (vp_base_path v) (subpath_of (fst x))) x))
       (\<lambda>(nested, x). Option.bind (case nested of Some r \<Rightarrow> Some (Some r, x) | None \<Rightarrow> on_handle x)
         (\<lambda>(result, x). Option.bind (pop_subpath x)
           (\<lambda>x. Some (case result of Some r \<Rightarrow> r | None \<Rightarrow> make_response 404, x))))"

definition vpath_extension ::
  "('b, 'a, ('c, 'w) response option) handler \<Rightarrow> ('b, 'a, 'c, 'w) vpath \<Rightarrow> ('b, 'a, 'c, 'w) extension" where
  "vpath_extension on_handle v =
     \<lparr>ext_priority = vp_priority v, ext_wants = vpath_wants v, ext_handle = vpath_handle on_handle v\<rparr>"

section \<open>\<open>vhost\<close>\<close>

record ('b, 'a, 'c, 'w) vhost =
  vh_predicate :: "(string \<Rightarrow> bool) option"
  vh_priority :: u32
  vh_registry :: "('b, 'a, 'c, 'w) registry"

definition vhost_of :: "(string \<Rightarrow> bool) option \<Rightarrow> u32 \<Rightarrow> ('b, 'a, 'c, 'w) vhost" where
  "vhost_of predicate prio = \<lparr>vh_predicate = predicate, vh_priority = prio, vh_registry = []\<rparr>"

definition vhost_extends :: "('b, 'a, 'c, 'w) extension \<Rightarrow> ('b, 'a, 'c, 'w) vhost \<Rightarrow> ('b, 'a, 'c, 'w) vhost" where
  "vhost_extends ext v = v\<lparr>vh_registry := registry_add ext (vh_registry v)\<rparr>"

definition vhost_wants :: "('b, 'a, 'c, 'w) vhost \<Rightarrow> ('b, 'a, bool) handler" where
  "vhost_wants v x = Some (case vh_predicate v of Some p \<Rightarrow> p (rq_hostname (fst x)) | None \<Rightarrow> False, x)"

definition vhost_handle :: "('b, 'a, 'c, 'w) vhost \<Rightarrow> ('b, 'a, ('c, 'w) response) handler" where
  "vhost_handle v x =
     map_option (\<lambda>(nested, x). (case nested of Some r \<Rightarrow> r | None \<Rightarrow> make_response 404, x))
       (registry_dispatch (vh_registry v) x)"

definition vhost_extension :: "('b, 'a, 'c, 'w) vhost \<Rightarrow> ('b, 'a, 'c, 'w) extension" where
  "vhost_extension v = \<lparr>ext_priority = vh_priority v, ext_wants = vhost_wants v, ext_handle = vhost_handle v\<rparr>"

definition vhost_for :: "string \<Rightarrow> ('b, 'a, 'c, 'w) vhost" where
  "vhost_for exact_hostname = vhost_of (Some (\<lambda>h. h = exact_hostname)) 0x80000000"

section \<open>The registry is a stable priority order\<close>

lemma registry_add_split:
  assumes "sorted (map ext_priority exts)"
  shows "\<exists>lo hi. exts = lo @ hi \<and> registry_add e exts = lo @ e # hi \<and>
    (\<forall>x \<in> set lo. ext_priority x \<le> ext_priority e) \<and> (\<forall>x \<in> set hi. ext_priority e < ext_priority x)"
proof -
  let ?p = "\<lambda>i. \<not> ext_priority e < ext_priority (exts ! i)"
  let ?it = "partition_point ?p 0 (length exts)"
  have "?p i" if "i \<le> j" "j < length exts" "?p j" for i j
    using sorted_nth_mono [OF assms, of i j] that by (simp add: not_less)
  then have "\<forall>i j. i \<le> j \<longrightarrow> j < length exts \<longrightarrow> ?p j \<longrightarrow> ?p i" by blast
  note it = partition_point_all [OF this]
  have "\<forall>x \<in> set (take ?it exts). ext_priority x \<le> ext_priority e"
    using it by (auto simp: in_set_conv_nth not_less)
  moreover have "\<forall>x \<in> set (drop ?it exts). ext_priority e < ext_priority x"
  proof
    fix x assume "x \<in> set (drop ?it exts)"
    then obtain k where k: "k < length exts - ?it" "x = exts ! (?it + k)" using it(1) by (auto simp: in_set_conv_nth)
    then have "?it + k < length exts" by simp
    from it(2) [OF this] k(2) show "ext_priority e < ext_priority x" by simp
  qed
  ultimately show ?thesis
    unfolding registry_add_def Let_def by (metis append_take_drop_id)
qed

lemma registry_add_sort: "registry_add e (sort_key ext_priority exts) = sort_key ext_priority (exts @ [e])"
proof -
  obtain lo hi where lh: "sort_key ext_priority exts = lo @ hi" "registry_add e (sort_key ext_priority exts) = lo @ e # hi"
    "\<forall>x \<in> set lo. ext_priority x \<le> ext_priority e" "\<forall>x \<in> set hi. ext_priority e < ext_priority x"
    using registry_add_split [of "sort_key ext_priority exts" e] by auto
  have s: "sorted (map ext_priority (lo @ hi))" unfolding lh(1) [symmetric] by simp
  have "sort_key ext_priority (exts @ [e]) = lo @ e # hi"
  proof (rule properties_for_sort_key)
    show "mset (lo @ e # hi) = mset (exts @ [e])"
      using arg_cong [OF lh(1), of mset] by (simp add: union_ac)
    show "filter (\<lambda>x. ext_priority k = ext_priority x) (lo @ e # hi) = filter (\<lambda>x. ext_priority k = ext_priority x) (exts @ [e])"
      if "k \<in> set (lo @ e # hi)" for k
    proof -
      have "filter (\<lambda>x. ext_priority x = ext_priority k) (lo @ hi) = filter (\<lambda>x. ext_priority x = ext_priority k) exts"
        using sort_key_stable [of ext_priority "ext_priority k" exts] lh(1) by simp
      then have "filter (\<lambda>x. ext_priority k = ext_priority x) (lo @ hi) = filter (\<lambda>x. ext_priority k = ext_priority x) exts"
        by (simp only: eq_commute [of "ext_priority k"])
      moreover have "filter (\<lambda>x. ext_priority e = ext_priority x) hi = []" using lh(4) by (auto simp: filter_empty_conv)
      ultimately show ?thesis by (cases "ext_priority k = ext_priority e") auto
    qed
    show "sorted (map ext_priority (lo @ e # hi))" using s lh(3,4) by (auto simp: sorted_append)
  qed
  with lh(2) show ?thesis by simp
qed

lemma registry_adds_sort: "foldl (\<lambda>r e. registry_add e r) [] exts = sort_key ext_priority exts"
  by (induction exts rule: rev_induct) (simp_all add: registry_add_sort)

lemma registry_dispatch_first:
  assumes "\<forall>e \<in> set exts. ext_wants e x = Some (p e, x)"
  shows "registry_dispatch exts x =
    (case filter p exts of [] \<Rightarrow> Some (None, x) | e # _ \<Rightarrow> map_option (\<lambda>(r, x). (Some r, x)) (ext_handle e x))"
  using assms by (induction exts) auto

section \<open>Path prefixes\<close>

lemma path_has_prefix_iff:
  assumes "base \<noteq> []" "last base \<noteq> CHR ''/''"
  shows "path_has_prefix path base \<longleftrightarrow> (\<exists>rest. path = base @ rest \<and> (rest = [] \<or> hd rest = CHR ''/''))"
proof
  assume "path_has_prefix path base"
  then have *: "length base \<le> length path" "take (length base) path = base"
    "length path = length base \<or> path ! length base = CHR ''/''"
    using assms by (auto simp: path_has_prefix_def Let_def split: if_splits)
  let ?rest = "drop (length base) path"
  have "path = base @ ?rest" using *(2) append_take_drop_id [of "length base" path] by simp
  moreover have "?rest = [] \<or> hd ?rest = CHR ''/''"
    using *(1,3) by (cases "?rest = []") (auto simp: hd_drop_conv_nth)
  ultimately show "\<exists>rest. path = base @ rest \<and> (rest = [] \<or> hd rest = CHR ''/'')" by blast
next
  assume "\<exists>rest. path = base @ rest \<and> (rest = [] \<or> hd rest = CHR ''/'')"
  then show "path_has_prefix path base"
    using assms by (auto simp: path_has_prefix_def Let_def nth_append hd_conv_nth) (metis hd_conv_nth)
qed

lemma vpath_remainder_append: "vpath_remainder base (base @ rest) = (if rest = [] then ''/'' else rest)"
  by (simp add: vpath_remainder_def)

section \<open>Scoping\<close>

text \<open>
  What an extension promises about the request it is given: it leaves the path and the stack of
  remainders as they were, so that the extensions tried after it see the same subpath.
\<close>

definition subpaths :: "('b, 'a) exchange \<Rightarrow> string list" where
  "subpaths x = (case tag_get TVpath (rq_tags (fst x)) of Some (VpathTag s) \<Rightarrow> s | _ \<Rightarrow> [])"

definition tags_typed :: "tag_storage \<Rightarrow> bool" where
  "tags_typed slots \<longleftrightarrow> (\<forall>ty t. slots ty = Some t \<longrightarrow> typeid t = ty)"

definition same_scope :: "('b, 'a) exchange \<Rightarrow> ('b, 'a) exchange \<Rightarrow> bool" where
  "same_scope x x' \<longleftrightarrow> tags_typed (rq_tags (fst x')) \<and> subpaths x' = subpaths x \<and> rq_path (fst x') = rq_path (fst x)"

definition scoped :: "('b, 'a, 'x) handler \<Rightarrow> bool" where
  "scoped h \<longleftrightarrow> (\<forall>x r x'. tags_typed (rq_tags (fst x)) \<longrightarrow> h x = Some (r, x') \<longrightarrow> same_scope x x')"

lemma typeid_Vpath: "typeid t = TVpath \<longleftrightarrow> (\<exists>s. t = VpathTag s)"
  by (cases t) auto

lemma subpath_of_subpaths: "subpath_of (fst x) = (if subpaths x = [] then rq_path (fst x) else last (subpaths x))"
  by (simp add: subpath_of_def subpaths_def split: option.splits tag.splits)

lemma tags_typed_put [simp]: "tags_typed slots \<Longrightarrow> tags_typed (tag_put t slots)"
  by (simp add: tags_typed_def tag_put_def)

lemma tags_typed_ensure [simp]: "tags_typed slots \<Longrightarrow> tags_typed (tag_ensure t slots)"
  by (simp add: tags_typed_def tag_ensure_def)

lemma tag_get_put [simp]: "tag_get ty (tag_put t slots) = (if ty = typeid t then Some t else tag_get ty slots)"
  by (simp add: tag_get_def tag_put_def)

lemma subpaths_get: "tag_get TVpath (rq_tags (fst x)) = Some (VpathTag s) \<Longrightarrow> subpaths x = s"
  by (simp add: subpaths_def)

lemma get_vpath:
  assumes "tags_typed (rq_tags (fst x))"
  shows "tag_get TVpath (tag_ensure (VpathTag []) (rq_tags (fst x))) = Some (VpathTag (subpaths x))"
proof (cases "rq_tags (fst x) TVpath")
  case None
  then show ?thesis by (simp add: tag_get_def tag_ensure_def subpaths_def)
next
  case (Some t)
  then have "typeid t = TVpath" using assms by (simp add: tags_typed_def)
  then obtain s where "t = VpathTag s" using typeid_Vpath by blast
  with Some show ?thesis by (simp add: tag_get_def tag_ensure_def subpaths_def)
qed

lemma push_subpath_ok:
  assumes "tags_typed (rq_tags (fst x))"
  shows "subpaths (push_subpath p x) = subpaths x @ [p]" "tags_typed (rq_tags (fst (push_subpath p x)))"
    "rq_path (fst (push_subpath p x)) = rq_path (fst x)" "snd (push_subpath p x) = snd x"
  using get_vpath [OF assms] assms
  by (simp_all add: push_subpath_def case_prod_beta Let_def rq_path_def subpaths_def)

lemma pop_subpath_ok:
  assumes "tags_typed (rq_tags (fst x))" "subpaths x = ps @ [p]"
  shows "\<exists>x'. pop_subpath x = Some x' \<and> subpaths x' = ps \<and> tags_typed (rq_tags (fst x')) \<and>
    rq_path (fst x') = rq_path (fst x) \<and> snd x' = snd x"
proof -
  have "tag_get TVpath (rq_tags (fst x)) = Some (VpathTag (ps @ [p]))"
    using assms(2) by (simp add: subpaths_def split: option.splits tag.splits)
  with assms(1) show ?thesis by (simp add: pop_subpath_def case_prod_beta subpaths_def rq_path_def)
qed

lemma scopedD:
  assumes "scoped h" "h x = Some (r, x')" "tags_typed (rq_tags (fst x))"
  shows "same_scope x x'"
  using assms(1) [unfolded scoped_def, rule_format, OF assms(3,2)] .

lemma same_scope_typed: "same_scope x y \<Longrightarrow> tags_typed (rq_tags (fst y))"
  by (simp add: same_scope_def)

lemma same_scope_trans: "same_scope x y \<Longrightarrow> same_scope y z \<Longrightarrow> same_scope x z"
  by (simp add: same_scope_def)

locale scoped_extension =
  fixes ext :: "('b, 'a, 'c, 'w) extension"
  assumes wants_scoped: "scoped (ext_wants ext)"
    and handle_scoped: "scoped (ext_handle ext)"

lemma registry_dispatch_scoped: "\<forall>e \<in> set exts. scoped_extension e \<Longrightarrow> scoped (registry_dispatch exts)"
proof (induction exts)
  case Nil
  then show ?case by (simp add: scoped_def same_scope_def)
next
  case (Cons e exts)
  then have e: "scoped (ext_wants e)" "scoped (ext_handle e)" and es: "scoped (registry_dispatch exts)"
    by (auto simp: scoped_extension_def)
  show ?case
    unfolding scoped_def
  proof (intro allI impI)
    fix x r x'
    assume typed: "tags_typed (rq_tags (fst x))" and d: "registry_dispatch (e # exts) x = Some (r, x')"
    obtain w y where w: "ext_wants e x = Some (w, y)" using d by (auto simp: bind_eq_Some_conv)
    note y = scopedD [OF e(1) w typed]
    show "same_scope x x'"
    proof (cases w)
      case True
      then obtain r' where "ext_handle e y = Some (r', x')" using d w by auto
      then show ?thesis using same_scope_trans [OF y scopedD [OF e(2) _ same_scope_typed [OF y]]] by blast
    next
      case False
      then have "registry_dispatch exts y = Some (r, x')" using d w by simp
      then show ?thesis using same_scope_trans [OF y scopedD [OF es _ same_scope_typed [OF y]]] by blast
    qed
  qed
qed

text \<open>A vpath keeps the scope when what it contains does: the remainder it pushes is popped again.\<close>

lemma vpath_handle_scope:
  assumes reg: "scoped (registry_dispatch (vp_registry v))" and oh: "scoped on_handle"
    and typed: "tags_typed (rq_tags (fst x))" and h: "vpath_handle on_handle v x = Some (r, x')"
  shows "same_scope x x'"
proof -
  let ?p = "push_subpath (vpath_remainder (vp_base_path v) (subpath_of (fst x))) x"
  note p = push_subpath_ok [OF typed, of "vpath_remainder (vp_base_path v) (subpath_of (fst x))"]
  obtain nested y where y: "registry_dispatch (vp_registry v) ?p = Some (nested, y)"
    using h by (auto simp: vpath_handle_def bind_eq_Some_conv)
  have py: "same_scope ?p y" by (rule scopedD [OF reg y p(2)])
  obtain res z where z: "(case nested of Some r \<Rightarrow> Some (Some r, y) | None \<Rightarrow> on_handle y) = Some (res, z)" "pop_subpath z = Some x'"
    using h y by (auto simp: vpath_handle_def bind_eq_Some_conv)
  have "same_scope y z"
    using z(1) scopedD [OF oh _ same_scope_typed [OF py]] same_scope_typed [OF py]
    by (cases nested) (auto simp: same_scope_def)
  with py have pz: "same_scope ?p z" by (rule same_scope_trans)
  then have "subpaths z = subpaths x @ [vpath_remainder (vp_base_path v) (subpath_of (fst x))]"
    by (simp add: same_scope_def p)
  from pop_subpath_ok [OF same_scope_typed [OF pz] this] z(2) show ?thesis
    using pz by (auto simp: same_scope_def p)
qed

lemma push_subpath_fst: "fst (push_subpath p x) = (fst x)\<lparr>rq_tags := rq_tags (fst (push_subpath p x))\<rparr>"
  by (simp add: push_subpath_def case_prod_beta Let_def split: option.splits tag.splits)

lemma vpath_handle_run:
  assumes "scoped on_handle" "tags_typed (rq_tags (fst x))" "scoped (registry_dispatch (vp_registry v))"
  defines "y \<equiv> push_subpath (vpath_remainder (vp_base_path v) (subpath_of (fst x))) x"
  shows "case Option.bind (registry_dispatch (vp_registry v) y) (\<lambda>(n, z). case n of Some r \<Rightarrow> Some (Some r, z) | None \<Rightarrow> on_handle z) of
      None \<Rightarrow> vpath_handle on_handle v x = None
    | Some (r, z) \<Rightarrow> \<exists>x'. vpath_handle on_handle v x = Some (case r of Some r \<Rightarrow> r | None \<Rightarrow> make_response 404, x') \<and>
        snd x' = snd z \<and> subpath_of (fst x') = subpath_of (fst x)"
proof (cases "Option.bind (registry_dispatch (vp_registry v) y) (\<lambda>(n, z). case n of Some r \<Rightarrow> Some (Some r, z) | None \<Rightarrow> on_handle z)")
  case None
  then have "vpath_handle on_handle v x = None"
    unfolding vpath_handle_def y_def [symmetric] by (cases "registry_dispatch (vp_registry v) y") (auto simp: case_prod_beta)
  with None show ?thesis by simp
next
  case (Some rz)
  obtain r z where rz: "rz = (r, z)" by (rule prod.exhaust)
  note y = push_subpath_ok [OF assms(2), of "vpath_remainder (vp_base_path v) (subpath_of (fst x))", folded y_def]
  obtain n u where u: "registry_dispatch (vp_registry v) y = Some (n, u)" "(case n of Some r \<Rightarrow> Some (Some r, u) | None \<Rightarrow> on_handle u) = Some (r, z)"
    using Some rz by (auto simp: bind_eq_Some_conv)
  have yu: "same_scope y u" by (rule scopedD [OF assms(3) u(1) y(2)])
  have "same_scope u z"
    using u(2) scopedD [OF assms(1) _ same_scope_typed [OF yu]] same_scope_typed [OF yu] by (cases n) (auto simp: same_scope_def)
  with yu have yz: "same_scope y z" by (rule same_scope_trans)
  then have "subpaths z = subpaths x @ [vpath_remainder (vp_base_path v) (subpath_of (fst x))]" by (simp add: same_scope_def y)
  from pop_subpath_ok [OF same_scope_typed [OF yz] this]
  obtain x' where x': "pop_subpath z = Some x'" "subpaths x' = subpaths x" "rq_path (fst x') = rq_path (fst z)" "snd x' = snd z" by blast
  have "subpath_of (fst x') = subpath_of (fst x)"
    using x'(2,3) yz y(3) by (simp add: subpath_of_subpaths same_scope_def)
  with x'(1,4) u Some rz show ?thesis by (simp add: vpath_handle_def y_def [symmetric])
qed

lemma vpath_scoped:
  assumes "\<forall>e \<in> set (vp_registry v). scoped_extension e" "scoped on_handle"
  shows "scoped_extension (vpath_extension on_handle v)"
proof
  show "scoped (ext_wants (vpath_extension on_handle v))"
    by (simp add: vpath_extension_def vpath_wants_def scoped_def same_scope_def)
  show "scoped (ext_handle (vpath_extension on_handle v))"
    unfolding vpath_extension_def scoped_def
    using vpath_handle_scope [OF registry_dispatch_scoped [OF assms(1)] assms(2)] by simp
qed

lemma vhost_scoped:
  assumes "\<forall>e \<in> set (vh_registry v). scoped_extension e"
  shows "scoped_extension (vhost_extension v)"
proof
  show "scoped (ext_wants (vhost_extension v))"
    by (simp add: vhost_extension_def vhost_wants_def scoped_def same_scope_def)
  show "scoped (ext_handle (vhost_extension v))"
    unfolding vhost_extension_def scoped_def
    using scopedD [OF registry_dispatch_scoped [OF assms]] by (auto simp: vhost_handle_def)
qed

interpretation mount_point: scoped_extension "vpath_extension vpath_on_handle (vpath_of base prio)"
  by (rule vpath_scoped) (simp_all add: vpath_of_def vpath_on_handle_def scoped_def same_scope_def)

interpretation host: scoped_extension "vhost_extension (vhost_for name)"
  by (rule vhost_scoped) (simp add: vhost_for_def vhost_of_def)

section \<open>Properties\<close>

text \<open>
  C11. Extensions are tried in ascending order of priority and, at equal priority, in the order they
  were added: after any sequence of \<open>add\<close>, \<open>dispatch\<close> hands the request to the first that wants
  it in the stable order, and to no other.
\<close>
theorem registry_dispatch_order:
  assumes "\<forall>e \<in> set exts. ext_wants e x = Some (p e, x)"
  shows "registry_dispatch (foldl (\<lambda>r e. registry_add e r) [] exts) x =
    (case filter p (sort_key ext_priority exts) of
       [] \<Rightarrow> Some (None, x)
     | e # _ \<Rightarrow> map_option (\<lambda>(r, x). (Some r, x)) (ext_handle e x))"
  unfolding registry_adds_sort by (rule registry_dispatch_first) (use assms in simp)

theorem registry_dispatch_order_witness:
  "registry_dispatch (foldl (\<lambda>r e. registry_add e r) []
      [\<lparr>ext_priority = 9, ext_wants = (\<lambda>x. Some (True, x)), ext_handle = (\<lambda>x. Some (make_response 201, x))\<rparr>,
       \<lparr>ext_priority = 5, ext_wants = (\<lambda>x. Some (True, x)), ext_handle = (\<lambda>x. Some (make_response 202, x))\<rparr>,
       \<lparr>ext_priority = 5, ext_wants = (\<lambda>x. Some (True, x)), ext_handle = (\<lambda>x. Some (make_response 203, x))\<rparr>])
     (undefined, ()) = Some (Some (make_response 202 :: (unit, unit) response), undefined :: unit request, ())"
proof -
  let ?e = "\<lambda>p c. \<lparr>ext_priority = p, ext_wants = (\<lambda>x. Some (True, x)),
      ext_handle = (\<lambda>x. Some (make_response c :: (unit, unit) response, x))\<rparr> :: (unit, unit, unit, unit) extension"
  show ?thesis
    using registry_dispatch_order [of "[?e 9 201, ?e 5 202, ?e 5 203]" "(undefined, ())" "\<lambda>_. True"] by simp
qed

text \<open>
  C17. A vpath takes exactly the requests below its base path, with the boundary at a slash, and
  runs its nested registry, then its own handler, on the same request with the subpath narrowed to
  the remainder (\<open>/\<close> when nothing remains); whatever they answer, with 404 for no answer, the
  subpath is afterwards the one before.
\<close>
theorem vpath_mount:
  assumes base: "vp_base_path v = base" "base \<noteq> []" "last base \<noteq> CHR ''/''"
    and scope: "\<forall>e \<in> set (vp_registry v). scoped_extension e" "scoped on_handle"
    and typed: "tags_typed (rq_tags (fst x))"
  shows "vpath_wants v x = Some (\<exists>rest. subpath_of (fst x) = base @ rest \<and> (rest = [] \<or> hd rest = CHR ''/''), x) \<and>
    (\<forall>rest. subpath_of (fst x) = base @ rest \<longrightarrow>
      (\<exists>y. subpath_of (fst y) = (if rest = [] then ''/'' else rest) \<and> fst y = (fst x)\<lparr>rq_tags := rq_tags (fst y)\<rparr> \<and> snd y = snd x \<and>
        (case Option.bind (registry_dispatch (vp_registry v) y) (\<lambda>(n, z). case n of Some r \<Rightarrow> Some (Some r, z) | None \<Rightarrow> on_handle z) of
           None \<Rightarrow> vpath_handle on_handle v x = None
         | Some (r, z) \<Rightarrow> \<exists>x'. vpath_handle on_handle v x = Some (case r of Some r \<Rightarrow> r | None \<Rightarrow> make_response 404, x') \<and>
             snd x' = snd z \<and> subpath_of (fst x') = subpath_of (fst x))))"
proof (intro conjI allI impI)
  show "vpath_wants v x = Some (\<exists>rest. subpath_of (fst x) = base @ rest \<and> (rest = [] \<or> hd rest = CHR ''/''), x)"
    unfolding vpath_wants_def base(1) path_has_prefix_iff [OF base(2,3)] ..
next
  fix rest
  assume sub: "subpath_of (fst x) = base @ rest"
  define p where "p = (if rest = [] then ''/'' else rest)"
  have rem: "vpath_remainder (vp_base_path v) (subpath_of (fst x)) = p"
    unfolding sub base(1) p_def by (rule vpath_remainder_append)
  note y = push_subpath_ok [OF typed, of p]
  note run = vpath_handle_run [OF scope(2) typed registry_dispatch_scoped [OF scope(1)], unfolded rem]
  have "subpath_of (fst (push_subpath p x)) = p" by (simp add: subpath_of_subpaths y)
  then show "\<exists>y. subpath_of (fst y) = (if rest = [] then ''/'' else rest) \<and> fst y = (fst x)\<lparr>rq_tags := rq_tags (fst y)\<rparr> \<and> snd y = snd x \<and>
      (case Option.bind (registry_dispatch (vp_registry v) y) (\<lambda>(n, z). case n of Some r \<Rightarrow> Some (Some r, z) | None \<Rightarrow> on_handle z) of
         None \<Rightarrow> vpath_handle on_handle v x = None
       | Some (r, z) \<Rightarrow> \<exists>x'. vpath_handle on_handle v x = Some (case r of Some r \<Rightarrow> r | None \<Rightarrow> make_response 404, x') \<and>
           snd x' = snd z \<and> subpath_of (fst x') = subpath_of (fst x))"
    using y(4) run push_subpath_fst [of p x] unfolding p_def [symmetric] by (intro exI [of _ "push_subpath p x"] conjI)
qed

theorem vpath_mount_witness:
  "\<exists>x'. vpath_handle vpath_on_handle
      (vpath_extends \<lparr>ext_priority = 0, ext_wants = (\<lambda>x. Some (True, x)),
          ext_handle = (\<lambda>x. Some (make_text_response (subpath_of (fst x)) ''text/plain'', x))\<rparr> (vpath_of ''/api/'' 0))
      (\<lparr>rq_resource = \<lparr>r_method = http_method_of ''GET'', r_path = ''/api/users'', r_raw_path = ''/api/users'', r_query = [], r_major = 1, r_minor = 1\<rparr>,
        rq_headers = [], rq_body = (), rq_hostname = [], rq_tags = Map.empty\<rparr>, ()) =
    Some (make_text_response ''/users'' ''text/plain'' :: (unit resp_body, unit) response, x')"
proof -
  let ?e = "\<lparr>ext_priority = 0, ext_wants = (\<lambda>x. Some (True, x)),
      ext_handle = (\<lambda>x. Some (make_text_response (subpath_of (fst x)) ''text/plain'' :: (unit resp_body, unit) response, x))\<rparr>
      :: (unit, unit, unit resp_body, unit) extension"
  let ?v = "vpath_extends ?e (vpath_of ''/api/'' 0)"
  let ?x = "(\<lparr>rq_resource = \<lparr>r_method = http_method_of ''GET'', r_path = ''/api/users'', r_raw_path = ''/api/users'', r_query = [], r_major = 1, r_minor = 1\<rparr>,
        rq_headers = [], rq_body = (), rq_hostname = [], rq_tags = Map.empty\<rparr>, ())"
  have v: "vp_base_path ?v = ''/api''" "vp_registry ?v = [?e]"
    by (simp_all add: vpath_extends_def vpath_of_def registry_add_def partition_point.simps)
  have s: "scoped (ext_wants ?e)" "scoped (ext_handle ?e)" "scoped (vpath_on_handle :: (unit, unit, (unit resp_body, unit) response option) handler)"
    by (simp_all add: scoped_def same_scope_def vpath_on_handle_def)
  have "subpath_of (fst ?x) = ''/api'' @ ''/users''" by (simp add: subpath_of_def tag_get_def rq_path_def)
  moreover have "tags_typed (rq_tags (fst ?x))" by (simp add: tags_typed_def)
  ultimately show ?thesis
    using vpath_mount [of ?v "''/api''" vpath_on_handle ?x] s v by (auto simp: scoped_extension_def)
qed

end
