(* ===== verification/Router.thy ===== *)
theory Router
  imports Server
begin

text \<open>
  \<open>src/src/router/middleware.cpp\<close>, \<open>router.cpp\<close> and \<open>group_proxy.cpp\<close>.  A middleware gets the
  exchange and the rest of the chain.  The router is a vpath whose own handler matches the
  remaining path in its trie.  The facades a group records are references into a store: a node of
  the trie by the edges that lead to it, a proxy by its index, so that a proxy that is touched
  through another one is the same object.
\<close>

section \<open>Middlewares\<close>

type_synonym ('b, 'a, 'c, 'w) target = "('b, 'a, ('c, 'w) response) handler"
type_synonym ('b, 'a, 'c, 'w) middleware = "('b, 'a) exchange \<Rightarrow> ('b, 'a, 'c, 'w) target \<Rightarrow> (('c, 'w) response \<times> ('b, 'a) exchange) option"

function invoke :: "('b, 'a, 'c, 'w) middleware list \<Rightarrow> nat \<Rightarrow> ('b, 'a, 'c, 'w) target \<Rightarrow> ('b, 'a, 'c, 'w) target" where
  "invoke stack index final_target =
     (if index \<ge> length stack then final_target
      else (\<lambda>x. (stack ! index) x (invoke stack (index + 1) final_target)))"
  by pat_completeness auto
termination by (relation "measure (\<lambda>(stack, index, _). length stack - index)") auto

declare invoke.simps [simp del]

definition middleware_handle :: "('b, 'a, 'c, 'w) middleware list \<Rightarrow> ('b, 'a, 'c, 'w) target \<Rightarrow> ('b, 'a, 'c, 'w) target" where
  "middleware_handle stack final_target = invoke stack 0 final_target"

section \<open>\<open>router\<close>\<close>

type_synonym ('b, 'a, 'c, 'w) node = "(('b, 'a, 'c, 'w) target, ('b, 'a, 'c, 'w) middleware) route"

record ('b, 'a, 'c, 'w) router =
  ro_vpath :: "('b, 'a, 'c, 'w) vpath"
  ro_root :: "('b, 'a, 'c, 'w) node"

definition route_of :: "'b request \<Rightarrow> route_state" where
  "route_of req = (case tag_get TRouteMatch (rq_tags req) of Some (RouteMatchTag state) \<Rightarrow> state | _ \<Rightarrow> empty_route_state)"

definition router_of :: "string \<Rightarrow> u32 \<Rightarrow> ('b, 'a, 'c, 'w) router" where
  "router_of mount_path prio = \<lparr>ro_vpath = vpath_of mount_path prio, ro_root = new_route KRoot []\<rparr>"

text \<open>The registration calls are forwarded to the root; each returns the router itself.\<close>

definition router_on_root :: "(('b, 'a, 'c, 'w) node \<Rightarrow> ('b, 'a, 'c, 'w) node) \<Rightarrow> ('b, 'a, 'c, 'w) router \<Rightarrow> ('b, 'a, 'c, 'w) router" where
  "router_on_root f r = r\<lparr>ro_root := f (ro_root r)\<rparr>"

definition router_any :: "('b, 'a, 'c, 'w) target \<Rightarrow> ('b, 'a, 'c, 'w) router \<Rightarrow> ('b, 'a, 'c, 'w) router" where
  "router_any t = router_on_root (route_any t)"

definition router_any_at :: "string \<Rightarrow> ('b, 'a, 'c, 'w) target \<Rightarrow> ('b, 'a, 'c, 'w) router \<Rightarrow> ('b, 'a, 'c, 'w) router" where
  "router_any_at path t = router_on_root (route_any_at path t)"

definition router_method :: "http_method \<Rightarrow> ('b, 'a, 'c, 'w) target \<Rightarrow> ('b, 'a, 'c, 'w) router \<Rightarrow> ('b, 'a, 'c, 'w) router" where
  "router_method m t = router_on_root (route_method m t)"

definition router_method_at :: "http_method \<Rightarrow> string \<Rightarrow> ('b, 'a, 'c, 'w) target \<Rightarrow> ('b, 'a, 'c, 'w) router \<Rightarrow> ('b, 'a, 'c, 'w) router" where
  "router_method_at m path t = router_on_root (route_method_at m path t)"

definition router_param :: "string \<Rightarrow> (string \<Rightarrow> bool) \<Rightarrow> ('b, 'a, 'c, 'w) router \<Rightarrow> ('b, 'a, 'c, 'w) router" where
  "router_param name predicate = router_on_root (route_param name predicate)"

definition router_prepend :: "('b, 'a, 'c, 'w) middleware \<Rightarrow> ('b, 'a, 'c, 'w) router \<Rightarrow> ('b, 'a, 'c, 'w) router" where
  "router_prepend m = router_on_root (route_prepend m)"

definition router_append :: "('b, 'a, 'c, 'w) middleware \<Rightarrow> ('b, 'a, 'c, 'w) router \<Rightarrow> ('b, 'a, 'c, 'w) router" where
  "router_append m = router_on_root (route_append m)"

definition router_resolve :: "string \<Rightarrow> ('b, 'a, 'c, 'w) router \<Rightarrow> ('b, 'a, 'c, 'w) router" where
  "router_resolve path = router_on_root (route_resolve path)"

text \<open>The named shorthands of \<open>facade.hpp\<close>, on the router.\<close>

definition router_get :: "string \<Rightarrow> ('b, 'a, 'c, 'w) target \<Rightarrow> ('b, 'a, 'c, 'w) router \<Rightarrow> ('b, 'a, 'c, 'w) router" where
  "router_get = router_method_at (http_method_of ''GET'')"

definition router_post :: "string \<Rightarrow> ('b, 'a, 'c, 'w) target \<Rightarrow> ('b, 'a, 'c, 'w) router \<Rightarrow> ('b, 'a, 'c, 'w) router" where
  "router_post = router_method_at (http_method_of ''POST'')"

definition router_put :: "string \<Rightarrow> ('b, 'a, 'c, 'w) target \<Rightarrow> ('b, 'a, 'c, 'w) router \<Rightarrow> ('b, 'a, 'c, 'w) router" where
  "router_put = router_method_at (http_method_of ''PUT'')"

definition router_del :: "string \<Rightarrow> ('b, 'a, 'c, 'w) target \<Rightarrow> ('b, 'a, 'c, 'w) router \<Rightarrow> ('b, 'a, 'c, 'w) router" where
  "router_del = router_method_at (http_method_of ''DELETE'')"

definition put_route_match :: "route_state \<Rightarrow> ('b, 'a) exchange \<Rightarrow> ('b, 'a) exchange" where
  "put_route_match state = (\<lambda>(req, a).
     (req\<lparr>rq_tags := tag_put (RouteMatchTag state) (tag_ensure (RouteMatchTag empty_route_state) (rq_tags req))\<rparr>, a))"

definition router_on_handle :: "('b, 'a, 'c, 'w) node \<Rightarrow> ('b, 'a, ('c, 'w) response option) handler" where
  "router_on_handle root x =
     (case route_match root empty_route_state (subpath_of (fst x)) of
        (None, _) \<Rightarrow> Some (None, x)
      | (Some matched, state) \<Rightarrow>
          let x = put_route_match state x in
          case get_target matched (rq_method (fst x)) of
            None \<Rightarrow> Some (if has_any_target matched then Some (make_response 405) else None, x)
          | Some t \<Rightarrow> map_option (\<lambda>(r, x). (Some r, x)) (middleware_handle (rt_middlewares matched) t x))"

definition router_extension :: "('b, 'a, 'c, 'w) router \<Rightarrow> ('b, 'a, 'c, 'w) extension" where
  "router_extension r = vpath_extension (router_on_handle (ro_root r)) (ro_vpath r)"

section \<open>\<open>group_proxy\<close>\<close>

datatype facade_ref = NodeRef "edge list" | ProxyRef nat

record proxy =
  px_inner :: facade_ref
  px_touched :: "facade_ref list"

record ('t, 'm) facades =
  fa_root :: "('t, 'm) route"
  fa_proxies :: "proxy list"

definition on_node :: "edge list \<Rightarrow> (('t, 'm) route \<Rightarrow> ('t, 'm) route) \<Rightarrow> ('t, 'm) facades \<Rightarrow> ('t, 'm) facades" where
  "on_node es f st = st\<lparr>fa_root := at_edges es f (fa_root st)\<rparr>"

definition record_touched :: "nat \<Rightarrow> facade_ref \<Rightarrow> ('t, 'm) facades \<Rightarrow> ('t, 'm) facades" where
  "record_touched i f st =
     st\<lparr>fa_proxies := (fa_proxies st)[i := (fa_proxies st ! i)\<lparr>px_touched := px_touched (fa_proxies st ! i) @ [f]\<rparr>]\<rparr>"

text \<open>\<open>any(t)\<close> and \<open>method(m, t)\<close>: a proxy records its inner facade and forwards the call to it.\<close>

partial_function (option) facade_register ::
  "(('t, 'm) route \<Rightarrow> ('t, 'm) route) \<Rightarrow> facade_ref \<Rightarrow> ('t, 'm) facades \<Rightarrow> ('t, 'm) facades option" where
  "facade_register f ref st =
     (case ref of
        NodeRef es \<Rightarrow> Some (on_node es f st)
      | ProxyRef i \<Rightarrow> (let inner = px_inner (fa_proxies st ! i) in facade_register f inner (record_touched i inner st)))"

partial_function (option) facade_resolve ::
  "string \<Rightarrow> facade_ref \<Rightarrow> ('t, 'm) facades \<Rightarrow> (facade_ref \<times> ('t, 'm) facades) option" where
  "facade_resolve path ref st =
     (case ref of
        NodeRef es \<Rightarrow> Some (NodeRef (es @ child_edges path), on_node es (route_resolve path) st)
      | ProxyRef i \<Rightarrow> facade_resolve path (px_inner (fa_proxies st ! i)) st)"

text \<open>\<open>any(path, t)\<close> and \<open>method(m, path, t)\<close>: a proxy resolves the path on its inner facade first.\<close>

definition facade_register_at ::
  "(('t, 'm) route \<Rightarrow> ('t, 'm) route) \<Rightarrow> string \<Rightarrow> facade_ref \<Rightarrow> ('t, 'm) facades \<Rightarrow> ('t, 'm) facades option" where
  "facade_register_at f path ref st =
     (case ref of
        NodeRef es \<Rightarrow> Some (on_node es (child path f) st)
      | ProxyRef i \<Rightarrow>
          Option.bind (facade_resolve path (px_inner (fa_proxies st ! i)) st)
            (\<lambda>(touched, st). facade_register f touched (record_touched i touched st)))"

partial_function (option) facade_param ::
  "string \<Rightarrow> (string \<Rightarrow> bool) \<Rightarrow> facade_ref \<Rightarrow> ('t, 'm) facades \<Rightarrow> ('t, 'm) facades option" where
  "facade_param name predicate ref st =
     (case ref of
        NodeRef es \<Rightarrow> Some (on_node es (route_param name predicate) st)
      | ProxyRef i \<Rightarrow> facade_param name predicate (px_inner (fa_proxies st ! i)) st)"

text \<open>
  \<open>prepend(m)\<close> and \<open>append(m)\<close> on the facades of a list, in order: a proxy applies the call to
  everything it has recorded before the loop goes on.
\<close>

partial_function (option) facade_fan_out ::
  "(('t, 'm) route \<Rightarrow> ('t, 'm) route) \<Rightarrow> facade_ref list \<Rightarrow> ('t, 'm) facades \<Rightarrow> ('t, 'm) facades option" where
  "facade_fan_out f refs st =
     (case refs of
        [] \<Rightarrow> Some st
      | NodeRef es # refs \<Rightarrow> facade_fan_out f refs (on_node es f st)
      | ProxyRef i # refs \<Rightarrow> facade_fan_out f (px_touched (fa_proxies st ! i) @ refs) st)"

definition facade_prepend :: "'m \<Rightarrow> facade_ref \<Rightarrow> ('t, 'm) facades \<Rightarrow> ('t, 'm) facades option" where
  "facade_prepend m ref = facade_fan_out (route_prepend m) [ref]"

definition facade_append :: "'m \<Rightarrow> facade_ref \<Rightarrow> ('t, 'm) facades \<Rightarrow> ('t, 'm) facades option" where
  "facade_append m ref = facade_fan_out (route_append m) [ref]"

text \<open>
  \<open>group(body)\<close>: a new proxy over the facade, the body run on it; a proxy also records the group
  opened on it.
\<close>

definition facade_group ::
  "(facade_ref \<Rightarrow> ('t, 'm) facades \<Rightarrow> ('t, 'm) facades option) \<Rightarrow> facade_ref \<Rightarrow> ('t, 'm) facades \<Rightarrow>
   (facade_ref \<times> ('t, 'm) facades) option" where
  "facade_group body ref st =
     (let nested = ProxyRef (length (fa_proxies st));
          st = st\<lparr>fa_proxies := fa_proxies st @ [\<lparr>px_inner = ref, px_touched = []\<rparr>]\<rparr>
      in map_option (\<lambda>st. (nested, case ref of NodeRef _ \<Rightarrow> st | ProxyRef i \<Rightarrow> record_touched i nested st)) (body nested st))"

section \<open>The chain of middlewares\<close>

lemma invoke_drop: "invoke stack i t = foldr (\<lambda>m next x. m x next) (drop i stack) t"
proof (induction stack i t rule: invoke.induct)
  case (1 stack i t)
  show ?case
  proof (cases "i < length stack")
    case True
    then have "drop i stack = stack ! i # drop (i + 1) stack" by (simp add: Cons_nth_drop_Suc)
    with True 1 show ?thesis by (subst invoke.simps) simp
  qed (simp add: invoke.simps)
qed

lemma middleware_handle_foldr: "middleware_handle stack t = foldr (\<lambda>m next x. m x next) stack t"
  by (simp add: middleware_handle_def invoke_drop)

section \<open>The nodes of a trie\<close>

fun subnodes :: "('t, 'm) route \<Rightarrow> ('t, 'm) route set" where
  "subnodes (Route k n p cs ps w ts ms) =
     insert (Route k n p cs ps w ts ms) ((\<Union>c \<in> set cs. subnodes c) \<union> (\<Union>c \<in> set ps. subnodes c) \<union> (\<Union>c \<in> set_option w. subnodes c))"

lemma subnodes_children:
  "r \<in> subnodes r" "c \<in> set (rt_static r) \<Longrightarrow> subnodes c \<subseteq> subnodes r"
  "c \<in> set (rt_params r) \<Longrightarrow> subnodes c \<subseteq> subnodes r" "rt_wildcard r = Some c \<Longrightarrow> subnodes c \<subseteq> subnodes r"
  by (cases r; auto)+

lemma matches_subnodes: "matches r path m \<Longrightarrow> m \<in> subnodes r"
proof (induction rule: matches.induct)
  case (static path p r c m)
  then have "c \<in> set (rt_static r)" by (auto simp: find_static_child_def Let_def split: if_splits)
  then show ?case using static subnodes_children(2) by blast
next
  case (param path p c r m)
  then show ?case using subnodes_children(3) by blast
next
  case (wild path r w)
  then show ?case using subnodes_children(1,4) by blast
qed (rule subnodes_children)

text \<open>In a trie with one registration every node is bare, except the registered one.\<close>

lemma subnodes_fresh:
  "n \<in> subnodes (at_edges es (route_method m t) (new_route k name)) \<Longrightarrow>
   rt_middlewares n = [] \<and> (rt_targets n = [] \<or> rt_targets n = [(m_id m, m_name m, t)])"
proof (induction es arbitrary: k name)
  case Nil
  then show ?case by (simp add: leaf_fields)
next
  case (Cons e es)
  then show ?case by (cases e) (auto simp: at_edges_fresh simp del: at_edges.simps)
qed

section \<open>Groups\<close>

lemma fan_out_nodes:
  "facade_fan_out f (map NodeRef ess) st = Some (st\<lparr>fa_root := foldl (\<lambda>r es. at_edges es f r) (fa_root st) ess\<rparr>)"
proof (induction ess arbitrary: st)
  case Nil
  then show ?case by (subst facade_fan_out.simps) simp
next
  case (Cons es ess)
  then show ?case by (subst facade_fan_out.simps) (simp add: on_node_def)
qed

lemma fan_out_proxy:
  assumes "px_touched (fa_proxies st ! i) = map NodeRef ess"
  shows "facade_fan_out f [ProxyRef i] st = Some (st\<lparr>fa_root := foldl (\<lambda>r es. at_edges es f r) (fa_root st) ess\<rparr>)"
  using assms fan_out_nodes [of f ess st] by (subst facade_fan_out.simps) simp

text \<open>Two proxies that have recorded each other are walked forever.\<close>

lemma fan_out_cycle:
  assumes "facade_fan_out f refs st = Some st'"
    and "ProxyRef j \<in> set (px_touched (fa_proxies st ! i))" "ProxyRef i \<in> set (px_touched (fa_proxies st ! j))"
  shows "ProxyRef i \<notin> set refs \<and> ProxyRef j \<notin> set refs"
proof -
  have "ProxyRef j \<in> set (px_touched (fa_proxies st ! i)) \<longrightarrow> ProxyRef i \<in> set (px_touched (fa_proxies st ! j)) \<longrightarrow>
      ProxyRef i \<notin> set refs \<and> ProxyRef j \<notin> set refs"
    by (rule facade_fan_out.raw_induct [OF _ assms(1)])
      (fastforce simp: on_node_def split: list.splits facade_ref.splits)
  with assms(2,3) show ?thesis by blast
qed

text \<open>What a group records for registrations at paths, and what it does with them afterwards.\<close>

lemma register_at_group:
  assumes "i < length (fa_proxies st)" "px_inner (fa_proxies st ! i) = NodeRef es"
  shows "facade_register_at f path (ProxyRef i) st =
    Some (on_node (es @ child_edges path) f (record_touched i (NodeRef (es @ child_edges path)) (on_node es (route_resolve path) st)))"
  using assms
  by (simp add: facade_register_at_def facade_resolve.simps [of _ "NodeRef _"] facade_register.simps [of _ "NodeRef _"])

definition register_all ::
  "(http_method \<times> string \<times> 't) list \<Rightarrow> facade_ref \<Rightarrow> ('t, 'm) facades \<Rightarrow> ('t, 'm) facades option" where
  "register_all regs ref st =
     foldl (\<lambda>st (m, path, t). Option.bind st (facade_register_at (route_method m t) path ref)) (Some st) regs"

lemma register_all_group:
  assumes "fa_proxies st = [\<lparr>px_inner = NodeRef [], px_touched = ts\<rparr>]"
  shows "register_all regs (ProxyRef 0) st =
    Some \<lparr>fa_root = foldl (\<lambda>r (m, path, t). child path (route_method m t) (route_resolve path r)) (fa_root st) regs,
      fa_proxies = [\<lparr>px_inner = NodeRef [], px_touched = ts @ map (\<lambda>(m, path, t). NodeRef (child_edges path)) regs\<rparr>]\<rparr>"
proof (induction regs rule: rev_induct)
  case Nil
  then show ?case using assms by (simp add: register_all_def)
next
  case (snoc reg regs)
  then show ?case
    by (cases reg) (simp add: register_all_def register_at_group on_node_def record_touched_def child_def)
qed

section \<open>A registered pattern behind a mount point\<close>

lemma put_route_match_ok:
  assumes "tags_typed (rq_tags (fst x))"
  shows "same_scope x (put_route_match st x)" "route_of (fst (put_route_match st x)) = st"
    "rq_method (fst (put_route_match st x)) = rq_method (fst x)" "snd (put_route_match st x) = snd x"
proof -
  have "tag_get TVpath (tag_ensure (RouteMatchTag empty_route_state) (rq_tags (fst x))) = tag_get TVpath (rq_tags (fst x))"
    by (simp add: tag_get_def tag_ensure_def)
  then show "same_scope x (put_route_match st x)" "route_of (fst (put_route_match st x)) = st"
    "rq_method (fst (put_route_match st x)) = rq_method (fst x)" "snd (put_route_match st x) = snd x"
    using assms by (simp_all add: put_route_match_def case_prod_beta same_scope_def subpaths_def route_of_def rq_method_def rq_path_def)
qed

lemma router_on_handle_scoped:
  assumes "\<forall>n m t. get_target n m = Some t \<longrightarrow> (\<exists>p. matches root p n) \<longrightarrow> scoped (middleware_handle (rt_middlewares n) t)"
  shows "scoped (router_on_handle root)"
  unfolding scoped_def
proof (intro allI impI)
  fix x r x'
  assume typed: "tags_typed (rq_tags (fst x))" and h: "router_on_handle root x = Some (r, x')"
  obtain mt st where m: "route_match root empty_route_state (subpath_of (fst x)) = (mt, st)" by fastforce
  note put = put_route_match_ok [OF typed, of st]
  show "same_scope x x'"
  proof (cases mt)
    case None
    with h m typed show ?thesis by (simp add: router_on_handle_def same_scope_def)
  next
    case (Some n)
    with route_match_sound [of root empty_route_state "subpath_of (fst x)"] m
    have n: "matches root (subpath_of (fst x)) n" by auto
    show ?thesis
    proof (cases "get_target n (rq_method (fst x))")
      case None
      with h m Some put show ?thesis by (simp add: router_on_handle_def Let_def)
    next
      case (Some t)
      with assms n have "scoped (middleware_handle (rt_middlewares n) t)" by blast
      from scopedD [OF this _ same_scope_typed [OF put(1)]] h m \<open>mt = Some n\<close> Some put(3) same_scope_trans [OF put(1)]
      show ?thesis by (auto simp: router_on_handle_def Let_def)
    qed
  qed
qed

definition same_method :: "http_method \<Rightarrow> http_method \<Rightarrow> bool" where
  "same_method m m' \<longleftrightarrow> m_id m = m_id m' \<and> (m_id m \<noteq> Custom \<or> m_name m = m_name m')"

lemma match_fresh:
  fixes mt :: "('t, 'm) route option"
  assumes "\<forall>s \<in> set segs. plain_segment s"
    and "route_match (route_method_at m pattern t (new_route KRoot [])) empty_route_state (join_path segs) = (mt, st)"
  shows "case mt of None \<Rightarrow> capture_path (child_edges pattern) segs [] = None
    | Some n \<Rightarrow> rt_middlewares n = [] \<and>
        (case capture_path (child_edges pattern) segs [] of
           None \<Rightarrow> rt_targets n = []
         | Some caps \<Rightarrow> rt_targets n = [(m_id m, m_name m, t)] \<and> rs_captures st = caps)"
proof -
  have mt: "matched_target (mt, st) m = map_option (\<lambda>caps. (t, caps)) (capture_path (child_edges pattern) segs [])"
    unfolding assms(2) [symmetric] route_method_at_def child_def
    by (rule match_single [OF assms(1)]) (simp add: empty_route_state_def)
  show ?thesis
  proof (cases mt)
    case None
    with mt show ?thesis by (simp add: matched_target_def)
  next
    case (Some n)
    then have "fst (route_match (route_method_at m pattern t (new_route KRoot [])) empty_route_state (join_path segs)) = Some n"
      using assms(2) by simp
    from subnodes_fresh [OF matches_subnodes [OF route_match_sound [OF this], unfolded route_method_at_def child_def]]
    have n: "rt_middlewares n = []" "rt_targets n = [] \<or> rt_targets n = [(m_id m, m_name m, t)]" by simp_all
    then show ?thesis
      using mt Some by (auto simp: matched_target_def get_target_def split: option.splits)
  qed
qed

lemma fresh_router_scoped:
  fixes t :: "('b, 'a, 'c, 'w) target"
  assumes "scoped t"
  shows "scoped (router_on_handle (route_method_at m pattern t (new_route KRoot [])))"
proof (rule router_on_handle_scoped, intro allI impI)
  fix n :: "('b, 'a, 'c, 'w) node" and m' t'
  assume t': "get_target n m' = Some t'" and "\<exists>p. matches (route_method_at m pattern t (new_route KRoot [])) p n"
  then obtain p where "matches (route_method_at m pattern t (new_route KRoot [])) p n" by blast
  from subnodes_fresh [OF matches_subnodes [OF this, unfolded route_method_at_def child_def]] t'
  have "rt_middlewares n = []" "t' = t" by (auto simp: get_target_def split: if_splits)
  then show "scoped (middleware_handle (rt_middlewares n) t')" using assms by (simp add: middleware_handle_foldr)
qed

section \<open>Properties\<close>

text \<open>
  C35. A middleware stack runs from the outside in: the first middleware gets the request with the
  rest of the chain as its continuation and the target is innermost, so \<open>prepend\<close> wraps the whole
  chain and \<open>append\<close> only the target.
\<close>
theorem middleware_chain:
  "middleware_handle stack t = foldr (\<lambda>m next x. m x next) stack t \<and>
   middleware_handle (stack_prepend m stack) t = (\<lambda>x. m x (middleware_handle stack t)) \<and>
   middleware_handle (stack_append m stack) t = middleware_handle stack (\<lambda>x. m x t)"
  by (simp add: middleware_handle_foldr stack_prepend_def stack_append_def)




text \<open>
  C36. A middleware given to a group after routes were registered in it at paths wraps exactly the
  nodes of those routes, once for each registration, and returns.
\<close>
theorem group_prepend_wraps:
  "Option.bind (facade_group (register_all regs) (NodeRef []) \<lparr>fa_root = root, fa_proxies = []\<rparr>)
     (\<lambda>(g, st). map_option fa_root (facade_prepend w g st)) =
   Some (foldl (\<lambda>r (m, path, t). child path (route_prepend w) r)
     (foldl (\<lambda>r (m, path, t). child path (route_method m t) (route_resolve path r)) root regs) regs)"
proof -
  let ?st = "\<lparr>fa_root = root, fa_proxies = [\<lparr>px_inner = NodeRef [], px_touched = []\<rparr>]\<rparr>"
  have "facade_fan_out f [ProxyRef 0] \<lparr>fa_root = r, fa_proxies = [\<lparr>px_inner = NodeRef [],
      px_touched = map (\<lambda>(m, path, t). NodeRef (child_edges path)) regs\<rparr>]\<rparr> =
    Some \<lparr>fa_root = foldl (\<lambda>r (m, path, t). child path f r) r regs, fa_proxies = [\<lparr>px_inner = NodeRef [],
      px_touched = map (\<lambda>(m, path, t). NodeRef (child_edges path)) regs\<rparr>]\<rparr>" for f and r :: "('a, 'b) route"
    by (subst fan_out_proxy [where ess = "map (\<lambda>(m, path, t). child_edges path) regs"])
      (simp_all add: foldl_map child_def case_prod_unfold comp_def)
  then show ?thesis
    by (simp add: facade_group_def Let_def register_all_group [of ?st "[]"] facade_prepend_def)
qed

end
