(* ===== verification/Connection.thy ===== *)
theory Connection
  imports Server Http_Date "HOL-Library.Sublist"
begin

text \<open>
  \<open>src/src/server/connection.cpp\<close>: the HTTP/1.1 loop of a connection.  It reads a request line and
  a header block, builds the body stream over its read buffer and wire, runs the handler, drains
  the body and writes the response.  The request's body holds the read buffer and the wire while
  the handler runs; the connection takes them back from it.  The clock is a function of the
  number of responses written before.
\<close>

section \<open>State\<close>

record params =
  pa_max_connections :: nat
  pa_max_header_size :: nat
  pa_max_request_line_size :: nat
  pa_server_header_value :: string

definition default_params :: params where
  "default_params = \<lparr>pa_max_connections = 10000, pa_max_header_size = 16 * 1024, pa_max_request_line_size = 8 * 1024,
     pa_server_header_value = ''nhttp/2.0''\<rparr>"

record 's connection =
  cn_wire :: 's
  cn_read_buffer :: string
  cn_upgraded :: bool

definition connection_of :: "'s \<Rightarrow> string \<Rightarrow> 's connection" where
  "connection_of wire initial_buffer = \<lparr>cn_wire = wire, cn_read_buffer = initial_buffer, cn_upgraded = False\<rparr>"

definition cn_fill_more :: "'s stream_ops \<Rightarrow> 's connection \<Rightarrow> (bool \<times> 's connection) option" where
  "cn_fill_more ops c =
     Option.bind (st_read ops 4096 (cn_wire c)) (\<lambda>(chunk, wire).
       let c = c\<lparr>cn_wire := wire\<rparr> in
       Some (if chunk = [] then (False, c) else (True, c\<lparr>cn_read_buffer := cn_read_buffer c @ chunk\<rparr>)))"

partial_function (option) read_request_line ::
  "'s stream_ops \<Rightarrow> params \<Rightarrow> 's connection \<Rightarrow> (http_resource option \<times> 's connection) option" where
  "read_request_line ops p c =
     (case resource_try_parse (cn_read_buffer c) of
        Parsed consumed r \<Rightarrow> Some (Some r, c\<lparr>cn_read_buffer := drop consumed (cn_read_buffer c)\<rparr>)
      | Malformed \<Rightarrow> Some (None, c)
      | NeedMore \<Rightarrow>
          if length (cn_read_buffer c) > pa_max_request_line_size p then Some (None, c)
          else Option.bind (cn_fill_more ops c) (\<lambda>(more, c). if \<not> more then Some (None, c) else read_request_line ops p c))"

definition extract_hostname :: "http_headers \<Rightarrow> string" where
  "extract_hostname headers =
     (case headers_get headers ''Host'' of
        None \<Rightarrow> []
      | Some v \<Rightarrow>
          if v \<noteq> [] \<and> hd v = CHR ''['' then
            (case find_char (CHR '']'') v of Some close \<Rightarrow> take (close + 1) v | None \<Rightarrow> v)
          else case find_char (CHR '':'') v of None \<Rightarrow> v | Some colon \<Rightarrow> take colon v)"

definition wants_keep_alive :: "http_resource \<Rightarrow> http_headers \<Rightarrow> bool" where
  "wants_keep_alive resource headers =
     (case headers_get headers ''Connection'' of
        None \<Rightarrow> r_minor resource \<ge> 1
      | Some conn \<Rightarrow>
          if header_value_contains_token conn ''close'' then False
          else if header_value_contains_token conn ''keep-alive'' then True
          else r_minor resource \<ge> 1)"

section \<open>\<open>write_response\<close>\<close>

definition response_head :: "int \<Rightarrow> http_headers \<Rightarrow> string" where
  "response_head status headers = write_status_line status 1 @ headers_write_to headers @ CRLF"

definition use_chunked :: "('c, 's) response \<Rightarrow> bool" where
  "use_chunked resp \<longleftrightarrow> rs_body resp \<noteq> None \<and> rs_content_length resp < 0"

definition framed_headers :: "params \<Rightarrow> string \<Rightarrow> bool \<Rightarrow> ('c, 's) response \<Rightarrow> http_headers" where
  "framed_headers p date keep_alive resp =
     (let h = rs_headers resp;
          h = (if pa_server_header_value p \<noteq> [] \<and> \<not> headers_isset h ''Server''
               then headers_set ''Server'' (pa_server_header_value p) h else h);
          h = headers_set ''Date'' date h;
          h = headers_set ''Connection'' (if keep_alive then ''keep-alive'' else ''close'') h
      in if use_chunked resp then headers_set ''Transfer-Encoding'' ''chunked'' h
         else headers_set ''Content-Length'' (to_string_int (max 0 (rs_content_length resp))) h)"

definition write_response ::
  "'s stream_ops \<Rightarrow> 'c stream_ops \<Rightarrow> params \<Rightarrow> int \<Rightarrow> ('c, 's) response \<Rightarrow> bool \<Rightarrow> 's connection \<Rightarrow> 's connection option" where
  "write_response ops bops p now resp keep_alive c =
     (case rs_upgrade resp of
        Some upgrade \<Rightarrow>
          Option.bind (write_all ops (response_head (rs_status resp) (rs_headers resp)) (cn_wire c)) (\<lambda>wire.
            let leftover = cn_read_buffer c; c = c\<lparr>cn_read_buffer := [], cn_upgraded := True\<rparr>
            in map_option (\<lambda>wire. c\<lparr>cn_wire := wire\<rparr>) (upgrade wire leftover))
      | None \<Rightarrow>
          Option.bind (format_http_date now) (\<lambda>date.
            Option.bind (write_all ops (response_head (rs_status resp) (framed_headers p date keep_alive resp)) (cn_wire c)) (\<lambda>wire.
              case rs_body resp of
                None \<Rightarrow> Some (c\<lparr>cn_wire := wire\<rparr>)
              | Some body \<Rightarrow>
                  map_option (\<lambda>(wire, _). c\<lparr>cn_wire := wire\<rparr>)
                    (write_message_body ops bops (if use_chunked resp then -1 else rs_content_length resp) wire body))))"

section \<open>\<open>run\<close>\<close>

definition request_of :: "http_resource \<Rightarrow> http_headers \<Rightarrow> 's body_stream \<Rightarrow> 's body_stream request" where
  "request_of resource headers body =
     \<lparr>rq_resource = resource, rq_headers = headers, rq_body = body, rq_hostname = extract_hostname headers, rq_tags = Map.empty\<rparr>"

definition call_handler ::
  "('b, 'a, ('c, 's) response) handler option \<Rightarrow> ('b, 'a, ('c, 's) response) handler" where
  "call_handler handler x = (case handler of Some h \<Rightarrow> h x | None \<Rightarrow> Some (make_response 501, x))"

partial_function (option) connection_run ::
  "'s stream_ops \<Rightarrow> 'c stream_ops \<Rightarrow> params \<Rightarrow> (nat \<Rightarrow> int) \<Rightarrow> ('s body_stream, 'a, ('c, 's) response) handler option \<Rightarrow>
   nat \<Rightarrow> 's connection \<Rightarrow> 'a \<Rightarrow> ('s connection \<times> 'a) option" where
  "connection_run ops bops p clock handler k c a =
     Option.bind (read_request_line ops p c) (\<lambda>(r, c). case r of
       None \<Rightarrow> Some (c, a)
     | Some resource \<Rightarrow>
         Option.bind (read_headers ops (pa_max_header_size p) (cn_read_buffer c) (cn_wire c) []) (\<lambda>(ok, headers, buf, wire).
           let c = c\<lparr>cn_read_buffer := buf, cn_wire := wire\<rparr>;
               bad = map_option (\<lambda>c. (c, a)) (write_response ops bops p (clock k) (make_response 400) False c)
           in if \<not> ok then bad
           else case make_body_stream ops buf wire headers of
             None \<Rightarrow> bad
           | Some body \<Rightarrow>
               Option.bind (call_handler handler (request_of resource headers body, a)) (\<lambda>(resp, req, a).
                 Option.bind (read_all (body_ops ops) [] (rq_body req)) (\<lambda>(_, body).
                   let keep_alive = wants_keep_alive (rq_resource req) (rq_headers req);
                       c = c\<lparr>cn_read_buffer := fst (body_source body), cn_wire := snd (body_source body)\<rparr>
                   in Option.bind (write_response ops bops p (clock k) resp keep_alive c) (\<lambda>c.
                     if cn_upgraded c \<or> \<not> keep_alive then Some (c, a)
                     else connection_run ops bops p clock handler (k + 1) c a)))))"

section \<open>Reading\<close>

abbreviation cn_raw :: "('s \<Rightarrow> string) \<Rightarrow> 's connection \<Rightarrow> string" where
  "cn_raw content c \<equiv> cn_read_buffer c @ content (cn_wire c)"

lemma suffix_drop_append: "n \<le> length buf \<Longrightarrow> suffix (drop n buf @ tail) (buf @ tail)"
  by (metis append_assoc append_take_drop_id suffix_def)

context byte_source
begin

text \<open>The source that remembers what it has been derived from.\<close>

lemma suffix_source: "byte_source ops content (\<lambda>s. invar s \<and> suffix (content s) whole)"
proof
  fix s and n :: nat
  assume s: "invar s \<and> suffix (content s) whole" and n: "0 < n"
  from readE [of s n] s n obtain bs s' where
    "st_read ops n s = Some (bs, s')" "content s = bs @ content s'" "length bs \<le> n" "content s = [] \<longleftrightarrow> bs = []" "invar s'" by blast
  moreover from this(2) s have "suffix (content s') whole" by (metis suffix_def suffix_order.order_trans)
  ultimately show "\<exists>bs s'. st_read ops n s = Some (bs, s') \<and> content s = bs @ content s' \<and> length bs \<le> n \<and>
      (content s \<noteq> [] \<longrightarrow> bs \<noteq> []) \<and> invar s' \<and> suffix (content s') whole" by blast
qed

lemma read_headers_suffix:
  "invar w \<Longrightarrow> \<exists>ok hs buf' w'. read_headers ops m buf w out = Some (ok, hs, buf', w') \<and>
     suffix (buf' @ content w') (buf @ content w) \<and> invar w'"
proof (induction "length buf + length (content w)" arbitrary: buf w out rule: less_induct)
  case less
  obtain ok buf' w' where f: "fill_line ops m buf w = Some (ok, buf', w')" "buf' @ content w' = buf @ content w" "invar w'"
    using fill_line_returns [OF less.prems] by blast
  show ?case
  proof (cases "ok \<and> (\<exists>line n. take_line buf' = Some (line, n) \<and> line \<noteq> []) \<and> (\<exists>n h. header_try_parse buf' = Parsed n h)")
    case True
    then obtain n h where p: "header_try_parse buf' = Parsed n h" by blast
    then have n: "0 < n" "n \<le> length buf'"
      using take_line_consumed by (auto simp: header_try_parse_def split: option.splits)
    with arg_cong [OF f(2), of length] have "length (drop n buf') + length (content w') < length buf + length (content w)"
      by simp
    from less.hyps [OF this f(3), of "headers_add (h_name h) (h_value h) out"] obtain ok hs b v where
      "read_headers ops m (drop n buf') w' (headers_add (h_name h) (h_value h) out) = Some (ok, hs, b, v)"
      "suffix (b @ content v) (drop n buf' @ content w')" "invar v" by blast
    moreover have "suffix (drop n buf' @ content w') (buf @ content w)"
      using suffix_drop_append [OF n(2), of "content w'"] f(2) by simp
    ultimately show ?thesis
      using True f(1) p by (subst read_headers.simps) (auto intro: suffix_order.order_trans)
  next
    case False
    have "take_line buf' = Some (line, n) \<Longrightarrow> suffix (drop n buf' @ content w') (buf @ content w)" for line n
      using suffix_drop_append [of n buf' "content w'"] take_line_consumed [of buf' line n] f(2) by simp
    with False f show ?thesis
      by (subst read_headers.simps) (auto split: option.splits parsed.splits)
  qed
qed

lemma read_request_line_spec:
  "invar (cn_wire c) \<Longrightarrow>
   \<exists>r c'. read_request_line ops p c = Some (r, c') \<and> invar (cn_wire c') \<and> cn_upgraded c' = cn_upgraded c \<and>
     (case r of
        Some x \<Rightarrow> \<exists>n. resource_try_parse (cn_raw content c) = Parsed n x \<and> cn_raw content c' = drop n (cn_raw content c)
      | None \<Rightarrow> (resource_try_parse (cn_raw content c) = Malformed \<or> LF \<notin> set (take (Suc (pa_max_request_line_size p)) (cn_raw content c))) \<and>
          cn_raw content c' = cn_raw content c)"
proof (induction "length (content (cn_wire c))" arbitrary: c rule: less_induct)
  case less
  let ?buf = "cn_read_buffer c"
  show ?case
  proof (cases "LF \<in> set ?buf")
    case True
    have parsed: "resource_try_parse ?buf \<noteq> NeedMore" using True resource.need_more by blast
    note stable = resource.stable [OF parsed, of "content (cn_wire c)"]
    from parsed consider "resource_try_parse ?buf = Malformed" | n x where "resource_try_parse ?buf = Parsed n x"
      by (cases "resource_try_parse ?buf") auto
    then show ?thesis
    proof cases
      case 1
      with stable less.prems show ?thesis by (subst read_request_line.simps) simp
    next
      case (2 n x)
      then have "n \<le> length ?buf" using take_line_consumed by (auto simp: resource_try_parse_def split: option.splits)
      with 2 stable less.prems show ?thesis by (subst read_request_line.simps) simp
    qed
  next
    case False
    then have more: "resource_try_parse ?buf = NeedMore" using resource.need_more by blast
    show ?thesis
    proof (cases "length ?buf > pa_max_request_line_size p")
      case True
      then have "take (Suc (pa_max_request_line_size p)) (cn_raw content c) = take (Suc (pa_max_request_line_size p)) ?buf" by simp
      with False have "LF \<notin> set (take (Suc (pa_max_request_line_size p)) (cn_raw content c))" by (auto dest: in_set_takeD)
      with more True less.prems show ?thesis by (subst read_request_line.simps) simp
    next
      case short: False
      obtain bs w where r: "st_read ops 4096 (cn_wire c) = Some (bs, w)" "content (cn_wire c) = bs @ content w"
        "content (cn_wire c) = [] \<longleftrightarrow> bs = []" "invar w"
        by (rule readE [OF less.prems, of 4096]) simp_all
      show ?thesis
      proof (cases "bs = []")
        case True
        with r False have "LF \<notin> set (take (Suc (pa_max_request_line_size p)) (cn_raw content c))" by (auto dest: in_set_takeD)
        with more short r True show ?thesis by (subst read_request_line.simps) (simp add: cn_fill_more_def)
      next
        case nonempty: False
        let ?c = "c\<lparr>cn_wire := w, cn_read_buffer := ?buf @ bs\<rparr>"
        have "length (content (cn_wire ?c)) < length (content (cn_wire c))" "invar (cn_wire ?c)"
          using r nonempty by simp_all
        moreover have raw: "cn_raw content ?c = cn_raw content c" using r(2) by simp
        ultimately show ?thesis
          using less.hyps [of ?c, unfolded raw] by (subst read_request_line.simps) (simp add: cn_fill_more_def more short r(1) nonempty)
      qed
    qed
  qed
qed

end

section \<open>Writing\<close>

text \<open>A response whose streams keep the contracts, and the bytes of one without an upgrade or chunks.\<close>

definition resp_ok :: "('c \<Rightarrow> bool) \<Rightarrow> ('s \<Rightarrow> bool) \<Rightarrow> ('c, 's) response \<Rightarrow> bool" where
  "resp_ok binv invar resp \<longleftrightarrow>
     (\<forall>b. rs_body resp = Some b \<longrightarrow> binv b) \<and> (\<forall>u w l. rs_upgrade resp = Some u \<longrightarrow> invar w \<longrightarrow> u w l \<noteq> None)"

definition resp_plain :: "('c, 's) response \<Rightarrow> bool" where
  "resp_plain resp \<longleftrightarrow> rs_upgrade resp = None \<and> \<not> use_chunked resp"

definition response_text :: "('c \<Rightarrow> string) \<Rightarrow> params \<Rightarrow> int \<Rightarrow> bool \<Rightarrow> ('c, 's) response \<Rightarrow> string" where
  "response_text bcontent p now keep_alive resp =
     response_head (rs_status resp) (framed_headers p (the (format_http_date now)) keep_alive resp) @
     (case rs_body resp of None \<Rightarrow> [] | Some b \<Rightarrow> take (nat (rs_content_length resp)) (bcontent b))"

locale http_wire = duplex ops content invar sent + resp: byte_source bops bcontent binv
  for ops :: "'s stream_ops" and content :: "'s \<Rightarrow> string" and invar :: "'s \<Rightarrow> bool" and sent :: "'s \<Rightarrow> string"
    and bops :: "'c stream_ops" and bcontent :: "'c \<Rightarrow> string" and binv :: "'c \<Rightarrow> bool"
begin

text \<open>Reading leaves what has been sent, and a body copy what is to be read.\<close>

lemma reading: "byte_source ops content (\<lambda>s. invar s \<and> sent s = out)"
proof
  fix s and n :: nat
  assume "invar s \<and> sent s = out" and "0 < n"
  then show "\<exists>bs s'. st_read ops n s = Some (bs, s') \<and> content s = bs @ content s' \<and> length bs \<le> n \<and>
      (content s \<noteq> [] \<longrightarrow> bs \<noteq> []) \<and> invar s' \<and> sent s' = out"
    using readE [of s n] read_sent by metis
qed

lemma writing: "byte_sink ops sent (\<lambda>s. invar s \<and> content s = raw)"
proof
  fix s bs k s'
  assume "invar s \<and> content s = raw" "bs \<noteq> []" "st_write ops bs s = (k, s')"
  then show "0 < k \<and> k \<le> length bs \<and> sent s' = sent s @ take k bs \<and> invar s' \<and> content s' = raw"
    using write_ok write_content by metis
qed

lemma copying: "body_copy bops bcontent binv ops sent (\<lambda>s. invar s \<and> content s = raw)"
  by (intro body_copy.intro writing resp.byte_source_axioms)

lemma write_message_body_returns:
  assumes "binv b" "invar w"
  shows "\<exists>w' b'. write_message_body ops bops n w b = Some (w', b') \<and> invar w' \<and> content w' = content w \<and>
    (0 \<le> n \<longrightarrow> sent w' = sent w @ take (nat n) (bcontent b))"
proof -
  have "invar w \<and> content w = content w" using assms by simp
  from body_copy.write_chunked_sends [OF copying assms(1) this] body_copy.write_plain_sends [OF copying assms(1) this, of n]
  show ?thesis by (fastforce simp: write_message_body_def)
qed

lemma write_response_returns:
  assumes "invar (cn_wire c)" "resp_ok binv invar resp" "format_http_date now \<noteq> None"
  shows "\<exists>c'. write_response ops bops p now resp keep c = Some c' \<and>
    (cn_upgraded c' \<or> invar (cn_wire c') \<and> cn_raw content c' = cn_raw content c \<and> cn_upgraded c' = cn_upgraded c)"
proof -
  have w: "\<exists>w. write_all ops buf (cn_wire c) = Some w \<and> invar w \<and> content w = content (cn_wire c)" for buf
    using byte_sink.write_all_sends [OF writing, of "cn_wire c" "content (cn_wire c)" buf] assms(1) by blast
  obtain date where date: "format_http_date now = Some date" using assms(3) by blast
  show ?thesis
  proof (cases "rs_upgrade resp")
    case (Some u)
    obtain w where "write_all ops (response_head (rs_status resp) (rs_headers resp)) (cn_wire c) = Some w" "invar w"
      using w by blast
    moreover from this(2) assms(2) Some obtain w' where "u w (cn_read_buffer c) = Some w'" unfolding resp_ok_def by blast
    ultimately show ?thesis using Some by (simp add: write_response_def)
  next
    case None
    obtain w where "write_all ops (response_head (rs_status resp) (framed_headers p date keep resp)) (cn_wire c) = Some w"
      "invar w" "content w = content (cn_wire c)" using w by blast
    with None date assms(2) write_message_body_returns [of _ w "if use_chunked resp then -1 else rs_content_length resp"]
    show ?thesis by (cases "rs_body resp") (fastforce simp: write_response_def resp_ok_def)+
  qed
qed

lemma write_response_sends:
  assumes "invar (cn_wire c)" "resp_ok binv invar resp" "resp_plain resp" "format_http_date now \<noteq> None"
  shows "\<exists>w. write_response ops bops p now resp keep c = Some (c\<lparr>cn_wire := w\<rparr>) \<and> invar w \<and>
    content w = content (cn_wire c) \<and> sent w = sent (cn_wire c) @ response_text bcontent p now keep resp"
proof -
  obtain date where date: "format_http_date now = Some date" using assms(4) by blast
  let ?head = "response_head (rs_status resp) (framed_headers p date keep resp)"
  obtain w where w: "write_all ops ?head (cn_wire c) = Some w" "invar w" "content w = content (cn_wire c)"
    "sent w = sent (cn_wire c) @ ?head"
    using byte_sink.write_all_sends [OF writing, of "cn_wire c" "content (cn_wire c)" ?head] assms(1) by blast
  show ?thesis
  proof (cases "rs_body resp")
    case None
    with w date assms(3) show ?thesis
      by (intro exI [of _ w]) (simp add: write_response_def resp_plain_def response_text_def)
  next
    case (Some b)
    then have "0 \<le> rs_content_length resp" "binv b" using assms(2,3) by (auto simp: resp_plain_def use_chunked_def resp_ok_def)
    with write_message_body_returns [OF _ w(2), of b "rs_content_length resp"] w date assms(3) Some show ?thesis
      by (auto simp: write_response_def resp_plain_def response_text_def)
  qed
qed

end

section \<open>The loop returns\<close>

abbreviation within :: "('s \<Rightarrow> string) \<Rightarrow> ('s \<Rightarrow> bool) \<Rightarrow> string \<Rightarrow> string \<times> 's \<Rightarrow> bool" where
  "within content invar whole \<equiv> \<lambda>(b, s). invar s \<and> suffix (b @ content s) whole"

lemma live_within:
  assumes "byte_source ops content invar"
  shows "live_source (buffered_ops ops) (\<lambda>(b, s). b @ content s) (within content invar whole)"
proof -
  have "within content invar whole = (\<lambda>x. (\<lambda>(b, s). invar s) x \<and> suffix ((\<lambda>(b, s). b @ content s) x) whole)" by auto
  with byte_source.suffix_source [OF live_source.axioms(1) [OF buffered_live [OF assms]], of whole]
  have "byte_source (buffered_ops ops) (\<lambda>(b, s). b @ content s) (within content invar whole)" by simp
  then show ?thesis by (simp add: live_source_def live_source_axioms_def buffered_ops_def)
qed

lemma parsed_consumes:
  "resource_try_parse raw = Parsed n x \<Longrightarrow> 0 < n \<and> n \<le> length raw"
  using take_line_consumed by (auto simp: resource_try_parse_def split: option.splits)

lemma make_response_ok: "resp_ok binv invar (make_response code)" "resp_plain (make_response code)"
  by (simp_all add: resp_ok_def resp_plain_def use_chunked_def make_response_def empty_response_def)

text \<open>
  What the loop needs of a handler: it returns, the body it leaves is the body it was given, read
  any far, and the streams of its response keep their contracts.
\<close>

locale http_app = http_wire ops content invar sent bops bcontent binv
  for ops :: "'s stream_ops" and content :: "'s \<Rightarrow> string" and invar :: "'s \<Rightarrow> bool" and sent :: "'s \<Rightarrow> string"
    and bops :: "'c stream_ops" and bcontent :: "'c \<Rightarrow> string" and binv :: "'c \<Rightarrow> bool" +
  fixes clock :: "nat \<Rightarrow> int" and handler :: "('s body_stream, 'a, ('c, 's) response) handler option"
  assumes clock_ok: "format_http_date (clock k) \<noteq> None"
    and handler_returns: "body_inv content (within content invar whole) (rq_body req) \<Longrightarrow>
      \<exists>resp req' a'. call_handler handler (req, a) = Some (resp, req', a') \<and>
        body_inv content (within content invar whole) (rq_body req') \<and> resp_ok binv invar resp"
begin

lemma exchange_returns:
  assumes "make_body_stream ops (cn_read_buffer c) (cn_wire c) headers = Some body" "invar (cn_wire c)"
  shows "\<exists>resp req' a' out body'. call_handler handler (request_of resource headers body, a) = Some (resp, req', a') \<and>
    resp_ok binv invar resp \<and> read_all (body_ops ops) [] (rq_body req') = Some (out, body') \<and>
    invar (snd (body_source body')) \<and> suffix ((\<lambda>(b, s). b @ content s) (body_source body')) (cn_raw content c)"
proof -
  let ?ok = "within content invar (cn_raw content c)"
  have "body_inv content ?ok body" using make_body_stream_inv [OF assms(1), of ?ok] assms(2) by simp
  then have "body_inv content ?ok (rq_body (request_of resource headers body))" by (simp add: request_of_def)
  from handler_returns [OF this] obtain resp req' a' where h: "call_handler handler (request_of resource headers body, a) = Some (resp, req', a')"
    "body_inv content ?ok (rq_body req')" "resp_ok binv invar resp" by blast
  from byte_source.read_all_content [OF body_byte_source [OF live_within [OF byte_source_axioms]] h(2), of "[]"]
  obtain out body' where r: "read_all (body_ops ops) [] (rq_body req') = Some (out, body')" "body_inv content ?ok body'" by blast
  from body_inv_source [OF r(2)] h r(1) show ?thesis by (auto simp: case_prod_beta)
qed

lemma run_returns:
  "invar (cn_wire c) \<Longrightarrow> \<exists>r. connection_run ops bops p clock handler k c a = Some r"
proof (induction "length (cn_raw content c)" arbitrary: c k a rule: less_induct)
  case less
  obtain r c1 where c1: "read_request_line ops p c = Some (r, c1)" "invar (cn_wire c1)"
    "\<And>x. r = Some x \<Longrightarrow> \<exists>n. resource_try_parse (cn_raw content c) = Parsed n x \<and> cn_raw content c1 = drop n (cn_raw content c)"
    using read_request_line_spec [OF less.prems, of p] by fastforce
  show ?case
  proof (cases r)
    case None
    with c1 show ?thesis by (subst connection_run.simps) simp
  next
    case (Some x)
    with c1(3) parsed_consumes have shorter: "length (cn_raw content c1) < length (cn_raw content c)" by fastforce
    obtain ok hs buf w where h: "read_headers ops (pa_max_header_size p) (cn_read_buffer c1) (cn_wire c1) [] = Some (ok, hs, buf, w)"
      "suffix (buf @ content w) (cn_raw content c1)" "invar w" using read_headers_suffix [OF c1(2)] by blast
    let ?c = "c1\<lparr>cn_read_buffer := buf, cn_wire := w\<rparr>"
    obtain c2 where bad: "write_response ops bops p (clock k) (make_response 400) False ?c = Some c2"
      using write_response_returns [OF _ make_response_ok(1) [where code = 400] clock_ok [of k], where c = ?c and p = p and
          keep = False] h(3) by auto
    show ?thesis
    proof (cases "ok \<and> (\<exists>b. make_body_stream ops buf w hs = Some b)")
      case False
      with Some c1(1) h(1) bad show ?thesis by (subst connection_run.simps) (auto simp: Let_def split: option.splits)
    next
      case True
      then obtain b where b: "make_body_stream ops buf w hs = Some b" by blast
      with exchange_returns [of ?c hs b] h(3) obtain resp req' a' out b' where e:
        "call_handler handler (request_of x hs b, a) = Some (resp, req', a')" "resp_ok binv invar resp"
        "read_all (body_ops ops) [] (rq_body req') = Some (out, b')" "invar (snd (body_source b'))"
        "suffix ((\<lambda>(b, s). b @ content s) (body_source b')) (buf @ content w)" by fastforce
      let ?c' = "?c\<lparr>cn_read_buffer := fst (body_source b'), cn_wire := snd (body_source b')\<rparr>"
      obtain c3 where c3: "write_response ops bops p (clock k) resp (wants_keep_alive (rq_resource req') (rq_headers req')) ?c' = Some c3"
        "cn_upgraded c3 \<or> invar (cn_wire c3) \<and> cn_raw content c3 = cn_raw content ?c'"
        using write_response_returns [OF _ e(2) clock_ok [of k], where c = ?c' and p = p and
            keep = "wants_keep_alive (rq_resource req') (rq_headers req')"] e(4) by auto
      have "length (cn_raw content ?c') < length (cn_raw content c)"
        using e(5) h(2) shorter by (auto simp: case_prod_beta dest!: suffix_length_le)
      with c3(2) have "\<not> cn_upgraded c3 \<Longrightarrow> \<exists>r. connection_run ops bops p clock handler (k + 1) c3 a' = Some r"
        using less.hyps [of c3 "k + 1" a'] by auto
      with Some True c1(1) h(1) b e c3(1) show ?thesis
        by (subst connection_run.simps) (auto simp: Let_def)
    qed
  qed
qed

end

section \<open>Requests on the wire\<close>

record wire_request =
  wq_method :: string
  wq_target :: string
  wq_headers :: http_headers
  wq_body :: string

definition request_head :: "wire_request \<Rightarrow> string" where
  "request_head q = wq_method q @ '' '' @ wq_target q @ '' HTTP/1.1''"

definition request_text :: "wire_request \<Rightarrow> string" where
  "request_text q = request_head q @ CRLF @ headers_write_to (wq_headers q) @ CRLF @ wq_body q"

definition resource_of :: "wire_request \<Rightarrow> http_resource" where
  "resource_of q = \<lparr>r_method = http_method_of (wq_method q), r_path = url_decode (fst (split_target (wq_target q))),
     r_raw_path = fst (split_target (wq_target q)), r_query = snd (split_target (wq_target q)), r_major = 1, r_minor = 1\<rparr>"

text \<open>A request a client may send: no stray blanks, lines within the limits, a body of the announced length.\<close>

definition wf_head :: "params \<Rightarrow> wire_request \<Rightarrow> bool" where
  "wf_head p q \<longleftrightarrow>
     CHR '' '' \<notin> set (wq_method q) \<and> LF \<notin> set (wq_method q) \<and> CHR '' '' \<notin> set (wq_target q) \<and> LF \<notin> set (wq_target q) \<and>
     length (request_head q) < pa_max_request_line_size p \<and> 0 < pa_max_header_size p \<and>
     list_all (\<lambda>h. wf_header h \<and> length (header_write h) \<le> Suc (pa_max_header_size p)) (wq_headers q)"

definition wf_request :: "params \<Rightarrow> wire_request \<Rightarrow> bool" where
  "wf_request p q \<longleftrightarrow> wf_head p q \<and> headers_get (wq_headers q) ''Transfer-Encoding'' = None \<and> length (wq_body q) < 2 ^ 63 \<and>
     (case headers_get (wq_headers q) ''Content-Length'' of
        None \<Rightarrow> wq_body q = [] | Some cl \<Rightarrow> cl = to_string_nat (length (wq_body q)))"

lemma request_head_parses:
  assumes "wf_head p q"
  shows "LF \<notin> set (request_head q)"
    "resource_try_parse (request_head q @ CRLF @ rest) = Parsed (length (request_head q) + 2) (resource_of q)"
proof -
  show no: "LF \<notin> set (request_head q)" using assms by (simp add: wf_head_def request_head_def LF_def)
  have "resource_of_line (request_head q) = Some (resource_of q)"
    using resource_of_request_line [of "wq_method q" "wq_target q" "CHR ''1''" "CHR ''1''"] assms
    by (simp add: wf_head_def request_head_def resource_of_def digit_one)
  with take_line_crlf [OF no, of rest]
  show "resource_try_parse (request_head q @ CRLF @ rest) = Parsed (length (request_head q) + 2) (resource_of q)"
    by (simp add: resource_try_parse_def)
qed

lemma request_body_framed:
  assumes "wf_request p q" "buf @ content w = wq_body q @ rest"
  shows "\<exists>b. make_body_stream ops buf w (wq_headers q) = Some b \<and> body_content content b = wq_body q \<and> body_rest content b = Some rest"
proof (cases "headers_get (wq_headers q) ''Content-Length''")
  case None
  with assms show ?thesis by (simp add: make_body_stream_def wf_request_def memory_of_def)
next
  case (Some cl)
  let ?n = "length (wq_body q)"
  have "accumulate_digits (to_string_nat ?n) 0 = Some (int ?n)"
    using assms(1) accumulate_digits_dec_value [of "to_string_nat ?n"] to_string_nat_digits [of ?n]
    by (simp add: wf_request_def)
  with assms Some show ?thesis by (simp add: make_body_stream_def wf_request_def length_body_fields)
qed

section \<open>Serving requests in order\<close>

text \<open>
  An application as a function of the request line, the headers and the body: what it answers and
  the application state it leaves.  \<open>serve\<close> answers a list of requests, up to the first that does
  not keep the connection.
\<close>

type_synonym ('c, 's, 'a) app = "http_resource \<Rightarrow> http_headers \<Rightarrow> string \<Rightarrow> 'a \<Rightarrow> ('c, 's) response \<times> 'a"

fun serve :: "('c \<Rightarrow> string) \<Rightarrow> params \<Rightarrow> (nat \<Rightarrow> int) \<Rightarrow> ('c, 's, 'a) app \<Rightarrow> nat \<Rightarrow> wire_request list \<Rightarrow> 'a \<Rightarrow> string \<times> 'a" where
  "serve bcontent p clock app k [] a = ([], a)"
| "serve bcontent p clock app k (q # qs) a =
     (let keep_alive = wants_keep_alive (resource_of q) (wq_headers q);
          (resp, a) = app (resource_of q) (wq_headers q) (wq_body q) a;
          (out, a) = (if keep_alive then serve bcontent p clock app (k + 1) qs a else ([], a))
      in (response_text bcontent p (clock k) keep_alive resp @ out, a))"

context http_wire
begin

lemma read_head:
  assumes "invar (cn_wire c)" "wf_head p q" "cn_raw content c = request_head q @ CRLF @ tail"
  shows "\<exists>c1. read_request_line ops p c = Some (Some (resource_of q), c1) \<and> cn_upgraded c1 = cn_upgraded c \<and>
    invar (cn_wire c1) \<and> sent (cn_wire c1) = sent (cn_wire c) \<and> cn_raw content c1 = tail"
proof -
  let ?i = "\<lambda>s. invar s \<and> sent s = sent (cn_wire c)" and ?head = "request_head q"
  have i: "?i (cn_wire c)" using assms(1) by simp
  have parsed: "resource_try_parse (cn_raw content c) = Parsed (length ?head + 2) (resource_of q)"
    using request_head_parses(2) [OF assms(2)] assms(3) by simp
  have "LF \<in> set (take (Suc (pa_max_request_line_size p)) (cn_raw content c))"
    using assms(2,3) less_iff_Suc_add [of "length ?head" "pa_max_request_line_size p"] by (auto simp: wf_head_def)
  with byte_source.read_request_line_spec [OF reading i, of p] parsed show ?thesis
    unfolding assms(3) by (fastforce split: option.splits)
qed

lemma read_request:
  assumes "invar (cn_wire c)" "wf_request p q" "cn_raw content c = request_text q @ rest"
  shows "\<exists>c1 buf w. read_request_line ops p c = Some (Some (resource_of q), c1) \<and> cn_upgraded c1 = cn_upgraded c \<and>
    read_headers ops (pa_max_header_size p) (cn_read_buffer c1) (cn_wire c1) [] = Some (True, wq_headers q, buf, w) \<and>
    buf @ content w = wq_body q @ rest \<and> invar w \<and> sent w = sent (cn_wire c)"
proof -
  have wf: "wf_head p q" "0 < pa_max_header_size p"
    "list_all (\<lambda>h. wf_header h \<and> length (header_write h) \<le> Suc (pa_max_header_size p)) (wq_headers q)"
    using assms(2) by (simp_all add: wf_request_def wf_head_def)
  have "cn_raw content c = request_head q @ CRLF @ headers_write_to (wq_headers q) @ CRLF @ wq_body q @ rest"
    using assms(3) by (simp add: request_text_def)
  from read_head [OF assms(1) wf(1) this] obtain c1 where c1:
    "read_request_line ops p c = Some (Some (resource_of q), c1)" "cn_upgraded c1 = cn_upgraded c"
    "invar (cn_wire c1) \<and> sent (cn_wire c1) = sent (cn_wire c)"
    "cn_raw content c1 = headers_write_to (wq_headers q) @ CRLF @ wq_body q @ rest" by auto
  from byte_source.read_headers_write [OF reading c1(3,4) wf(3,2), of "[]"] c1(1,2) show ?thesis by auto
qed

text \<open>A header block the loop refuses: a line that is not a header, or a length that is not a number.\<close>

lemma accumulate_digits_None: "accumulate_digits s v = None \<longleftrightarrow> \<not> (\<forall>c \<in> set s. is_digit c)"
  by (induction s arbitrary: v) auto

lemma read_bad_head:
  assumes "invar (cn_wire c)" "wf_head p q"
    "cn_raw content c = request_head q @ CRLF @ headers_write_to (wq_headers q) @ bad @ CRLF @ rest"
    "LF \<notin> set bad" "length bad < pa_max_header_size p"
    "if bad = [] then headers_get (wq_headers q) ''Transfer-Encoding'' = None \<and>
       (\<exists>cl. headers_get (wq_headers q) ''Content-Length'' = Some cl \<and> \<not> (\<forall>c \<in> set cl. is_digit c))
     else header_of_line bad = None"
  shows "\<exists>c1 ok buf w. read_request_line ops p c = Some (Some (resource_of q), c1) \<and> cn_upgraded c1 = cn_upgraded c \<and>
    read_headers ops (pa_max_header_size p) (cn_read_buffer c1) (cn_wire c1) [] = Some (ok, wq_headers q, buf, w) \<and>
    (ok \<longrightarrow> make_body_stream ops buf w (wq_headers q) = None) \<and> invar w \<and> sent w = sent (cn_wire c)"
proof -
  have wf: "list_all (\<lambda>h. wf_header h \<and> length (header_write h) \<le> Suc (pa_max_header_size p)) (wq_headers q)"
    "0 < pa_max_header_size p" using assms(2) by (simp_all add: wf_head_def)
  from read_head [OF assms(1-3)] obtain c1 where c1:
    "read_request_line ops p c = Some (Some (resource_of q), c1)" "cn_upgraded c1 = cn_upgraded c"
    "invar (cn_wire c1) \<and> sent (cn_wire c1) = sent (cn_wire c)"
    "cn_raw content c1 = headers_write_to (wq_headers q) @ bad @ CRLF @ rest" by auto
  show ?thesis
  proof (cases "bad = []")
    case True
    then obtain cl where "headers_get (wq_headers q) ''Transfer-Encoding'' = None"
      "headers_get (wq_headers q) ''Content-Length'' = Some cl" "\<not> (\<forall>c \<in> set cl. is_digit c)" using assms(6) by auto
    moreover from this(3) have "accumulate_digits cl 0 = None" by (simp only: accumulate_digits_None simp_thms)
    ultimately have "make_body_stream ops buf w (wq_headers q) = None" for buf w by (simp add: make_body_stream_def)
    moreover from True c1(4) have "cn_raw content c1 = headers_write_to (wq_headers q) @ CRLF @ rest" by simp
    from byte_source.read_headers_write [OF reading c1(3) this wf, of "[]"]
    obtain buf w where "read_headers ops (pa_max_header_size p) (cn_read_buffer c1) (cn_wire c1) [] = Some (True, wq_headers q, buf, w)"
      "invar w" "sent w = sent (cn_wire c)" by auto
    ultimately show ?thesis using c1(1,2) by blast
  next
    case False
    with byte_source.read_headers_refused [OF reading c1(3,4) wf(1) False assms(4,5), of "[]"] c1(1,2) assms(6)
    show ?thesis by auto
  qed
qed

end

text \<open>
  What makes a handler implement an application: it answers what the application answers, keeps
  the request line and the headers, and reads only what belongs to its body.
\<close>

locale http_service = http_wire ops content invar sent bops bcontent binv
  for ops :: "'s stream_ops" and content :: "'s \<Rightarrow> string" and invar :: "'s \<Rightarrow> bool" and sent :: "'s \<Rightarrow> string"
    and bops :: "'c stream_ops" and bcontent :: "'c \<Rightarrow> string" and binv :: "'c \<Rightarrow> bool" +
  fixes clock :: "nat \<Rightarrow> int" and handler :: "('s body_stream, 'a, ('c, 's) response) handler option"
    and app :: "('c, 's, 'a) app"
  assumes clock_ok: "format_http_date (clock k) \<noteq> None"
    and handler_answers: "body_inv content (\<lambda>(b, s). invar s \<and> sent s = out) (rq_body req) \<Longrightarrow>
      app (rq_resource req) (rq_headers req) (body_content content (rq_body req)) a = (resp, a') \<Longrightarrow>
      resp_ok binv invar resp \<and> resp_plain resp \<and>
      (\<exists>req'. call_handler handler (req, a) = Some (resp, req', a') \<and>
         rq_resource req' = rq_resource req \<and> rq_headers req' = rq_headers req \<and>
         body_inv content (\<lambda>(b, s). invar s \<and> sent s = out) (rq_body req') \<and>
         body_rest content (rq_body req') = body_rest content (rq_body req))"
begin

lemma exchange_answers:
  assumes "wf_request p q" "buf @ content w = wq_body q @ rest" "invar w"
    "app (resource_of q) (wq_headers q) (wq_body q) a = (resp, a')"
  shows "\<exists>b req' out b'. make_body_stream ops buf w (wq_headers q) = Some b \<and>
    call_handler handler (request_of (resource_of q) (wq_headers q) b, a) = Some (resp, req', a') \<and>
    rq_resource req' = resource_of q \<and> rq_headers req' = wq_headers q \<and> resp_ok binv invar resp \<and> resp_plain resp \<and>
    read_all (body_ops ops) [] (rq_body req') = Some (out, b') \<and> invar (snd (body_source b')) \<and>
    sent (snd (body_source b')) = sent w \<and> fst (body_source b') @ content (snd (body_source b')) = rest"
proof -
  let ?i = "\<lambda>s. invar s \<and> sent s = sent w" and ?ok = "\<lambda>(b, s). invar s \<and> sent s = sent w"
  obtain b where b: "make_body_stream ops buf w (wq_headers q) = Some b" "body_content content b = wq_body q"
    "body_rest content b = Some rest" using request_body_framed [where content = content, OF assms(1,2)] by blast
  have "body_inv content ?ok b" using make_body_stream_inv [OF b(1), of ?ok] assms(3) by simp
  with handler_answers [of "sent w" "request_of (resource_of q) (wq_headers q) b" a resp a'] b assms(4)
  obtain req' where h: "call_handler handler (request_of (resource_of q) (wq_headers q) b, a) = Some (resp, req', a')"
    "rq_resource req' = resource_of q" "rq_headers req' = wq_headers q" "resp_ok binv invar resp" "resp_plain resp"
    "body_inv content ?ok (rq_body req') \<and> body_rest content (rq_body req') = Some rest"
    by (auto simp: request_of_def)
  have live: "live_source (buffered_ops ops) (\<lambda>(b, s). b @ content s) ?ok" by (rule buffered_live [OF reading])
  from byte_source.read_all_content [OF body_byte_source_rest [OF live] h(6), of "[]"]
  obtain out b' where "read_all (body_ops ops) [] (rq_body req') = Some (out, b')" "body_content content b' = []"
    "body_inv content ?ok b'" "body_rest content b' = Some rest" by blast
  with body_inv_source [of content ?ok b'] body_drained [of content b' rest] b(1) h show ?thesis
    by (auto simp: case_prod_beta)
qed

lemma run_serves:
  assumes "list_all (wf_request p) qs" "invar (cn_wire c)" "\<not> cn_upgraded c" "cn_raw content c = concat (map request_text qs)"
  shows "\<exists>c' a'. connection_run ops bops p clock handler k c a = Some (c', a') \<and>
    (sent (cn_wire c'), a') = (let (out, a') = serve bcontent p clock app k qs a in (sent (cn_wire c) @ out, a'))"
  using assms
proof (induction qs arbitrary: c k a)
  case Nil
  have i: "invar (cn_wire c) \<and> sent (cn_wire c) = sent (cn_wire c)" using Nil by simp
  have "resource_try_parse [] = NeedMore" using resource.need_more [of "[]"] by simp
  with Nil byte_source.read_request_line_spec [OF reading i, of p]
  obtain c' where "read_request_line ops p c = Some (None, c')" "sent (cn_wire c') = sent (cn_wire c)"
    by (auto split: option.splits)
  then show ?case by (subst connection_run.simps) simp
next
  case (Cons q qs)
  let ?rest = "concat (map request_text qs)" and ?keep = "wants_keep_alive (resource_of q) (wq_headers q)"
  have q: "wf_request p q" "cn_raw content c = request_text q @ ?rest" using Cons.prems by simp_all
  obtain c1 buf w where r: "read_request_line ops p c = Some (Some (resource_of q), c1)" "cn_upgraded c1 = cn_upgraded c"
    "read_headers ops (pa_max_header_size p) (cn_read_buffer c1) (cn_wire c1) [] = Some (True, wq_headers q, buf, w)"
    "buf @ content w = wq_body q @ ?rest" "invar w" "sent w = sent (cn_wire c)"
    using read_request [OF Cons.prems(2) q] by blast
  obtain resp a1 where app: "app (resource_of q) (wq_headers q) (wq_body q) a = (resp, a1)" by (cases "app (resource_of q) (wq_headers q) (wq_body q) a")
  obtain b req' out b' where e: "make_body_stream ops buf w (wq_headers q) = Some b"
    "call_handler handler (request_of (resource_of q) (wq_headers q) b, a) = Some (resp, req', a1)"
    "rq_resource req' = resource_of q" "rq_headers req' = wq_headers q" "resp_ok binv invar resp" "resp_plain resp"
    "read_all (body_ops ops) [] (rq_body req') = Some (out, b')" "invar (snd (body_source b'))"
    "sent (snd (body_source b')) = sent w" "fst (body_source b') @ content (snd (body_source b')) = ?rest"
    using exchange_answers [OF q(1) r(4,5) app] by blast
  let ?c = "c1\<lparr>cn_read_buffer := fst (body_source b'), cn_wire := snd (body_source b')\<rparr>"
  obtain w' where w: "write_response ops bops p (clock k) resp ?keep ?c = Some (?c\<lparr>cn_wire := w'\<rparr>)" "invar w'"
    "content w' = content (cn_wire ?c)" "sent w' = sent (cn_wire c) @ response_text bcontent p (clock k) ?keep resp"
    using write_response_sends [OF _ e(5,6) clock_ok [of k], of ?c p ?keep] e(8,9) r(6) by auto
  let ?d = "?c\<lparr>cn_wire := w'\<rparr>"
  have run: "connection_run ops bops p clock handler k c a =
      (if ?keep then connection_run ops bops p clock handler (k + 1) ?d a1 else Some (?d, a1))"
    using r e w(1) Cons.prems(3) by (subst connection_run.simps) (simp add: Let_def)
  have "list_all (wf_request p) qs" "invar (cn_wire ?d)" "\<not> cn_upgraded ?d" "cn_raw content ?d = ?rest"
    using Cons.prems r(2) w e(10) by simp_all
  from Cons.IH [OF this, of "k + 1" a1] run app w(4) show ?case by (auto simp: Let_def split: prod.splits)
qed

end

section \<open>Properties\<close>

text \<open>
  The contracts hold of a socket that answers from memory, with no handler installed: every request
  is answered with 501.
\<close>

lemma epoch_date: "format_http_date 0 \<noteq> None"
  by code_simp

interpretation server: http_wire socket_ops socket_content socket_inv tx memory_ops memory_content memory_inv
  by (intro http_wire.intro socket.duplex_axioms memory.byte_source_axioms)

interpretation no_handler: http_app socket_ops socket_content socket_inv tx memory_ops memory_content memory_inv
    "\<lambda>_. 0" "None :: (socket_stream body_stream, 'a, (memory_stream, socket_stream) response) handler option"
  by unfold_locales (auto simp: call_handler_def make_response_ok epoch_date)

interpretation unimplemented: http_service socket_ops socket_content socket_inv tx memory_ops memory_content memory_inv
    "\<lambda>_. 0" "None :: (socket_stream body_stream, 'a, (memory_stream, socket_stream) response) handler option"
    "\<lambda>_ _ _ a. (make_response 501, a)"
  by unfold_locales (auto simp: call_handler_def make_response_ok epoch_date)

text \<open>
  C19. The loop of a connection always ends: whatever finite bytes the wire delivers, in whatever
  segments, with a handler that returns and leaves its body's stream in order, \<open>run\<close> returns.
\<close>

theorem connection_returns:
  assumes "http_app ops content invar sent bops bcontent binv clock handler" "invar (cn_wire c)"
  shows "\<exists>r. connection_run ops bops p clock handler k c a = Some r"
  by (rule http_app.run_returns [OF assms])

theorem connection_returns_witness:
  "\<exists>r. connection_run socket_ops memory_ops default_params (\<lambda>_. 0) None 0
     (connection_of \<lparr>rx = [''GET / HT'', ''TP/1.1'' @ CRLF @ ''Host'', '': a'' @ CRLF @ CRLF @ ''GET''], tx = []\<rparr> []) (0 :: nat) = Some r"
  by (rule connection_returns [OF no_handler.http_app_axioms]) (simp add: connection_of_def)



text \<open>
  C25. A request whose header block is refused, at a line that is not a header or at the end of the
  block for a \<open>Content-Length\<close> that is not a number, is answered with 400 and
  \<open>Connection: close\<close>, the handler is not called, and nothing after it is served.
\<close>

theorem malformed_request_400:
  fixes ops :: "'s stream_ops" and bops :: "'c stream_ops"
  assumes "http_wire ops content invar sent bops bcontent binv" "format_http_date (clock k) \<noteq> None"
    and "invar (cn_wire c)" "wf_head p q"
    and "cn_raw content c = request_head q @ CRLF @ headers_write_to (wq_headers q) @ bad @ CRLF @ rest"
    and "LF \<notin> set bad" "length bad < pa_max_header_size p"
    and "if bad = [] then headers_get (wq_headers q) ''Transfer-Encoding'' = None \<and>
       (\<exists>cl. headers_get (wq_headers q) ''Content-Length'' = Some cl \<and> \<not> (\<forall>c \<in> set cl. is_digit c))
     else header_of_line bad = None"
  shows "\<exists>c'. connection_run ops bops p clock handler k c a = Some (c', a) \<and>
    sent (cn_wire c') = sent (cn_wire c) @ response_text bcontent p (clock k) False (make_response 400 :: ('c, 's) response)"
proof -
  obtain c1 ok buf w where r: "read_request_line ops p c = Some (Some (resource_of q), c1)"
    "read_headers ops (pa_max_header_size p) (cn_read_buffer c1) (cn_wire c1) [] = Some (ok, wq_headers q, buf, w)"
    "ok \<longrightarrow> make_body_stream ops buf w (wq_headers q) = None" "invar w" "sent w = sent (cn_wire c)"
    using http_wire.read_bad_head [OF assms(1,3-8)] by blast
  let ?c = "c1\<lparr>cn_read_buffer := buf, cn_wire := w\<rparr>"
  obtain w' where "write_response ops bops p (clock k) (make_response 400) False ?c = Some (?c\<lparr>cn_wire := w'\<rparr>)"
    "sent w' = sent w @ response_text bcontent p (clock k) False (make_response 400 :: ('c, 's) response)"
    using http_wire.write_response_sends [OF assms(1) _ make_response_ok [where code = 400] assms(2), of ?c p False] r(4)
    by auto
  with r show ?thesis by (subst connection_run.simps) (auto simp: Let_def)
qed

theorem malformed_request_400_witness:
  "\<exists>c'. connection_run socket_ops memory_ops default_params (\<lambda>_. 0) None 0
     (connection_of \<lparr>rx = [''GET / HTTP/1.1'' @ CRLF @ ''no colon'' @ CRLF, ''GET''], tx = []\<rparr> []) (0 :: nat) = Some (c', 0) \<and>
     tx (cn_wire c') = response_text memory_content default_params 0 False (make_response 400 :: (memory_stream, socket_stream) response)"
proof -
  let ?q = "\<lparr>wq_method = ''GET'', wq_target = ''/'', wq_headers = [], wq_body = []\<rparr>"
  have "wf_head default_params ?q" "header_of_line ''no colon'' = None" by code_simp+
  then show ?thesis
    using malformed_request_400 [OF server.http_wire_axioms, of "\<lambda>_. 0" 0
        "connection_of \<lparr>rx = [''GET / HTTP/1.1'' @ CRLF @ ''no colon'' @ CRLF, ''GET''], tx = []\<rparr> []" default_params ?q "''no colon''" "''GET''"]
      epoch_date
    by (simp add: connection_of_def request_head_def headers_write_to_def default_params_def LF_def)
qed

end
