(* ===== verification/File_Stream.thy ===== *)
theory File_Stream
  imports Io_Stream
begin

text \<open>
  \<open>src/src/io/file_stream.cpp\<close> and \<open>src/src/platform/posix/file_mapping.cpp\<close>: a file opened for
  reading, through a \<open>FILE\<close> and, from the first read on, through a sliding memory-mapped window.
  The file does not change while it is open.  Work offloaded to the thread pool runs where it is
  awaited.  The system decides whether the second handle opens and whether a mapping succeeds:
  both are fields of \<open>map_env\<close>, with the page size.
\<close>

section \<open>\<open>file_mapping\<close>\<close>

record map_env =
  me_page_size :: int
  me_open :: bool
  me_mmap :: "int \<Rightarrow> int \<Rightarrow> bool"

text \<open>The mapped window holds its bytes; a pointer into it is the bytes from there to its end.\<close>

record file_mapping =
  fm_window_data :: "string option"
  fm_window_start :: int
  fm_window_size :: int
  fm_total_size :: int
  fm_fd :: bool

definition window_capacity :: int where "window_capacity = 4 * 1024 * 1024"

definition no_mapping :: file_mapping where
  "no_mapping = \<lparr>fm_window_data = None, fm_window_start = 0, fm_window_size = 0, fm_total_size = 0, fm_fd = False\<rparr>"

definition mapping_valid :: "file_mapping \<Rightarrow> bool" where "mapping_valid m \<longleftrightarrow> fm_total_size m > 0"

definition mapping_open :: "map_env \<Rightarrow> string \<Rightarrow> file_mapping" where
  "mapping_open env file =
     (if \<not> me_open env \<or> file = [] then no_mapping
      else no_mapping\<lparr>fm_fd := True, fm_total_size := int (length file)\<rparr>)"

definition remap :: "map_env \<Rightarrow> string \<Rightarrow> int \<Rightarrow> int \<Rightarrow> file_mapping \<Rightarrow> bool \<times> file_mapping" where
  "remap env file aligned_start len m =
     (if \<not> me_mmap env aligned_start len then (False, m)
      else (True, m\<lparr>fm_window_data := Some (take (nat len) (drop (nat aligned_start) file)),
                    fm_window_start := aligned_start, fm_window_size := len\<rparr>))"

definition ensure_window :: "map_env \<Rightarrow> string \<Rightarrow> int \<Rightarrow> int \<Rightarrow> file_mapping \<Rightarrow> string option \<times> file_mapping" where
  "ensure_window env file offset len m =
     (if \<not> fm_fd m \<or> offset < 0 \<or> len < 0 \<or> offset + len > fm_total_size m then (None, m)
      else if fm_window_data m \<noteq> None \<and> offset \<ge> fm_window_start m \<and> offset + len \<le> fm_window_start m + fm_window_size m
      then (map_option (drop (nat (offset - fm_window_start m))) (fm_window_data m), m)
      else let aligned_start = offset div me_page_size env * me_page_size env;
               want_size = max window_capacity (len + (offset - aligned_start));
               want_size = min want_size (fm_total_size m - aligned_start);
               (ok, m) = remap env file aligned_start want_size m
           in if \<not> ok then (None, m)
              else (map_option (drop (nat (offset - fm_window_start m))) (fm_window_data m), m))"

section \<open>\<open>file_stream\<close>\<close>

text \<open>
  A \<open>FILE\<close> is the bytes of the file and a cursor, which may lie past the end.  Streams are opened
  with mode \<open>rb\<close>, the only mode in the library; \<open>fwrite\<close> on such a file writes nothing.
\<close>

record file_stream =
  fs_file :: string
  fs_cursor :: int
  fs_size :: int
  fs_read_only :: bool
  fs_mapping_attempted :: bool
  fs_mapping :: file_mapping
  fs_mapped_pos :: int

definition file_open :: "string option \<Rightarrow> int \<Rightarrow> file_stream option" where
  "file_open found known_size =
     (case found of
        None \<Rightarrow> None
      | Some file \<Rightarrow> Some \<lparr>fs_file = file, fs_cursor = 0, fs_size = (if known_size \<ge> 0 then known_size else int (length file)),
          fs_read_only = True, fs_mapping_attempted = False, fs_mapping = no_mapping, fs_mapped_pos = 0\<rparr>)"

definition file_seek :: "int \<Rightarrow> seek_origin \<Rightarrow> file_stream \<Rightarrow> int \<times> file_stream" where
  "file_seek offset origin s =
     (if mapping_valid (fs_mapping s) then
        let base = (case origin of SeekBegin \<Rightarrow> 0 | SeekCurrent \<Rightarrow> fs_mapped_pos s | SeekEnd \<Rightarrow> fs_size s);
            target = base + offset
        in if target < 0 \<or> target > fs_size s then (-1, s) else (target, s\<lparr>fs_mapped_pos := target\<rparr>)
      else
        let base = (case origin of SeekBegin \<Rightarrow> 0 | SeekCurrent \<Rightarrow> fs_cursor s | SeekEnd \<Rightarrow> int (length (fs_file s)));
            target = base + offset
        in if target < 0 then (-1, s) else (target, s\<lparr>fs_cursor := target\<rparr>))"

definition attempt_mapping :: "map_env \<Rightarrow> file_stream \<Rightarrow> file_stream" where
  "attempt_mapping env s =
     (if fs_mapping_attempted s then s
      else let s = s\<lparr>fs_mapping_attempted := True\<rparr>
           in if fs_read_only s \<and> fs_size s > 0 then
                let m = mapping_open env (fs_file s)
                in s\<lparr>fs_mapping := m, fs_mapped_pos := (if mapping_valid m then fs_cursor s else 0)\<rparr>
              else s)"

text \<open>\<open>None\<close> is a \<open>memcpy\<close> past the mapped bytes.\<close>

definition file_read :: "map_env \<Rightarrow> nat \<Rightarrow> file_stream \<Rightarrow> (string \<times> file_stream) option" where
  "file_read env n s =
     (let s = attempt_mapping env s in
      if mapping_valid (fs_mapping s) then
        let remaining = fs_size s - fs_mapped_pos s in
        if remaining \<le> 0 then Some ([], s)
        else let want = min remaining (int n);
                 (src, m) = ensure_window env (fs_file s) (fs_mapped_pos s) want (fs_mapping s);
                 s = s\<lparr>fs_mapping := m\<rparr>
             in case src of
                  None \<Rightarrow> Some ([], s)
                | Some bytes \<Rightarrow>
                    if int (length bytes) < want then None
                    else Some (take (nat want) bytes, s\<lparr>fs_mapped_pos := fs_mapped_pos s + want\<rparr>)
      else let bytes = take n (drop (nat (fs_cursor s)) (fs_file s))
           in Some (bytes, s\<lparr>fs_cursor := fs_cursor s + int (length bytes)\<rparr>))"

definition file_ops :: "map_env \<Rightarrow> file_stream stream_ops" where
  "file_ops env = \<lparr>st_get_length = fs_size, st_can_seek = (\<lambda>_. True), st_seek = file_seek, st_read = file_read env,
     st_write = (\<lambda>_ s. (0, s))\<rparr>"

section \<open>The contract\<close>

text \<open>A window shows the bytes of the file at its place, and what \<open>ensure_window\<close> returns is enough.\<close>

definition mapping_ok :: "string \<Rightarrow> file_mapping \<Rightarrow> bool" where
  "mapping_ok file m \<longleftrightarrow> fm_fd m \<and> fm_total_size m = int (length file) \<and>
     (\<forall>w. fm_window_data m = Some w \<longrightarrow> 0 \<le> fm_window_start m \<and> 0 \<le> fm_window_size m \<and>
        fm_window_start m + fm_window_size m \<le> int (length file) \<and>
        w = take (nat (fm_window_size m)) (drop (nat (fm_window_start m)) file))"

definition maps_freely :: "map_env \<Rightarrow> bool" where
  "maps_freely env \<longleftrightarrow> me_page_size env > 0 \<and> (\<forall>start len. 0 \<le> start \<longrightarrow> 0 < len \<longrightarrow> me_mmap env start len)"

lemma window_bytes:
  assumes "0 \<le> start" "start \<le> offset" "offset + len \<le> start + wsize" "start + wsize \<le> int (length d)" "0 \<le> len"
  shows "take (nat len) (drop (nat (offset - start)) (take (nat wsize) (drop (nat start) d))) = take (nat len) (drop (nat offset) d)"
    "len \<le> int (length (drop (nat (offset - start)) (take (nat wsize) (drop (nat start) d))))"
proof -
  have "drop (nat (offset - start)) (take (nat wsize) (drop (nat start) d)) =
      take (nat wsize - nat (offset - start)) (drop (nat offset) d)"
    using assms by (simp add: drop_take nat_diff_distrib)
  moreover have "nat len \<le> nat wsize - nat (offset - start)" using assms by linarith
  ultimately show "take (nat len) (drop (nat (offset - start)) (take (nat wsize) (drop (nat start) d))) = take (nat len) (drop (nat offset) d)"
    by (simp add: min_def)
  show "len \<le> int (length (drop (nat (offset - start)) (take (nat wsize) (drop (nat start) d))))"
    using assms by simp
qed

lemma ensure_window_covers:
  assumes "mapping_ok file m" "maps_freely env" "0 \<le> offset" "0 < len" "offset + len \<le> int (length file)"
  shows "\<exists>bytes m'. ensure_window env file offset len m = (Some bytes, m') \<and> mapping_ok file m' \<and>
    len \<le> int (length bytes) \<and> take (nat len) bytes = take (nat len) (drop (nat offset) file)"
proof (cases "fm_window_data m \<noteq> None \<and> offset \<ge> fm_window_start m \<and> offset + len \<le> fm_window_start m + fm_window_size m")
  case True
  then obtain w where "fm_window_data m = Some w" by blast
  with True assms window_bytes [where start = "fm_window_start m" and offset = offset and len = len and wsize = "fm_window_size m" and d = "file"]
  show ?thesis by (auto simp: ensure_window_def mapping_ok_def)
next
  case False
  define a where "a = offset div me_page_size env * me_page_size env"
  define wsize where "wsize = min (max window_capacity (len + (offset - a))) (fm_total_size m - a)"
  have page: "me_page_size env > 0" using assms(2) by (simp add: maps_freely_def)
  have a: "0 \<le> a" "a \<le> offset"
    using assms(3) page pos_mod_sign [OF page, of offset] minus_mod_eq_div_mult [of offset "me_page_size env"]
    unfolding a_def by (simp add: pos_imp_zdiv_nonneg_iff, linarith)
  have total: "fm_total_size m = int (length file)" "fm_fd m" using assms(1) by (simp_all add: mapping_ok_def)
  have wsize: "0 < wsize" "offset + len \<le> a + wsize" "a + wsize \<le> int (length file)"
    using a assms(4,5) total(1) unfolding wsize_def by linarith+
  let ?w = "take (nat wsize) (drop (nat a) file)"
  let ?m = "m\<lparr>fm_window_data := Some ?w, fm_window_start := a, fm_window_size := wsize\<rparr>"
  have "me_mmap env a wsize" using assms(2) a(1) wsize(1) by (simp add: maps_freely_def)
  then have "ensure_window env file offset len m = (Some (drop (nat (offset - a)) ?w), ?m)"
    using False assms(3-5) total unfolding ensure_window_def a_def [symmetric] Let_def wsize_def [symmetric]
    by (auto simp: remap_def)
  moreover have "mapping_ok file ?m" using total a(1) wsize by (simp add: mapping_ok_def)
  ultimately show ?thesis using window_bytes [OF a(1,2) wsize(2,3)] assms(4) by simp
qed

definition file_pos :: "file_stream \<Rightarrow> int" where
  "file_pos s = (if mapping_valid (fs_mapping s) then fs_mapped_pos s else fs_cursor s)"

abbreviation file_content :: "file_stream \<Rightarrow> string" where
  "file_content s \<equiv> drop (nat (file_pos s)) (fs_file s)"

text \<open>
  The size is the file's, the position is inside the file, and the mapping is absent or right.
  Before the first read there is no mapping.
\<close>

definition file_inv :: "file_stream \<Rightarrow> bool" where
  "file_inv s \<longleftrightarrow> fs_size s = int (length (fs_file s)) \<and> 0 \<le> file_pos s \<and> file_pos s \<le> fs_size s \<and>
     (mapping_valid (fs_mapping s) \<longrightarrow> mapping_ok (fs_file s) (fs_mapping s)) \<and>
     (\<not> fs_mapping_attempted s \<longrightarrow> fs_mapping s = no_mapping)"

lemma not_valid_no_mapping [simp]: "\<not> mapping_valid no_mapping"
  by (simp add: mapping_valid_def no_mapping_def)

lemma mapping_open_ok: "mapping_valid (mapping_open env file) \<Longrightarrow> mapping_ok file (mapping_open env file)"
  by (auto simp: mapping_open_def mapping_ok_def no_mapping_def mapping_valid_def split: if_splits)

lemma attempt_mapping_ok:
  assumes "file_inv s"
  shows "file_inv (attempt_mapping env s)" "file_pos (attempt_mapping env s) = file_pos s"
    "fs_file (attempt_mapping env s) = fs_file s" "fs_size (attempt_mapping env s) = fs_size s"
  using assms mapping_open_ok [of env "fs_file s"]
  by (auto simp: attempt_mapping_def file_inv_def file_pos_def Let_def split: if_splits)

lemma clamped_bytes:
  assumes "0 \<le> q" "0 \<le> min (int (length d) - q) (int n)"
  shows "take (nat (min (int (length d) - q) (int n))) (drop (nat q) d) = take n (drop (nat q) d)"
    "drop (nat (q + min (int (length d) - q) (int n))) d = drop n (drop (nat q) d)"
proof -
  obtain k where q: "q = int k" using assms(1) nonneg_int_cases by blast
  then have w: "nat (min (int (length d) - q) (int n)) = min (length d - k) n" using assms(2) by linarith
  then show "take (nat (min (int (length d) - q) (int n))) (drop (nat q) d) = take n (drop (nat q) d)"
    using q by (simp add: min_def)
  have "nat (q + min (int (length d) - q) (int n)) = k + min (length d - k) n" using q w assms(2) by linarith
  then show "drop (nat (q + min (int (length d) - q) (int n))) d = drop n (drop (nat q) d)"
    using q by (simp add: min_def add.commute)
qed

lemma file_read_ok:
  assumes inv: "file_inv s" and env: "maps_freely env" and n: "0 < n"
  shows "\<exists>s'. file_read env n s = Some (take n (file_content s), s') \<and> file_inv s' \<and> fs_file s' = fs_file s \<and>
    file_content s' = drop n (file_content s)"
proof -
  let ?s = "attempt_mapping env s"
  note s = attempt_mapping_ok [OF inv, of env]
  show ?thesis
  proof (cases "mapping_valid (fs_mapping ?s)")
    case False
    with s n show ?thesis by (auto simp: file_read_def file_pos_def file_inv_def Let_def nat_add_distrib add.commute min_def)
  next
    case True
    then have pos: "file_pos ?s = fs_mapped_pos ?s" by (simp add: file_pos_def)
    show ?thesis
    proof (cases "fs_size ?s - fs_mapped_pos ?s \<le> 0")
      case eof: True
      with True s pos show ?thesis by (auto simp: file_read_def file_inv_def)
    next
      case more: False
      let ?d = "fs_file s" and ?q = "file_pos s"
      let ?w = "min (int (length ?d) - ?q) (int n)"
      have sz: "fs_size ?s = int (length ?d)" "fs_mapped_pos ?s = ?q" using s pos inv by (simp_all add: file_inv_def)
      have q: "mapping_ok ?d (fs_mapping ?s)" "0 \<le> ?q" "0 < ?w" "?q + ?w \<le> int (length ?d)"
        using s(1,3) True inv more n sz by (auto simp: file_inv_def)
      then obtain bytes m where e: "ensure_window env ?d ?q ?w (fs_mapping ?s) = (Some bytes, m)" "mapping_ok ?d m"
        "?w \<le> int (length bytes)" "take (nat ?w) bytes = take (nat ?w) (drop (nat ?q) ?d)"
        using ensure_window_covers [OF _ env] by blast
      have m: "mapping_valid m" using e(2) q by (auto simp: mapping_ok_def mapping_valid_def)
      have "file_read env n s = Some (take (nat ?w) bytes, ?s\<lparr>fs_mapping := m, fs_mapped_pos := ?q + ?w\<rparr>)"
        using True more e sz s(3) by (auto simp: file_read_def Let_def)
      moreover have "file_inv (?s\<lparr>fs_mapping := m, fs_mapped_pos := ?q + ?w\<rparr>)"
        using s(1,3) e(2) m q sz True by (auto simp: file_inv_def file_pos_def)
      moreover have "take (nat ?w) (drop (nat ?q) ?d) = take n (drop (nat ?q) ?d)"
        "drop (nat (?q + ?w)) ?d = drop n (drop (nat ?q) ?d)"
        using clamped_bytes [OF q(2) less_imp_le [OF q(3)]] by blast+
      ultimately show ?thesis using e(4) m s(3) by (simp add: file_pos_def)
    qed
  qed
qed

lemma file_seekable:
  assumes "maps_freely env"
  shows "seekable_source (file_ops env) file_content file_inv fs_file"
proof unfold_locales
  fix s :: file_stream and n :: nat
  assume "file_inv s" "0 < n"
  from file_read_ok [OF this(1) assms this(2)] obtain s' where
    "file_read env n s = Some (take n (file_content s), s')" "file_inv s'" "file_content s' = drop n (file_content s)" by blast
  with \<open>0 < n\<close> show "\<exists>bs s'. st_read (file_ops env) n s = Some (bs, s') \<and> file_content s = bs @ file_content s' \<and>
      length bs \<le> n \<and> (file_content s \<noteq> [] \<longrightarrow> bs \<noteq> []) \<and> file_inv s'" by (auto simp: file_ops_def simp del: drop_drop)
next
  fix s :: file_stream
  assume "file_inv s"
  then show "st_get_length (file_ops env) s = int (length (fs_file s))" by (simp add: file_ops_def file_inv_def)
next
  fix s :: file_stream and t :: int
  assume "file_inv s" "0 \<le> t" "t \<le> int (length (fs_file s))"
  then show "\<exists>s'. st_seek (file_ops env) t SeekBegin s = (t, s') \<and> file_content s' = drop (nat t) (fs_file s) \<and>
      fs_file s' = fs_file s \<and> file_inv s'" by (auto simp: file_ops_def file_seek_def file_inv_def file_pos_def)
next
  fix s s' :: file_stream and n bs
  assume "file_inv s" and r: "st_read (file_ops env) n s = Some (bs, s')"
  then have "fs_file (attempt_mapping env s) = fs_file s" using attempt_mapping_ok by blast
  with r show "fs_file s' = fs_file s"
    by (auto simp: file_ops_def file_read_def Let_def split: if_splits option.splits prod.splits)
qed

lemma file_open_inv: "file_open (Some d) size0 = Some s \<Longrightarrow> size0 < 0 \<or> size0 = int (length d) \<Longrightarrow> file_inv s \<and> fs_file s = d"
  by (auto simp: file_open_def file_inv_def file_pos_def)

section \<open>Properties\<close>

text \<open>The contract on a system with pages of 4 KiB that maps, and on one that opens no second handle.\<close>

definition linux_env :: map_env where
  "linux_env = \<lparr>me_page_size = 4096, me_open = True, me_mmap = (\<lambda>_ _. True)\<rparr>"

definition unmapped_env :: map_env where
  "unmapped_env = \<lparr>me_page_size = 4096, me_open = False, me_mmap = (\<lambda>_ _. True)\<rparr>"

interpretation mapped_file: seekable_source "file_ops linux_env" file_content file_inv fs_file
  by (rule file_seekable) (simp add: maps_freely_def linux_env_def)

interpretation stdio_file: seekable_source "file_ops unmapped_env" file_content file_inv fs_file
  by (rule file_seekable) (simp add: maps_freely_def unmapped_env_def)

text \<open>
  C14. A window of a file reads as the same bytes of the file whether the file is mapped or read
  through \<open>FILE\<close>, at every page size and for every size of the file, however often the mapped
  window has to slide: the window from \<open>b\<close> to \<open>e\<close> of an opened file, read to its end, is exactly
  the bytes from \<open>b\<close> to \<open>e\<close>, and no read goes past the mapped bytes.
\<close>

theorem file_window_read:
  assumes "maps_freely env" "file_open (Some d) known = Some s" "known < 0 \<or> known = int (length d)" "0 \<le> b" "b \<le> e"
  shows "\<exists>s'. read_all (range_ops (file_ops env)) [] (range_stream_of (file_ops env) s b e) =
    Some (take (nat e - nat b) (drop (nat b) d), s')"
proof -
  note src = file_seekable [OF assms(1)]
  have s: "file_inv s" "fs_file s = d" using file_open_inv [OF assms(2,3)] by blast+
  note r = seekable_source.range_of_inv [OF src s(1) assms(4,5)]
  have "rng_position (range_stream_of (file_ops env) s b e) = 0" by (simp add: range_stream_of_def Let_def)
  with r(2) s(2) have "range_content fs_file (range_stream_of (file_ops env) s b e) = take (nat e - nat b) (drop (nat b) d)"
    by (simp add: range_content_def)
  with byte_source.read_all_content [OF seekable_source.range_byte_source [OF src] r(1), of "[]"] show ?thesis by auto
qed

theorem file_window_read_witness:
  "maps_freely linux_env \<and>
   (\<exists>s'. read_all (range_ops (file_ops linux_env)) [] (range_stream_of (file_ops linux_env) (the (file_open (Some ''abcdef'') 6)) 1 4) =
     Some (''bcd'', s'))"
proof -
  have "maps_freely linux_env" by (simp add: maps_freely_def linux_env_def)
  with file_window_read [of linux_env "''abcdef''" 6 _ 1 4] show ?thesis by (auto simp: file_open_def)
qed

end
