(* ===== verification/Static_Content.thy ===== *)
theory Static_Content
  imports Connection File_Stream Mime
begin

text \<open>
  \<open>src/src/server/extensions/static_content.cpp\<close>, \<open>overlay.cpp\<close> and \<open>single_file.cpp\<close>: mapping a
  request path to a file, and the conditional and partial responses for it.  The file system is a
  parameter: what \<open>stat\<close> answers for a path and what opening it yields.
\<close>

section \<open>Streams of a response\<close>

text \<open>The virtual functions of the stream in a response body.\<close>

fun resp_body_read :: "'r stream_ops \<Rightarrow> nat \<Rightarrow> 'r resp_body \<Rightarrow> (string \<times> 'r resp_body) option" where
  "resp_body_read ops n (MemoryBody s) = Some (map_prod id MemoryBody (memory_read n s))"
| "resp_body_read ops n (WindowBody s) = map_option (map_prod id WindowBody) (range_read ops n s)"
| "resp_body_read ops n (StreamBody s) = map_option (map_prod id StreamBody) (st_read ops n s)"

fun resp_body_length :: "'r stream_ops \<Rightarrow> 'r resp_body \<Rightarrow> int" where
  "resp_body_length ops (MemoryBody s) = int (length (mem_data s))"
| "resp_body_length ops (WindowBody s) = range_get_length ops s"
| "resp_body_length ops (StreamBody s) = st_get_length ops s"

definition resp_body_ops :: "'r stream_ops \<Rightarrow> 'r resp_body stream_ops" where
  "resp_body_ops ops = \<lparr>st_get_length = resp_body_length ops, st_can_seek = (\<lambda>_. False), st_seek = (\<lambda>_ _ s. (-1, s)),
     st_read = resp_body_read ops, st_write = (\<lambda>_ s. (0, s))\<rparr>"

section \<open>Paths and tags of a file\<close>

definition make_etag :: "int \<Rightarrow> int \<Rightarrow> string" where
  "make_etag mtime fsize =
     (let hex = (\<lambda>v. let n = nat (v mod 2 ^ 64) in if n = 0 then ''0'' else hex_digits n)
      in CHR 0x22 # ''nh-'' @ hex mtime @ ''-'' @ hex fsize @ [CHR 0x22])"

fun qualify_segments :: "string list \<Rightarrow> string list \<Rightarrow> string list option" where
  "qualify_segments stack [] = Some stack"
| "qualify_segments stack (seg # segs) =
     (if seg = ''..'' then (if stack = [] then None else qualify_segments (butlast stack) segs)
      else if seg \<noteq> [] \<and> seg \<noteq> ''.'' then qualify_segments (stack @ [seg]) segs
      else qualify_segments stack segs)"

fun join_segments :: "string \<Rightarrow> string list \<Rightarrow> string" where
  "join_segments out [] = out"
| "join_segments out (s # ss) = join_segments ((if out \<noteq> [] then out @ ''/'' else out) @ s) ss"

definition qualify_relative_path :: "string \<Rightarrow> string option" where
  "qualify_relative_path path = map_option (join_segments []) (qualify_segments [] (split_on (CHR ''/'') path))"

section \<open>Conditions and ranges\<close>

definition trim_spaces :: "string \<Rightarrow> string" where
  "trim_spaces tok = rev (dropWhile (\<lambda>c. c = CHR '' '') (rev (dropWhile (\<lambda>c. c = CHR '' '') tok)))"

function etag_list_contains :: "string \<Rightarrow> string \<Rightarrow> bool" where
  "etag_list_contains etag list =
     (if list = [] then False
      else case find_char (CHR '','') list of
        None \<Rightarrow> trim_spaces list = etag
      | Some comma \<Rightarrow> trim_spaces (take comma list) = etag \<or> etag_list_contains etag (drop (comma + 1) list))"
  by pat_completeness auto
termination by (relation "measure (\<lambda>(etag, list). length list)") auto

declare etag_list_contains.simps [simp del]

record range_request =
  rr_present :: bool
  rr_satisfiable :: bool
  rr_begin :: int
  rr_end :: int

definition parse_digits :: "string \<Rightarrow> int option" where
  "parse_digits digits = accumulate_digits digits 0"

definition check_range :: "int \<Rightarrow> range_request \<Rightarrow> range_request" where
  "check_range content_size out =
     (if rr_begin out < 0 \<or> rr_begin out > rr_end out \<or> rr_begin out \<ge> content_size
      then out\<lparr>rr_satisfiable := False\<rparr> else out)"

definition bounds_of_range :: "int \<Rightarrow> string \<Rightarrow> string \<Rightarrow> range_request" where
  "bounds_of_range content_size start_s end_s =
     (let out = \<lparr>rr_present = True, rr_satisfiable = True, rr_begin = 0, rr_end = 0\<rparr>;
          bad = out\<lparr>rr_satisfiable := False\<rparr>
      in if start_s = [] then
           (case parse_digits end_s of
              Some suffix_len \<Rightarrow>
                if end_s = [] \<or> suffix_len \<le> 0 then bad
                else check_range content_size (out\<lparr>rr_begin := max 0 (content_size - suffix_len), rr_end := content_size - 1\<rparr>)
            | None \<Rightarrow> bad)
         else
           (case parse_digits start_s of
              None \<Rightarrow> bad
            | Some begin_v \<Rightarrow>
                (case (if end_s = [] then Some (content_size - 1) else parse_digits end_s) of
                   None \<Rightarrow> bad
                 | Some end_v \<Rightarrow> check_range content_size (out\<lparr>rr_begin := begin_v, rr_end := min end_v (content_size - 1)\<rparr>))))"

definition parse_range_header :: "string option \<Rightarrow> int \<Rightarrow> range_request" where
  "parse_range_header range_value content_size =
     (let out = \<lparr>rr_present = False, rr_satisfiable = True, rr_begin = 0, rr_end = 0\<rparr> in
      case range_value of
        None \<Rightarrow> out
      | Some v0 \<Rightarrow>
          if content_size \<le> 0 then out
          else if take 6 v0 \<noteq> ''bytes='' then out
          else
            let v = drop 6 v0;
                v = (case find_char (CHR '','') v of Some comma \<Rightarrow> take comma v | None \<Rightarrow> v)
            in case find_char (CHR ''-'') v of
                 None \<Rightarrow> out
               | Some dash \<Rightarrow> bounds_of_range content_size (take dash v) (drop (dash + 1) v))"

definition finalize :: "'b request \<Rightarrow> string \<Rightarrow> string \<Rightarrow> ('c, 'w) response \<Rightarrow> ('c, 'w) response" where
  "finalize req etag last_modified r =
     (let h = rs_headers r;
          h = headers_set ''Accept-Ranges'' ''bytes'' h;
          h = headers_set ''ETag'' etag h;
          h = headers_set ''Last-Modified'' last_modified h;
          h = headers_set ''Cache-Control''
                (if headers_isset (rq_headers req) ''Authorization'' then ''private, must-revalidate'' else ''public, must-revalidate'') h;
          r = r\<lparr>rs_headers := h\<rparr>
      in if method_eq (rq_method req) (http_method_of ''HEAD'') then r\<lparr>rs_body := None\<rparr> else r)"

text \<open>What the conditional headers decide: \<open>Some 412\<close>, \<open>Some 304\<close>, or to go on.\<close>

definition precondition :: "'b request \<Rightarrow> int \<Rightarrow> string \<Rightarrow> int option" where
  "precondition req mtime etag =
     (if (case headers_get (rq_headers req) ''If-Match'' of
            Some if_match \<Rightarrow> if_match \<noteq> ''*'' \<and> \<not> etag_list_contains etag if_match | None \<Rightarrow> False)
      then Some 412
      else case headers_get (rq_headers req) ''If-None-Match'' of
        Some inm \<Rightarrow>
          if inm = ''*'' \<or> etag_list_contains etag inm
          then (if method_eq (rq_method req) (http_method_of ''GET'') \<or> method_eq (rq_method req) (http_method_of ''HEAD'')
                then Some 304 else Some 412)
          else None
      | None \<Rightarrow>
          (case headers_get (rq_headers req) ''If-Modified-Since'' of
             Some ims \<Rightarrow> let since = parse_http_date ims in if since \<noteq> -1 \<and> mtime \<le> since then Some 304 else None
           | None \<Rightarrow> None))"

definition use_range :: "'b request \<Rightarrow> int \<Rightarrow> string \<Rightarrow> bool" where
  "use_range req mtime etag =
     (headers_get (rq_headers req) ''Range'' \<noteq> None \<and>
      (case headers_get (rq_headers req) ''If-Range'' of
         None \<Rightarrow> True
       | Some ifr \<Rightarrow>
           if ifr \<noteq> [] \<and> hd ifr = CHR 0x22 then ifr = etag
           else let d = parse_http_date ifr in d \<noteq> -1 \<and> d \<ge> mtime))"

definition serve_stream_conditionally ::
  "'f stream_ops \<Rightarrow> 'b request \<Rightarrow> 'f \<Rightarrow> int \<Rightarrow> int \<Rightarrow> string \<Rightarrow> string \<Rightarrow> ('f resp_body, 'w) response option" where
  "serve_stream_conditionally ops req content fsize mtime mime etag =
     Option.bind (format_http_date mtime) (\<lambda>last_modified. Some (finalize req etag last_modified
       (case precondition req mtime etag of
          Some code \<Rightarrow> make_response code
        | None \<Rightarrow>
            if use_range req mtime etag then
              let rr = parse_range_header (headers_get (rq_headers req) ''Range'') fsize in
              if \<not> rr_satisfiable rr then
                let r = make_response 416 in
                r\<lparr>rs_headers := headers_set ''Content-Range'' (''bytes */'' @ to_string_int fsize) (rs_headers r)\<rparr>
              else
                let ranged = WindowBody (range_stream_of ops content (rr_begin rr) (rr_end rr + 1));
                    r = make_stream_response (resp_body_length ops) (Some ranged) mime (rr_end rr - rr_begin rr + 1);
                    r = r\<lparr>rs_status := 206\<rparr>
                in r\<lparr>rs_headers := headers_set ''Content-Range''
                       (''bytes '' @ to_string_int (rr_begin rr) @ ''-'' @ to_string_int (rr_end rr) @ ''/'' @ to_string_int fsize)
                       (rs_headers r)\<rparr>
            else make_stream_response (resp_body_length ops) (Some (StreamBody content)) mime fsize)))"

section \<open>\<open>overlay\<close>\<close>

text \<open>
  The file system: what \<open>stat_file\<close> reports of a path and the bytes of the file that \<open>fopen\<close> finds
  there.  An extension is identified by its address, as the owner of a cached answer.
\<close>

record file_system =
  fsys_stat :: "string \<Rightarrow> file_info"
  fsys_file :: "string \<Rightarrow> string option"

record overlay =
  ov_self :: nat
  ov_base_dir :: string
  ov_index_file :: string
  ov_priority :: u32

definition overlay_of :: "nat \<Rightarrow> string \<Rightarrow> string \<Rightarrow> u32 \<Rightarrow> overlay" where
  "overlay_of self base_dir index_file prio =
     \<lparr>ov_self = self, ov_base_dir = (if length base_dir > 1 \<and> last base_dir = CHR ''/'' then butlast base_dir else base_dir),
      ov_index_file = index_file, ov_priority = prio\<rparr>"

definition overlay_lookup :: "file_system \<Rightarrow> overlay \<Rightarrow> string \<Rightarrow> (string \<times> file_info) option" where
  "overlay_lookup fsys ov path =
     (case qualify_relative_path path of
        None \<Rightarrow> None
      | Some qualified \<Rightarrow>
          let fs_path = ov_base_dir ov @ (if qualified \<noteq> [] then ''/'' @ qualified else []);
              info = fsys_stat fsys fs_path;
              (fs_path, info) =
                (if fi_kind info = Directory
                 then let index_path = (if fs_path \<noteq> [] \<and> last fs_path \<noteq> CHR ''/'' then fs_path @ ''/'' else fs_path) @ ov_index_file ov
                      in (index_path, fsys_stat fsys index_path)
                 else (fs_path, info))
          in if fi_kind info \<noteq> RegularFile then None else Some (fs_path, info))"

definition overlay_resolve ::
  "file_system \<Rightarrow> overlay \<Rightarrow> 'b request \<Rightarrow> (string \<times> file_info) option \<times> 'b request" where
  "overlay_resolve fsys ov req =
     (let tags = tag_ensure (ResolveCache None False None) (rq_tags req) in
      case tags TResolveCache of
        Some (ResolveCache owner computed value) \<Rightarrow>
          if computed \<and> owner = Some (ov_self ov) then (value, req\<lparr>rq_tags := tags\<rparr>)
          else let value = overlay_lookup fsys ov (subpath_of (req\<lparr>rq_tags := tags\<rparr>))
               in (value, req\<lparr>rq_tags := tag_put (ResolveCache (Some (ov_self ov)) True value) tags\<rparr>)
      | _ \<Rightarrow> (None, req))"

definition overlay_wants :: "file_system \<Rightarrow> overlay \<Rightarrow> ('b, 'a, bool) handler" where
  "overlay_wants fsys ov = (\<lambda>(req, a).
     if \<not> method_eq (rq_method req) (http_method_of ''GET'') \<and> \<not> method_eq (rq_method req) (http_method_of ''HEAD'')
     then Some (False, req, a)
     else if qualify_relative_path (subpath_of req) = None then Some (True, req, a)
     else let (value, req) = overlay_resolve fsys ov req in Some (value \<noteq> None, req, a))"

definition overlay_handle :: "map_env \<Rightarrow> file_system \<Rightarrow> overlay \<Rightarrow> ('b, 'a, (file_stream resp_body, 'w) response) handler" where
  "overlay_handle env fsys ov = (\<lambda>(req, a).
     if qualify_relative_path (subpath_of req) = None then Some (make_response 403, req, a)
     else case overlay_resolve fsys ov req of
       (None, req) \<Rightarrow> Some (make_response 404, req, a)
     | (Some (fs_path, info), req) \<Rightarrow>
         (case file_open (fsys_file fsys fs_path) (fi_size info) of
            None \<Rightarrow> Some (make_response 404, req, a)
          | Some f \<Rightarrow>
              map_option (\<lambda>r. (r, req, a))
                (serve_stream_conditionally (file_ops env) req f (fi_size info) (fi_mtime info) (mime_type_from_extension fs_path)
                   (make_etag (fi_mtime info) (fi_size info)))))"

definition overlay_extension :: "map_env \<Rightarrow> file_system \<Rightarrow> overlay \<Rightarrow> ('b, 'a, file_stream resp_body, 'w) extension" where
  "overlay_extension env fsys ov =
     \<lparr>ext_priority = ov_priority ov, ext_wants = overlay_wants fsys ov, ext_handle = overlay_handle env fsys ov\<rparr>"

section \<open>\<open>single_file\<close>\<close>

record single_file =
  sf_self :: nat
  sf_path :: string
  sf_mime_override :: "string option"
  sf_priority :: u32

definition single_file_stat :: "file_system \<Rightarrow> single_file \<Rightarrow> 'b request \<Rightarrow> file_info option \<times> 'b request" where
  "single_file_stat fsys sf req =
     (let tags = tag_ensure (StatCache None False None) (rq_tags req) in
      case tags TStatCache of
        Some (StatCache owner computed value) \<Rightarrow>
          if computed \<and> owner = Some (sf_self sf) then (value, req\<lparr>rq_tags := tags\<rparr>)
          else let info = fsys_stat fsys (sf_path sf);
                   value = (if fi_kind info = RegularFile then Some info else None)
               in (value, req\<lparr>rq_tags := tag_put (StatCache (Some (sf_self sf)) True value) tags\<rparr>)
      | _ \<Rightarrow> (None, req))"

definition single_file_wants :: "file_system \<Rightarrow> single_file \<Rightarrow> ('b, 'a, bool) handler" where
  "single_file_wants fsys sf = (\<lambda>(req, a).
     if \<not> method_eq (rq_method req) (http_method_of ''GET'') \<and> \<not> method_eq (rq_method req) (http_method_of ''HEAD'')
     then Some (False, req, a)
     else let (value, req) = single_file_stat fsys sf req in Some (value \<noteq> None, req, a))"

definition single_file_handle :: "map_env \<Rightarrow> file_system \<Rightarrow> single_file \<Rightarrow> ('b, 'a, (file_stream resp_body, 'w) response) handler" where
  "single_file_handle env fsys sf = (\<lambda>(req, a).
     case single_file_stat fsys sf req of
       (None, req) \<Rightarrow> Some (make_response 404, req, a)
     | (Some info, req) \<Rightarrow>
         (case file_open (fsys_file fsys (sf_path sf)) (fi_size info) of
            None \<Rightarrow> Some (make_response 404, req, a)
          | Some f \<Rightarrow>
              map_option (\<lambda>r. (r, req, a))
                (serve_stream_conditionally (file_ops env) req f (fi_size info) (fi_mtime info)
                   (case sf_mime_override sf of Some m \<Rightarrow> m | None \<Rightarrow> mime_type_from_extension (sf_path sf))
                   (make_etag (fi_mtime info) (fi_size info)))))"

definition single_file_extension :: "map_env \<Rightarrow> file_system \<Rightarrow> single_file \<Rightarrow> ('b, 'a, file_stream resp_body, 'w) extension" where
  "single_file_extension env fsys sf =
     \<lparr>ext_priority = sf_priority sf, ext_wants = single_file_wants fsys sf, ext_handle = single_file_handle env fsys sf\<rparr>"

section \<open>The streams of a response keep the contract\<close>

fun resp_content :: "('r \<Rightarrow> string) \<Rightarrow> ('r \<Rightarrow> string) \<Rightarrow> 'r resp_body \<Rightarrow> string" where
  "resp_content content whole (MemoryBody s) = memory_content s"
| "resp_content content whole (WindowBody s) = range_content whole s"
| "resp_content content whole (StreamBody s) = content s"

fun resp_inv :: "('r \<Rightarrow> string) \<Rightarrow> ('r \<Rightarrow> bool) \<Rightarrow> ('r \<Rightarrow> string) \<Rightarrow> 'r resp_body \<Rightarrow> bool" where
  "resp_inv content invar whole (MemoryBody s) = memory_inv s"
| "resp_inv content invar whole (WindowBody s) = range_inv content invar whole s"
| "resp_inv content invar whole (StreamBody s) = invar s"

context seekable_source
begin

lemma resp_byte_source: "byte_source (resp_body_ops ops) (resp_content content whole) (resp_inv content invar whole)"
proof
  fix b :: "'a resp_body" and n :: nat
  assume b: "resp_inv content invar whole b" and n: "0 < n"
  show "\<exists>bs b'. st_read (resp_body_ops ops) n b = Some (bs, b') \<and>
      resp_content content whole b = bs @ resp_content content whole b' \<and> length bs \<le> n \<and>
      (resp_content content whole b \<noteq> [] \<longrightarrow> bs \<noteq> []) \<and> resp_inv content invar whole b'"
  proof (cases b)
    case (MemoryBody s)
    with b have "memory_inv s" by simp
    from memory.readE [OF this n] obtain bs s' where "memory_read n s = (bs, s')" "memory_content s = bs @ memory_content s'"
      "length bs \<le> n" "memory_content s = [] \<longleftrightarrow> bs = []" "memory_inv s'" by (auto simp: memory_ops_def)
    with MemoryBody show ?thesis by (auto simp: resp_body_ops_def intro!: exI [of _ bs] exI [of _ "MemoryBody s'"])
  next
    case (WindowBody s)
    with b have "range_inv content invar whole s" by simp
    from byte_source.readE [OF range_byte_source this n] obtain bs s' where "range_read ops n s = Some (bs, s')"
      "range_content whole s = bs @ range_content whole s'" "length bs \<le> n" "range_content whole s = [] \<longleftrightarrow> bs = []"
      "range_inv content invar whole s'" by (auto simp: range_ops_def)
    with WindowBody show ?thesis by (auto simp: resp_body_ops_def intro!: exI [of _ bs] exI [of _ "WindowBody s'"])
  next
    case (StreamBody s)
    with b have "invar s" by simp
    from readE [OF this n] obtain bs s' where "st_read ops n s = Some (bs, s')"
      "content s = bs @ content s'" "length bs \<le> n" "content s = [] \<longleftrightarrow> bs = []" "invar s'" .
    with StreamBody show ?thesis by (auto simp: resp_body_ops_def intro!: exI [of _ bs] exI [of _ "StreamBody s'"])
  qed
qed

end

section \<open>Qualified paths\<close>

text \<open>A segment a qualified path may have, and the paths that climb above their root.\<close>

definition plain_seg :: "string \<Rightarrow> bool" where
  "plain_seg seg \<longleftrightarrow> seg \<noteq> [] \<and> seg \<noteq> ''.'' \<and> seg \<noteq> ''..'' \<and> CHR ''/'' \<notin> set seg"

fun escapes :: "nat \<Rightarrow> string list \<Rightarrow> bool" where
  "escapes depth [] = False"
| "escapes depth (seg # segs) =
     (if seg = ''..'' then depth = 0 \<or> escapes (depth - 1) segs
      else escapes (if seg = [] \<or> seg = ''.'' then depth else depth + 1) segs)"

lemma qualify_segments_None: "qualify_segments stack segs = None \<longleftrightarrow> escapes (length stack) segs"
  by (induction stack segs rule: qualify_segments.induct) auto

lemma qualify_segments_plain:
  "qualify_segments stack segs = Some out \<Longrightarrow> list_all plain_seg stack \<Longrightarrow> \<forall>seg \<in> set segs. CHR ''/'' \<notin> set seg \<Longrightarrow>
   list_all plain_seg out"
proof (induction stack segs rule: qualify_segments.induct)
  case (2 stack seg segs)
  have "list_all plain_seg (butlast stack)" using 2(5) by (auto simp: list_all_iff dest: in_set_butlastD)
  moreover have "seg \<noteq> [] \<Longrightarrow> seg \<noteq> ''.'' \<Longrightarrow> seg \<noteq> ''..'' \<Longrightarrow> plain_seg seg" using 2(6) by (simp add: plain_seg_def)
  ultimately show ?case using 2 by (auto split: if_splits)
qed simp

lemma qualify_segments_id: "list_all plain_seg segs \<Longrightarrow> qualify_segments stack segs = Some (stack @ segs)"
  by (induction segs arbitrary: stack) (auto simp: plain_seg_def)

lemma join_segments_acc: "out \<noteq> [] \<Longrightarrow> join_segments out ss = out @ concat (map ((#) (CHR ''/'')) ss)"
  by (induction out ss rule: join_segments.induct) auto

lemma join_segments_Cons: "s \<noteq> [] \<Longrightarrow> join_segments [] (s # ss) = s @ concat (map ((#) (CHR ''/'')) ss)"
  by (simp add: join_segments_acc)

lemma split_join: "list_all plain_seg (s # ss) \<Longrightarrow> split_on (CHR ''/'') (s @ concat (map ((#) (CHR ''/'')) ss)) = s # ss"
proof (induction ss arbitrary: s)
  case Nil
  then show ?case by (simp add: plain_seg_def split_on_miss)
next
  case (Cons s' ss)
  from Cons.prems Cons.IH [of s'] show ?case by (simp add: plain_seg_def split_on_hit)
qed

lemma qualify_relative_path_Some:
  "qualify_relative_path path = Some out \<longleftrightarrow>
     (\<exists>segs. qualify_segments [] (split_on (CHR ''/'') path) = Some segs \<and> out = join_segments [] segs)"
  by (auto simp: qualify_relative_path_def)

lemma qualified_segs:
  assumes "qualify_relative_path path = Some out"
  shows "\<exists>segs. list_all plain_seg segs \<and> out = join_segments [] segs \<and> (out = [] \<longleftrightarrow> segs = []) \<and>
    (out \<noteq> [] \<longrightarrow> split_on (CHR ''/'') out = segs)"
proof -
  obtain segs where q: "qualify_segments [] (split_on (CHR ''/'') path) = Some segs" "out = join_segments [] segs"
    using assms qualify_relative_path_Some by blast
  then have plain: "list_all plain_seg segs" using qualify_segments_plain [OF q(1)] split_on_no_sep by auto
  show ?thesis
  proof (cases segs)
    case (Cons s ss)
    with plain have "s \<noteq> []" by (simp add: plain_seg_def)
    then have "out = s @ concat (map ((#) (CHR ''/'')) ss)" using Cons q(2) join_segments_Cons by simp
    with Cons plain q(2) split_join [of s ss] \<open>s \<noteq> []\<close> show ?thesis by (intro exI [of _ segs]) (simp add: join_segments_acc)
  qed (use q plain in simp)
qed

lemma qualify_idempotent: "qualify_relative_path path = Some out \<Longrightarrow> qualify_relative_path out = Some out"
proof -
  assume "qualify_relative_path path = Some out"
  from qualified_segs [OF this] obtain segs where s: "list_all plain_seg segs" "out = join_segments [] segs" "out = [] \<longleftrightarrow> segs = []"
    "out \<noteq> [] \<longrightarrow> split_on (CHR ''/'') out = segs" by blast
  show "qualify_relative_path out = Some out"
    using s qualify_segments_id [OF s(1), of "[]"] by (cases "out = []") (simp_all add: qualify_relative_path_def)
qed

section \<open>Responses\<close>

definition range_within :: "int \<Rightarrow> range_request \<Rightarrow> bool" where
  "range_within fsize rr \<longleftrightarrow> (rr_satisfiable rr \<longrightarrow> 0 \<le> rr_begin rr \<and> rr_begin rr \<le> rr_end rr \<and> rr_end rr < fsize)"

lemma check_range_within: "rr_end rr < fsize \<Longrightarrow> range_within fsize (check_range fsize rr)"
  by (auto simp: check_range_def range_within_def)

lemma unsatisfiable_within: "\<not> rr_satisfiable rr \<Longrightarrow> range_within fsize rr"
  by (simp add: range_within_def)

lemma bounds_of_range_within: "range_within fsize (bounds_of_range fsize start_s end_s)"
  unfolding bounds_of_range_def Let_def by (simp add: unsatisfiable_within check_range_within split: option.split)

lemma present_bounds: "rr_present (bounds_of_range fsize start_s end_s)"
  unfolding bounds_of_range_def check_range_def Let_def by (simp split: option.split)

lemma parse_range_within: "0 < fsize \<Longrightarrow> range_within fsize (parse_range_header v fsize)"
  unfolding parse_range_header_def Let_def
  by (simp add: bounds_of_range_within range_within_def [of _ "range_request.make _ _ _ _", unfolded range_request.make_def] split: option.split)

lemma finalize_simps [simp]:
  "rs_status (finalize req etag lm r) = rs_status r" "rs_content_length (finalize req etag lm r) = rs_content_length r"
  "rs_upgrade (finalize req etag lm r) = rs_upgrade r"
  "rs_body (finalize req etag lm r) = (if method_eq (rq_method req) (http_method_of ''HEAD'') then None else rs_body r)"
  by (simp_all add: finalize_def Let_def)

lemma finalize_headers:
  "headers_get (rs_headers (finalize req etag lm r)) ''ETag'' = Some etag"
  "headers_get (rs_headers (finalize req etag lm r)) ''Last-Modified'' = Some lm"
  "headers_get (rs_headers (finalize req etag lm r)) ''Content-Range'' = headers_get (rs_headers r) ''Content-Range''"
proof -
  have "\<not> header_name_equals ''Last-Modified'' ''ETag''" "\<not> header_name_equals ''Cache-Control'' ''ETag''"
    "\<not> header_name_equals ''Cache-Control'' ''Last-Modified''" "\<not> header_name_equals ''Cache-Control'' ''Content-Range''"
    "\<not> header_name_equals ''Last-Modified'' ''Content-Range''" "\<not> header_name_equals ''ETag'' ''Content-Range''"
    "\<not> header_name_equals ''Accept-Ranges'' ''Content-Range''"
    by code_simp+
  then show "headers_get (rs_headers (finalize req etag lm r)) ''ETag'' = Some etag"
    "headers_get (rs_headers (finalize req etag lm r)) ''Last-Modified'' = Some lm"
    "headers_get (rs_headers (finalize req etag lm r)) ''Content-Range'' = headers_get (rs_headers r) ''Content-Range''"
    by (simp_all add: finalize_def headers_get_set Let_def)
qed

text \<open>A response that announces the length of these bytes and, unless it answers a \<open>HEAD\<close>, has them as its body.\<close>

definition delivers :: "'f stream_ops \<Rightarrow> 'b request \<Rightarrow> string \<Rightarrow> ('f resp_body, 'w) response \<Rightarrow> bool" where
  "delivers ops req bytes resp \<longleftrightarrow> rs_content_length resp = int (length bytes) \<and>
     (if method_eq (rq_method req) (http_method_of ''HEAD'') then rs_body resp = None
      else \<exists>b s. rs_body resp = Some b \<and> read_all (resp_body_ops ops) [] b = Some (bytes, s))"

definition content_range :: "int \<Rightarrow> int \<Rightarrow> int \<Rightarrow> string" where
  "content_range b e fsize = ''bytes '' @ to_string_int b @ ''-'' @ to_string_int e @ ''/'' @ to_string_int fsize"

definition partial_response :: "'f stream_ops \<Rightarrow> 'f \<Rightarrow> int \<Rightarrow> string \<Rightarrow> range_request \<Rightarrow> ('f resp_body, 'w) response" where
  "partial_response ops f fsize mime rr =
     (let r = make_stream_response (resp_body_length ops) (Some (WindowBody (range_stream_of ops f (rr_begin rr) (rr_end rr + 1))))
                mime (rr_end rr - rr_begin rr + 1)
      in r\<lparr>rs_status := 206, rs_headers := headers_set ''Content-Range'' (content_range (rr_begin rr) (rr_end rr) fsize) (rs_headers r)\<rparr>)"

lemma partial_response_simps [simp]:
  "rs_status (partial_response ops f fsize mime rr) = 206"
  "headers_get (rs_headers (partial_response ops f fsize mime rr)) ''Content-Range'' = Some (content_range (rr_begin rr) (rr_end rr) fsize)"
  "0 \<le> rr_end rr - rr_begin rr + 1 \<Longrightarrow> rs_content_length (partial_response ops f fsize mime rr) = rr_end rr - rr_begin rr + 1"
  by (simp_all add: partial_response_def make_stream_response_def headers_get_set Let_def)

lemma serve_cases:
  fixes ops :: "'f stream_ops"
  assumes "format_http_date mtime = Some lm"
  shows "serve_stream_conditionally ops req f fsize mtime mime etag = Some (finalize req etag lm
    (case precondition req mtime etag of
       Some code \<Rightarrow> make_response code
     | None \<Rightarrow>
         if use_range req mtime etag then
           let rr = parse_range_header (headers_get (rq_headers req) ''Range'') fsize in
           if rr_satisfiable rr then partial_response ops f fsize mime rr
           else (make_response 416)\<lparr>rs_headers := headers_set ''Content-Range'' (''bytes */'' @ to_string_int fsize) []\<rparr>
         else make_stream_response (resp_body_length ops) (Some (StreamBody f)) mime fsize) :: ('f resp_body, 'w) response)"
  using assms
  by (simp add: serve_stream_conditionally_def partial_response_def content_range_def Let_def make_response_def empty_response_def
      split: option.splits)

lemma precondition_code: "precondition req mtime etag = Some code \<Longrightarrow> code = 304 \<or> code = 412"
  by (auto simp: precondition_def Let_def split: option.splits if_splits)

context seekable_source
begin

lemma partial_response_delivers:
  assumes "invar f" "0 \<le> rr_begin rr" "rr_begin rr \<le> rr_end rr" "rr_end rr < int (length (whole f))"
  shows "delivers ops req (take (nat (rr_end rr + 1) - nat (rr_begin rr)) (drop (nat (rr_begin rr)) (whole f)))
    (finalize req etag lm (partial_response ops f fsize mime rr) :: ('a resp_body, 'w) response)"
proof -
  let ?w = "range_stream_of ops f (rr_begin rr) (rr_end rr + 1)"
  have "0 \<le> rr_begin rr" "rr_begin rr \<le> rr_end rr + 1" using assms by simp_all
  note r = range_of_inv [OF assms(1) this]
  have "rng_position ?w = 0" by (simp add: range_stream_of_def Let_def)
  with r(2) have "resp_content content whole (WindowBody ?w) = take (nat (rr_end rr + 1) - nat (rr_begin rr)) (drop (nat (rr_begin rr)) (whole f))"
    by (simp add: range_content_def)
  with byte_source.read_all_content [OF resp_byte_source, of "WindowBody ?w" "[]"] r(1) assms show ?thesis
    by (auto simp: delivers_def partial_response_def make_stream_response_def empty_response_def Let_def)
qed

lemma full_response_delivers:
  "invar f \<Longrightarrow> content f = whole f \<Longrightarrow>
   delivers ops req (whole f) (finalize req etag lm (make_stream_response (resp_body_length ops) (Some (StreamBody f)) mime (int (length (whole f)))) :: ('a resp_body, 'w) response)"
  using byte_source.read_all_content [OF resp_byte_source, of "StreamBody f" "[]"]
  by (auto simp: delivers_def make_stream_response_def empty_response_def)

end

section \<open>Range headers\<close>

lemma parse_digits_to_string [simp]: "v < 2 ^ 63 \<Longrightarrow> parse_digits (to_string_nat v) = Some (int v)"
  using accumulate_digits_dec_value [of "to_string_nat v"] to_string_nat_digits [of v] by (simp add: parse_digits_def)

lemma range_header_spec:
  assumes "0 < fsize" "CHR '','' \<notin> set start_s" "CHR '','' \<notin> set end_s" "CHR ''-'' \<notin> set start_s" "others = [] \<or> hd others = CHR '',''"
  shows "parse_range_header (Some (''bytes='' @ start_s @ ''-'' @ end_s @ others)) fsize = bounds_of_range fsize start_s end_s"
proof -
  let ?v = "start_s @ CHR ''-'' # end_s" and ?w = "start_s @ CHR ''-'' # end_s @ others"
  have no: "CHR '','' \<notin> set ?v" using assms(2,3) by simp
  have cut: "(case find_char (CHR '','') ?w of Some comma \<Rightarrow> take comma ?w | None \<Rightarrow> ?w) = ?v"
  proof (cases others)
    case Nil
    with no show ?thesis using find_char_None [of "CHR '',''" ?v] by simp
  next
    case (Cons c cs)
    with assms(5) have "others = CHR '','' # cs" by simp
    with no show ?thesis using find_char_append [of "CHR '',''" ?v others] by simp
  qed
  have dash: "find_char (CHR ''-'') ?v = Some (length start_s)"
    using find_char_append [of "CHR ''-''" start_s "CHR ''-'' # end_s"] assms(4) by simp
  show ?thesis using assms(1) unfolding parse_range_header_def by (simp add: Let_def cut dash)
qed

lemma digits_no_separator: "CHR '','' \<notin> set (to_string_nat n)" "CHR ''-'' \<notin> set (to_string_nat n)"
  by (rule to_string_nat_no_char, code_simp)+

section \<open>Serving a directory\<close>

text \<open>
  Asking an \<open>overlay\<close> and then handing it the request looks the path up once: the answer is the one
  computed for the question, through the cache in the request's tags.
\<close>

definition cache_resolved :: "overlay \<Rightarrow> (string \<times> file_info) option \<Rightarrow> 'b request \<Rightarrow> 'b request" where
  "cache_resolved ov value req = req\<lparr>rq_tags := tag_put (ResolveCache (Some (ov_self ov)) True value) (rq_tags req)\<rparr>"

lemma subpath_of_tags: "tags TVpath = rq_tags req TVpath \<Longrightarrow> subpath_of (req\<lparr>rq_tags := tags\<rparr>) = subpath_of req"
  by (auto simp: subpath_of_def tag_get_def rq_path_def split: option.split tag.split)

lemma subpath_cache [simp]: "subpath_of (cache_resolved ov value req) = subpath_of req"
  by (simp add: subpath_of_tags cache_resolved_def tag_put_def)

lemma subpath_ensure [simp]:
  "subpath_of (req\<lparr>rq_tags := tag_ensure (ResolveCache None False None) (rq_tags req)\<rparr>) = subpath_of req"
  by (simp add: subpath_of_tags tag_ensure_def)

lemma overlay_resolve_fresh:
  assumes "rq_tags req TResolveCache = None"
  shows "overlay_resolve fsys ov req =
    (overlay_lookup fsys ov (subpath_of req), cache_resolved ov (overlay_lookup fsys ov (subpath_of req)) req)"
proof -
  have "tag_ensure (ResolveCache None False None) (rq_tags req) TResolveCache = Some (ResolveCache None False None)"
    using assms by (simp add: tag_ensure_def)
  moreover have "tag_put (ResolveCache (Some (ov_self ov)) True v) (tag_ensure (ResolveCache None False None) (rq_tags req)) =
      tag_put (ResolveCache (Some (ov_self ov)) True v) (rq_tags req)" for v
    by (simp add: tag_put_def tag_ensure_def)
  ultimately show ?thesis by (simp add: overlay_resolve_def cache_resolved_def Let_def)
qed

lemma overlay_resolve_cached: "overlay_resolve fsys ov (cache_resolved ov value req) = (value, cache_resolved ov value req)"
  by (simp add: overlay_resolve_def cache_resolved_def tag_ensure_def tag_put_def Let_def)

definition overlay_answer ::
  "map_env \<Rightarrow> file_system \<Rightarrow> 'b request \<Rightarrow> string \<times> file_info \<Rightarrow> (file_stream resp_body, 'w) response option" where
  "overlay_answer env fsys req = (\<lambda>(fs_path, info).
     case file_open (fsys_file fsys fs_path) (fi_size info) of
       None \<Rightarrow> Some (make_response 404)
     | Some f \<Rightarrow> serve_stream_conditionally (file_ops env) req f (fi_size info) (fi_mtime info) (mime_type_from_extension fs_path)
         (make_etag (fi_mtime info) (fi_size info)))"

definition is_read :: "'b request \<Rightarrow> bool" where
  "is_read req \<longleftrightarrow> method_eq (rq_method req) (http_method_of ''GET'') \<or> method_eq (rq_method req) (http_method_of ''HEAD'')"

lemma overlay_dispatch:
  fixes req :: "'b request" and a :: 'a and exts :: "('b, 'a, file_stream resp_body, 'w) registry"
  assumes "rq_tags req TResolveCache = None"
  shows "registry_dispatch (overlay_extension env fsys ov # exts) (req, a) =
    (if \<not> is_read req then registry_dispatch exts (req, a)
     else if qualify_relative_path (subpath_of req) = None then Some (Some (make_response 403), req, a)
     else let found = overlay_lookup fsys ov (subpath_of req); req = cache_resolved ov found req in
       case found of
         None \<Rightarrow> registry_dispatch exts (req, a)
       | Some file \<Rightarrow> map_option (\<lambda>r. (Some r, req, a)) (overlay_answer env fsys req file))"
proof -
  let ?found = "overlay_lookup fsys ov (subpath_of req)"
  let ?req = "cache_resolved ov ?found req"
  consider (other) "\<not> is_read req" | (climbs) "is_read req" "qualify_relative_path (subpath_of req) = None"
    | (looks) "is_read req" "qualify_relative_path (subpath_of req) \<noteq> None" by blast
  then show ?thesis
  proof cases
    case looks
    then obtain q where q: "qualify_relative_path (subpath_of req) = Some q" by blast
    with looks have w: "overlay_wants fsys ov (req, a) = Some (?found \<noteq> None, ?req, a)"
      by (auto simp: overlay_wants_def is_read_def overlay_resolve_fresh [OF assms])
    have h: "overlay_handle env fsys ov (?req, a) =
        (map_option (\<lambda>r. (r, ?req, a)) (overlay_answer env fsys ?req hit) :: ((file_stream resp_body, 'w) response \<times> _) option)"
      if "?found = Some hit" for hit
      using q that overlay_resolve_cached [of fsys ov "Some hit" req]
      by (cases hit) (auto simp: overlay_handle_def overlay_answer_def split: option.split)
    show ?thesis
      using looks(1) q w h by (cases ?found) (simp_all add: overlay_extension_def Let_def option.map_comp comp_def)
  qed (auto simp: overlay_extension_def overlay_wants_def overlay_handle_def is_read_def)
qed

text \<open>The paths an \<open>overlay\<close> may touch: below its base directory by plain segments, and the index files there.\<close>

definition below_base :: "overlay \<Rightarrow> string \<Rightarrow> bool" where
  "below_base ov path \<longleftrightarrow> (\<exists>segs. list_all plain_seg segs \<and> path = ov_base_dir ov @ concat (map ((#) (CHR ''/'')) segs))"

definition confined :: "overlay \<Rightarrow> string \<Rightarrow> bool" where
  "confined ov path \<longleftrightarrow> below_base ov path \<or>
     (\<exists>dir. below_base ov dir \<and> (path = dir @ ''/'' @ ov_index_file ov \<or> path = dir @ ov_index_file ov \<and> (dir = [] \<or> last dir = CHR ''/'')))"

lemma qualified_below_base:
  assumes "qualify_relative_path path = Some q"
  shows "below_base ov (ov_base_dir ov @ (if q \<noteq> [] then ''/'' @ q else []))"
proof -
  obtain segs where s: "list_all plain_seg segs" "q = join_segments [] segs" "q = [] \<longleftrightarrow> segs = []"
    using qualified_segs [OF assms] by blast
  have "(if q \<noteq> [] then ''/'' @ q else []) = concat (map ((#) (CHR ''/'')) segs)"
  proof (cases segs)
    case (Cons s' ss)
    then have "s' \<noteq> []" using s(1) by (simp add: plain_seg_def)
    with Cons s(2,3) show ?thesis using join_segments_Cons [of s' ss] by simp
  qed (use s in simp)
  with s(1) show ?thesis by (auto simp: below_base_def)
qed

definition agree_on :: "(string \<Rightarrow> bool) \<Rightarrow> file_system \<Rightarrow> file_system \<Rightarrow> bool" where
  "agree_on P fsys fsys' \<longleftrightarrow> (\<forall>path. P path \<longrightarrow> fsys_stat fsys path = fsys_stat fsys' path \<and> fsys_file fsys path = fsys_file fsys' path)"

lemma overlay_lookup_confined:
  assumes "agree_on (confined ov) fsys fsys'"
  shows "overlay_lookup fsys ov path = overlay_lookup fsys' ov path"
    and "overlay_lookup fsys ov path = Some (fs_path, info) \<Longrightarrow> confined ov fs_path"
proof -
  let ?p = "\<lambda>q. ov_base_dir ov @ (if q \<noteq> [] then ''/'' @ q else [])"
  let ?i = "\<lambda>p. (if p \<noteq> [] \<and> last p \<noteq> CHR ''/'' then p @ ''/'' else p) @ ov_index_file ov"
  have c: "confined ov (?p q)" "confined ov (?i (?p q))" if "qualify_relative_path path = Some q" for q
    using qualified_below_base [OF that, of ov] unfolding confined_def by auto
  then have "fsys_stat fsys (?p q) = fsys_stat fsys' (?p q)" "fsys_stat fsys (?i (?p q)) = fsys_stat fsys' (?i (?p q))"
    if "qualify_relative_path path = Some q" for q using that assms unfolding agree_on_def by blast+
  then show "overlay_lookup fsys ov path = overlay_lookup fsys' ov path"
    by (simp add: overlay_lookup_def Let_def split: option.split)
  show "overlay_lookup fsys ov path = Some (fs_path, info) \<Longrightarrow> confined ov fs_path"
    using c by (auto simp: overlay_lookup_def Let_def split: option.splits if_splits prod.splits)
qed

section \<open>Properties\<close>


text \<open>
  C38. The three forms of a byte range: \<open>a-b\<close> is clipped to the end of the content, \<open>a-\<close> runs to its
  end, \<open>-n\<close> is its last \<open>n\<close> bytes, each whatever further ranges follow after a comma; a range that
  begins past the content, or a suffix of length zero, is unsatisfiable.
\<close>

theorem range_forms:
  assumes "0 < n" "a < 2 ^ 63" "b < 2 ^ 63" "others = [] \<or> hd others = CHR '',''"
  shows "(a \<le> b \<and> a < n \<longrightarrow> parse_range_header (Some (''bytes='' @ to_string_nat a @ ''-'' @ to_string_nat b @ others)) (int n) =
      \<lparr>rr_present = True, rr_satisfiable = True, rr_begin = int a, rr_end = int (min b (n - 1))\<rparr>) \<and>
    (a < n \<longrightarrow> parse_range_header (Some (''bytes='' @ to_string_nat a @ ''-'' @ others)) (int n) =
      \<lparr>rr_present = True, rr_satisfiable = True, rr_begin = int a, rr_end = int (n - 1)\<rparr>) \<and>
    (0 < b \<longrightarrow> parse_range_header (Some (''bytes=-'' @ to_string_nat b @ others)) (int n) =
      \<lparr>rr_present = True, rr_satisfiable = True, rr_begin = int (n - b), rr_end = int (n - 1)\<rparr>) \<and>
    (n \<le> a \<longrightarrow> \<not> rr_satisfiable (parse_range_header (Some (''bytes='' @ to_string_nat a @ ''-'' @ to_string_nat b @ others)) (int n))) \<and>
    \<not> rr_satisfiable (parse_range_header (Some (''bytes=-0'' @ others)) (int n))"
proof -
  have n: "0 < int n" using assms(1) by simp
  have num: "to_string_nat 0 = ''0''" by code_simp
  note spec = range_header_spec [OF n _ _ _ assms(4)]
  have "parse_range_header (Some (''bytes='' @ to_string_nat a @ ''-'' @ to_string_nat b @ others)) (int n) =
      bounds_of_range (int n) (to_string_nat a) (to_string_nat b)"
    by (rule spec) (simp_all add: digits_no_separator)
  moreover have "parse_range_header (Some (''bytes='' @ to_string_nat a @ ''-'' @ others)) (int n) = bounds_of_range (int n) (to_string_nat a) []"
    using spec [of "to_string_nat a" "[]"] by (simp add: digits_no_separator)
  moreover have "parse_range_header (Some (''bytes=-'' @ to_string_nat b @ others)) (int n) = bounds_of_range (int n) [] (to_string_nat b)"
    for b using spec [of "[]" "to_string_nat b"] by (simp add: digits_no_separator)
  moreover from this [of 0] num have "parse_range_header (Some (''bytes=-0'' @ others)) (int n) = bounds_of_range (int n) [] (to_string_nat 0)" by simp
  moreover have clip: "min (int b) (int n - 1) = int (min b (n - 1))" using assms(1) by linarith
  have "a \<le> b \<and> a < n \<Longrightarrow> bounds_of_range (int n) (to_string_nat a) (to_string_nat b) =
      \<lparr>rr_present = True, rr_satisfiable = True, rr_begin = int a, rr_end = int (min b (n - 1))\<rparr>"
    using assms(1-3) clip by (auto simp: bounds_of_range_def check_range_def Let_def)
  moreover have "a < n \<Longrightarrow> bounds_of_range (int n) (to_string_nat a) [] =
      \<lparr>rr_present = True, rr_satisfiable = True, rr_begin = int a, rr_end = int (n - 1)\<rparr>"
    using assms(1-3) by (auto simp: bounds_of_range_def check_range_def Let_def of_nat_diff)
  moreover have "0 < b \<Longrightarrow> bounds_of_range (int n) [] (to_string_nat b) =
      \<lparr>rr_present = True, rr_satisfiable = True, rr_begin = int (n - b), rr_end = int (n - 1)\<rparr>"
    using assms(1-3) by (auto simp: bounds_of_range_def check_range_def Let_def of_nat_diff max_def)
  moreover have "n \<le> a \<Longrightarrow> \<not> rr_satisfiable (bounds_of_range (int n) (to_string_nat a) (to_string_nat b))"
    using assms(1-3) by (auto simp: bounds_of_range_def check_range_def Let_def)
  moreover have "\<not> rr_satisfiable (bounds_of_range (int n) [] (to_string_nat 0))"
    by (simp add: bounds_of_range_def)
  ultimately show ?thesis by presburger
qed

theorem range_forms_witness:
  "parse_range_header (Some (''bytes='' @ to_string_nat 2 @ ''-'' @ to_string_nat 9 @ '',20-'')) (int 5) =
     \<lparr>rr_present = True, rr_satisfiable = True, rr_begin = int 2, rr_end = int (min 9 (5 - 1))\<rparr>"
  using range_forms [of 5 2 9 "'',20-''"] by simp

definition sample_request :: "string \<Rightarrow> http_headers \<Rightarrow> unit request" where
  "sample_request path hs =
     \<lparr>rq_resource = \<lparr>r_method = http_method_of ''GET'', r_path = path, r_raw_path = path, r_query = [], r_major = 1, r_minor = 1\<rparr>,
      rq_headers = hs, rq_body = (), rq_hostname = [], rq_tags = Map.empty\<rparr>"

definition sample_file :: file_stream where
  "sample_file = the (file_open (Some ''abcdef'') 6)"

lemma sample_file_ok: "file_inv sample_file" "file_content sample_file = ''abcdef''" "fs_file sample_file = ''abcdef''"
  by (simp_all add: sample_file_def file_open_def file_inv_def file_pos_def)


text \<open>
  C39. A range header the engine does not understand, of another unit or without a dash, is not
  ignored: the answer is 206 with the first byte of the file.
\<close>

theorem unknown_range_served:
  fixes f :: 'f
  assumes "precondition req mtime etag = None" "use_range req mtime etag"
    and "\<not> rr_present (parse_range_header (headers_get (rq_headers req) ''Range'') fsize)" "format_http_date mtime \<noteq> None"
  shows "\<exists>resp :: ('f resp_body, 'w) response.
    serve_stream_conditionally ops req f fsize mtime mime etag = Some resp \<and> rs_status resp = 206 \<and>
    rs_content_length resp = 1 \<and> headers_get (rs_headers resp) ''Content-Range'' = Some (''bytes 0-0/'' @ to_string_int fsize)"
proof -
  let ?rr = "parse_range_header (headers_get (rq_headers req) ''Range'') fsize"
  obtain lm where lm: "format_http_date mtime = Some lm" using assms(4) by blast
  have zero: "to_string_int 0 = ''0''" by code_simp
  have "?rr = \<lparr>rr_present = False, rr_satisfiable = True, rr_begin = 0, rr_end = 0\<rparr>"
    using assms(3) unfolding parse_range_header_def Let_def by (auto simp: present_bounds split: option.splits if_splits)
  with serve_cases [OF lm, of ops req f fsize mime etag, where 'w = 'w] assms(1,2) show ?thesis
    by (simp add: finalize_headers content_range_def zero)
qed

theorem unknown_range_served_witness:
  "\<exists>resp. serve_stream_conditionally (file_ops linux_env) (sample_request ''/a'' [\<lparr>h_name = ''Range'', h_value = ''items=1-3''\<rparr>])
     sample_file 6 0 ''text/plain'' ''e'' = Some resp \<and> rs_status (resp :: (file_stream resp_body, unit) response) = 206"
proof -
  let ?req = "sample_request ''/a'' [\<lparr>h_name = ''Range'', h_value = ''items=1-3''\<rparr>]"
  have "precondition ?req 0 ''e'' = None" "use_range ?req 0 ''e''"
    "\<not> rr_present (parse_range_header (headers_get (rq_headers ?req) ''Range'') 6)" by code_simp+
  from unknown_range_served [OF this epoch_date, of "file_ops linux_env" sample_file "''text/plain''", where 'w = unit]
  show ?thesis by blast
qed

text \<open>
  C2. A directory overlay is confined to its directory: whatever the request path, with any mixture
  of dot segments and empty segments, the answer depends only on files below the base directory
  (and the index files there).  Two file systems that agree on these answer every request alike,
  so no request can observe a file outside.
\<close>

theorem overlay_confined:
  fixes req :: "'b request" and exts :: "('b, 'a, file_stream resp_body, 'w) registry"
  assumes "agree_on (confined ov) fsys fsys'" "rq_tags req TResolveCache = None"
  shows "registry_dispatch (overlay_extension env fsys ov # exts) (req, a) =
    registry_dispatch (overlay_extension env fsys' ov # exts) (req, a)"
proof -
  let ?found = "overlay_lookup fsys ov (subpath_of req)"
  have "overlay_answer env fsys r hit = (overlay_answer env fsys' r hit :: (file_stream resp_body, 'w) response option)"
    if "?found = Some hit" for r :: "'b request" and hit
    using overlay_lookup_confined(2) [OF assms(1)] assms(1) that by (cases hit) (simp add: overlay_answer_def agree_on_def)
  then show ?thesis
    using overlay_lookup_confined(1) [OF assms(1), of "subpath_of req"]
    unfolding overlay_dispatch [OF assms(2)] by (simp add: Let_def split: option.split)
qed

theorem overlay_confined_witness:
  "let ov = overlay_of 1 ''/www'' ''index.html'' 0;
       file = \<lparr>fi_kind = RegularFile, fi_size = 1, fi_mtime = 0\<rparr>;
       none = \<lparr>fi_kind = NotFound, fi_size = 0, fi_mtime = 0\<rparr>;
       open_fs = \<lparr>fsys_stat = (\<lambda>p. if p = ''/etc'' then file else none), fsys_file = (\<lambda>p. if p = ''/etc'' then Some ''x'' else None)\<rparr>;
       empty_fs = \<lparr>fsys_stat = (\<lambda>p. none), fsys_file = (\<lambda>p. None)\<rparr>
   in registry_dispatch [overlay_extension linux_env open_fs ov :: (unit, nat, _, unit) extension] (sample_request ''/../etc'' [], 0) =
      registry_dispatch [overlay_extension linux_env empty_fs ov] (sample_request ''/../etc'' [], 0)"
proof -
  have "\<not> confined (overlay_of 1 ''/www'' ''index.html'' 0) ''/etc''"
    by (auto simp: confined_def below_base_def overlay_of_def)
  then show ?thesis unfolding Let_def by (intro overlay_confined) (auto simp: agree_on_def sample_request_def)
qed

end
