(* ===== verification/Connection_H2.thy ===== *)
theory Connection_H2
  imports Connection Frame Hpack "HOL-Library.AList"
begin

text \<open>
  \<open>src/src/server/connection_h2.cpp\<close>: an HTTP/2 connection.  The reading loop takes frames from the
  wire and changes the state of the connection; every complete request starts a coroutine that
  runs the handler and writes the response, suspended while it waits for the peer's windows.
  Streams are shared objects: the map of open streams and the coroutines refer to them by address,
  and a stream that has left the map may still be written.  A coroutine is a task with the place
  where it is suspended; a handler is a function of the request, with \<open>None\<close> for an exception.
\<close>

section \<open>State\<close>

record h2_frame =
  h2f_type :: byte
  h2f_flags :: byte
  h2f_stream_id :: u32
  h2f_payload :: "byte list"

record h2_stream =
  h2s_id :: u32
  h2s_resource :: http_resource
  h2s_headers :: http_headers
  h2s_hostname :: string
  h2s_header_block :: "byte list"
  h2s_body_buffer :: string
  h2s_end_headers :: bool
  h2s_end_stream :: bool
  h2s_malformed :: bool
  h2s_send_window :: int
  h2s_window_waiter :: "nat option"

definition default_resource :: http_resource where
  "default_resource = \<lparr>r_method = http_method_of [], r_path = [], r_raw_path = [], r_query = [], r_major = 1, r_minor = 1\<rparr>"

definition new_h2_stream :: "u32 \<Rightarrow> h2_stream" where
  "new_h2_stream i = \<lparr>h2s_id = i, h2s_resource = default_resource, h2s_headers = [], h2s_hostname = [], h2s_header_block = [],
     h2s_body_buffer = [], h2s_end_headers = False, h2s_end_stream = False, h2s_malformed = False, h2s_send_window = 65535,
     h2s_window_waiter = None\<rparr>"

text \<open>
  Where a response's coroutine stands: in the handler; before \<open>write_response\<close>; at the head of the
  loop of \<open>write_data_frames\<close> with the body and the length still to read; with a piece of the body to
  send; suspended for a window; about to send the first \<open>n\<close> bytes of the piece; these bytes sent and not
  yet taken from the windows; after \<open>write_response\<close>; at its end.  \<open>send_frame\<close> waits for the other
  writers, before and after the frame is on the wire.
\<close>

datatype 'c task =
    Handling "memory_stream request"
  | Responding "('c, unit) response"
  | Streaming 'c int
  | Pushing 'c int string
  | Waiting 'c int string
  | Sending 'c int string nat
  | Sent 'c int string nat
  | Closing
  | Finished

record 'c h2_conn =
  hc_streams :: "(u32 \<times> nat) list"
  hc_objects :: "h2_stream list"
  hc_tasks :: "(nat \<times> 'c task) list"
  hc_out :: "h2_frame list"
  hc_decoder :: hpack_decoder
  hc_highest_stream_id :: u32
  hc_last_header_stream_id :: u32
  hc_expecting_continuation :: bool
  hc_send_window :: int
  hc_peer_initial_window_size :: u32
  hc_peer_max_frame_size :: u32

definition new_h2_conn :: "'c h2_conn" where
  "new_h2_conn = \<lparr>hc_streams = [], hc_objects = [], hc_tasks = [], hc_out = [], hc_decoder = new_hpack_decoder 4096,
     hc_highest_stream_id = 0, hc_last_header_stream_id = 0, hc_expecting_continuation = False, hc_send_window = 65535,
     hc_peer_initial_window_size = 65535, hc_peer_max_frame_size = 16384\<rparr>"

definition max_request_body_size :: nat where "max_request_body_size = 16 * 1024 * 1024"

definition upd_object :: "nat \<Rightarrow> (h2_stream \<Rightarrow> h2_stream) \<Rightarrow> 'c h2_conn \<Rightarrow> 'c h2_conn" where
  "upd_object a f c = c\<lparr>hc_objects := (hc_objects c)[a := f (hc_objects c ! a)]\<rparr>"

section \<open>The writers' lock\<close>

text \<open>
  \<open>lock_h2\<close> is \<open>await_suspend\<close>, with its result whether the caller stays suspended;
  \<open>unlock_h2\<close> returns the coroutine it resumes, which then holds the lock.
\<close>

record writer_lock =
  wl_locked :: bool
  wl_waiters :: "nat list"

definition new_writer_lock :: writer_lock where
  "new_writer_lock = \<lparr>wl_locked = False, wl_waiters = []\<rparr>"

definition lock_h2 :: "nat \<Rightarrow> writer_lock \<Rightarrow> bool \<times> writer_lock" where
  "lock_h2 h l = (if \<not> wl_locked l then (False, l\<lparr>wl_locked := True\<rparr>) else (True, l\<lparr>wl_waiters := wl_waiters l @ [h]\<rparr>))"

definition unlock_h2 :: "writer_lock \<Rightarrow> nat option \<times> writer_lock" where
  "unlock_h2 l = (case wl_waiters l of h # hs \<Rightarrow> (Some h, l\<lparr>wl_waiters := hs\<rparr>) | [] \<Rightarrow> (None, l\<lparr>wl_locked := False\<rparr>))"

section \<open>Sending frames\<close>

text \<open>
  A writer holds the lock from the first byte of its frame to the last, so the wire carries whole frames: \<open>hc_out\<close> is the
  list of frames sent and \<open>frame_bytes\<close> the bytes of each.
\<close>

definition send_frame :: "byte \<Rightarrow> byte \<Rightarrow> u32 \<Rightarrow> byte list \<Rightarrow> 'c h2_conn \<Rightarrow> 'c h2_conn" where
  "send_frame ty fl stream_id payload c =
     c\<lparr>hc_out := hc_out c @ [\<lparr>h2f_type = ty, h2f_flags = fl, h2f_stream_id = stream_id, h2f_payload = payload\<rparr>]\<rparr>"

definition frame_bytes :: "h2_frame \<Rightarrow> byte list" where
  "frame_bytes f = frame_header_write \<lparr>fh_length = of_nat (length (h2f_payload f)), fh_type = h2f_type f, fh_flags = h2f_flags f,
     fh_stream_id = h2f_stream_id f\<rparr> @ h2f_payload f"

definition send_settings_ack :: "'c h2_conn \<Rightarrow> 'c h2_conn" where
  "send_settings_ack = send_frame ft_settings fl_ack 0 []"

definition send_goaway :: "u32 \<Rightarrow> 'c h2_conn \<Rightarrow> 'c h2_conn" where
  "send_goaway error c = send_frame ft_goaway 0 0 (write_goaway_payload (hc_highest_stream_id c) error []) c"

section \<open>Requests\<close>

definition apply_field :: "h2_stream \<Rightarrow> header_field \<Rightarrow> h2_stream" where
  "apply_field s f =
     (if hf_name f = '':method'' then s\<lparr>h2s_resource := (h2s_resource s)\<lparr>r_method := http_method_of (hf_value f)\<rparr>\<rparr>
      else if hf_name f = '':authority'' then s\<lparr>h2s_hostname := hf_value f\<rparr>
      else if hf_name f = '':path'' then
        (let (raw, q) = (case find_char (CHR ''?'') (hf_value f) of
                           None \<Rightarrow> (hf_value f, query_parse [])
                         | Some qpos \<Rightarrow> (take qpos (hf_value f), query_parse (drop (qpos + 1) (hf_value f))))
         in s\<lparr>h2s_resource := (h2s_resource s)\<lparr>r_raw_path := raw, r_query := q, r_path := url_decode raw\<rparr>\<rparr>)
      else if hf_name f = '':scheme'' then s
      else if hf_name f \<noteq> [] \<and> hd (hf_name f) = CHR '':'' then s
      else s\<lparr>h2s_headers := headers_add (hf_name f) (hf_value f) (h2s_headers s)\<rparr>)"

definition finish_header_block :: "nat \<Rightarrow> 'c h2_conn \<Rightarrow> 'c h2_conn" where
  "finish_header_block a c =
     (let (ok, decoder, fields) = hpack_decode (h2s_header_block (hc_objects c ! a)) (hc_decoder c) [];
          c = c\<lparr>hc_decoder := decoder\<rparr>
      in if \<not> ok then upd_object a (\<lambda>s. s\<lparr>h2s_malformed := True\<rparr>) c
         else upd_object a (\<lambda>s. let s = foldl apply_field s fields
                                in s\<lparr>h2s_resource := (h2s_resource s)\<lparr>r_major := 2, r_minor := 0\<rparr>\<rparr>) c)"

definition h2_request :: "h2_stream \<Rightarrow> memory_stream request" where
  "h2_request s = \<lparr>rq_resource = h2s_resource s, rq_headers = h2s_headers s, rq_body = memory_of (h2s_body_buffer s),
     rq_hostname = h2s_hostname s, rq_tags = Map.empty\<rparr>"

text \<open>\<open>dispatch_stream\<close> up to the call of the handler, which takes the headers out of the stream.\<close>

definition dispatch_stream :: "nat \<Rightarrow> 'c h2_conn \<Rightarrow> 'c h2_conn" where
  "dispatch_stream a c =
     (let s = hc_objects c ! a in
      if h2s_malformed s then c\<lparr>hc_tasks := hc_tasks c @ [(a, Responding (make_response 400))]\<rparr>
      else upd_object a (\<lambda>s. s\<lparr>h2s_headers := []\<rparr>) (c\<lparr>hc_tasks := hc_tasks c @ [(a, Handling (h2_request s))]\<rparr>))"

definition end_of_headers :: "nat \<Rightarrow> 'c h2_conn \<Rightarrow> 'c h2_conn" where
  "end_of_headers a c =
     (let c = upd_object a (\<lambda>s. s\<lparr>h2s_end_headers := True\<rparr>) (finish_header_block a c); s = hc_objects c ! a
      in if h2s_end_stream s \<or> h2s_malformed s then dispatch_stream a c else c)"

section \<open>Handling a frame\<close>

text \<open>The handlers return \<open>ok\<close> and the new state.\<close>

definition apply_setting :: "'c h2_conn \<Rightarrow> settings_param \<Rightarrow> 'c h2_conn" where
  "apply_setting c p =
     (if sp_id p = sid_initial_window_size then c\<lparr>hc_peer_initial_window_size := sp_value p\<rparr>
      else if sp_id p = sid_max_frame_size
      then c\<lparr>hc_peer_max_frame_size := (if sp_value p = 0 then hc_peer_max_frame_size c else sp_value p)\<rparr>
      else c)"

definition handle_settings :: "h2_frame \<Rightarrow> 'c h2_conn \<Rightarrow> bool \<times> 'c h2_conn" where
  "handle_settings f c =
     (if h2f_stream_id f \<noteq> 0 then (False, c)
      else if has_flag (h2f_flags f) fl_ack then (True, c)
      else case parse_settings_payload (h2f_payload f) of
        None \<Rightarrow> (False, c)
      | Some params \<Rightarrow> (True, send_settings_ack (foldl apply_setting c params)))"

definition handle_ping :: "h2_frame \<Rightarrow> 'c h2_conn \<Rightarrow> bool \<times> 'c h2_conn" where
  "handle_ping f c =
     (if h2f_stream_id f \<noteq> 0 \<or> length (h2f_payload f) \<noteq> 8 then (False, c)
      else if has_flag (h2f_flags f) fl_ack then (True, c)
      else (True, send_frame ft_ping fl_ack 0 (h2f_payload f) c))"

definition handle_headers :: "h2_frame \<Rightarrow> 'c h2_conn \<Rightarrow> bool \<times> 'c h2_conn" where
  "handle_headers f c =
     (if h2f_stream_id f = 0 \<or> hc_expecting_continuation c then (False, c)
      else case strip_padding (h2f_payload f) (has_flag (h2f_flags f) fl_padded) of
        None \<Rightarrow> (False, c)
      | Some (content_len, content_offset) \<Rightarrow>
          if has_flag (h2f_flags f) fl_priority \<and> content_len < 5 then (False, c)
          else
            let (content_len, content_offset) =
                  (if has_flag (h2f_flags f) fl_priority then (content_len - 5, content_offset + 5) else (content_len, content_offset));
                a = length (hc_objects c);
                s = (new_h2_stream (h2f_stream_id f))
                      \<lparr>h2s_send_window := uint (hc_peer_initial_window_size c),
                       h2s_header_block := take content_len (drop content_offset (h2f_payload f)),
                       h2s_end_stream := has_flag (h2f_flags f) fl_end_stream\<rparr>;
                c = c\<lparr>hc_objects := hc_objects c @ [s], hc_streams := AList.update (h2f_stream_id f) a (hc_streams c),
                      hc_highest_stream_id := max (hc_highest_stream_id c) (h2f_stream_id f)\<rparr>
            in if has_flag (h2f_flags f) fl_end_headers then (True, end_of_headers a c)
               else (True, c\<lparr>hc_expecting_continuation := True, hc_last_header_stream_id := h2f_stream_id f\<rparr>))"

definition handle_continuation :: "h2_frame \<Rightarrow> 'c h2_conn \<Rightarrow> bool \<times> 'c h2_conn" where
  "handle_continuation f c =
     (if \<not> hc_expecting_continuation c \<or> h2f_stream_id f \<noteq> hc_last_header_stream_id c then (False, c)
      else case map_of (hc_streams c) (h2f_stream_id f) of
        None \<Rightarrow> (False, c)
      | Some a \<Rightarrow>
          let c = upd_object a (\<lambda>s. s\<lparr>h2s_header_block := h2s_header_block s @ h2f_payload f\<rparr>) c
          in if has_flag (h2f_flags f) fl_end_headers then (True, end_of_headers a (c\<lparr>hc_expecting_continuation := False\<rparr>))
             else (True, c))"

definition handle_data :: "h2_frame \<Rightarrow> 'c h2_conn \<Rightarrow> bool \<times> 'c h2_conn" where
  "handle_data f c =
     (case map_of (hc_streams c) (h2f_stream_id f) of
        None \<Rightarrow> (True, c)
      | Some a \<Rightarrow>
          (case strip_padding (h2f_payload f) (has_flag (h2f_flags f) fl_padded) of
             None \<Rightarrow> (False, c)
           | Some (content_len, content_offset) \<Rightarrow>
               if length (h2s_body_buffer (hc_objects c ! a)) + content_len > max_request_body_size then (False, c)
               else
                 let c = upd_object a (\<lambda>s. s\<lparr>h2s_body_buffer := h2s_body_buffer s @
                           string_of (take content_len (drop content_offset (h2f_payload f)))\<rparr>) c;
                     wu = write_window_update_payload (of_nat (length (h2f_payload f)));
                     c = (if h2f_payload f \<noteq> []
                          then send_frame ft_window_update 0 0 wu (send_frame ft_window_update 0 (h2f_stream_id f) wu c) else c)
                 in if has_flag (h2f_flags f) fl_end_stream then
                      (let c = upd_object a (\<lambda>s. s\<lparr>h2s_end_stream := True\<rparr>) c
                       in (True, if h2s_end_headers (hc_objects c ! a) then dispatch_stream a c else c))
                    else (True, c)))"

fun wake :: "'c task \<Rightarrow> 'c task" where
  "wake (Waiting body remaining buf) = Pushing body remaining buf"
| "wake t = t"

definition resume_writer :: "nat \<Rightarrow> 'c h2_conn \<Rightarrow> 'c h2_conn" where
  "resume_writer a c =
     (case h2s_window_waiter (hc_objects c ! a) of
        None \<Rightarrow> c
      | Some t \<Rightarrow> upd_object a (\<lambda>s. s\<lparr>h2s_window_waiter := None\<rparr>)
          (c\<lparr>hc_tasks := (hc_tasks c)[t := map_prod id wake (hc_tasks c ! t)]\<rparr>))"

definition handle_window_update :: "h2_frame \<Rightarrow> 'c h2_conn \<Rightarrow> bool \<times> 'c h2_conn" where
  "handle_window_update f c =
     (case parse_window_update_payload (h2f_payload f) of
        None \<Rightarrow> (False, c)
      | Some increment \<Rightarrow>
          if increment = 0 then (False, c)
          else if h2f_stream_id f = 0 then
            (True, foldl (\<lambda>c (_, a). if h2s_send_window (hc_objects c ! a) > 0 then resume_writer a c else c)
                     (c\<lparr>hc_send_window := hc_send_window c + uint increment\<rparr>) (hc_streams c))
          else case map_of (hc_streams c) (h2f_stream_id f) of
            None \<Rightarrow> (True, c)
          | Some a \<Rightarrow> (True, resume_writer a (upd_object a (\<lambda>s. s\<lparr>h2s_send_window := h2s_send_window s + uint increment\<rparr>) c)))"

text \<open>One turn of the loop of \<open>run\<close>: whether the loop goes on, and the new state.\<close>

definition h2_receive :: "h2_frame \<Rightarrow> 'c h2_conn \<Rightarrow> bool \<times> 'c h2_conn" where
  "h2_receive f c =
     (if h2f_type f = ft_goaway then (False, c)
      else let (ok, c) =
        (if h2f_type f = ft_settings then handle_settings f c
         else if h2f_type f = ft_headers then handle_headers f c
         else if h2f_type f = ft_continuation then handle_continuation f c
         else if h2f_type f = ft_data then handle_data f c
         else if h2f_type f = ft_window_update then handle_window_update f c
         else if h2f_type f = ft_rst_stream then (True, c\<lparr>hc_streams := AList.delete (h2f_stream_id f) (hc_streams c)\<rparr>)
         else if h2f_type f = ft_ping then handle_ping f c
         else (True, c))
      in if ok then (True, c) else (False, send_goaway ec_protocol_error c))"

section \<open>Writing a response\<close>

definition forbidden_headers :: "string list" where
  "forbidden_headers = [''Connection'', ''Keep-Alive'', ''Proxy-Connection'', ''Transfer-Encoding'', ''Upgrade'']"

definition is_h2_forbidden_header :: "string \<Rightarrow> bool" where
  "is_h2_forbidden_header name \<longleftrightarrow> list_ex (header_name_equals name) forbidden_headers"

definition response_fields :: "('c, 'w) response \<Rightarrow> header_list" where
  "response_fields resp =
     \<lparr>hf_name = '':status'', hf_value = to_string_int (rs_status resp)\<rparr> #
     map (\<lambda>h. \<lparr>hf_name = map tolower (h_name h), hf_value = h_value h\<rparr>)
       (filter (\<lambda>h. \<not> is_h2_forbidden_header (h_name h)) (rs_headers resp))"

definition set_task :: "nat \<Rightarrow> 'c task \<Rightarrow> 'c h2_conn \<Rightarrow> 'c h2_conn" where
  "set_task t ph c = c\<lparr>hc_tasks := (hc_tasks c)[t := (fst (hc_tasks c ! t), ph)]\<rparr>"

text \<open>The coroutine ends: its stream leaves the map, by its number.\<close>

definition end_task :: "nat \<Rightarrow> nat \<Rightarrow> 'c h2_conn \<Rightarrow> 'c h2_conn" where
  "end_task t a c = set_task t Finished (c\<lparr>hc_streams := AList.delete (h2s_id (hc_objects c ! a)) (hc_streams c)\<rparr>)"

definition begin_response :: "nat \<Rightarrow> nat \<Rightarrow> ('c, unit) response \<Rightarrow> 'c h2_conn \<Rightarrow> 'c h2_conn" where
  "begin_response t a resp c =
     (let resp = (if rs_upgrade resp \<noteq> None then make_response 501 else resp);
          header_block = hpack_encode (response_fields resp);
          has_body = (rs_body resp \<noteq> None \<and> rs_content_length resp \<noteq> 0);
          fl = (if has_body then fl_end_headers else fl_end_headers OR fl_end_stream);
          c = send_frame ft_headers fl (h2s_id (hc_objects c ! a)) header_block c
      in if has_body then set_task t (Streaming (the (rs_body resp)) (rs_content_length resp)) c else set_task t Closing c)"

definition end_data :: "nat \<Rightarrow> nat \<Rightarrow> 'c h2_conn \<Rightarrow> 'c h2_conn" where
  "end_data t a c = set_task t Closing (send_frame ft_data fl_end_stream (h2s_id (hc_objects c ! a)) [] c)"

definition read_piece :: "'c stream_ops \<Rightarrow> nat \<Rightarrow> nat \<Rightarrow> 'c \<Rightarrow> int \<Rightarrow> 'c h2_conn \<Rightarrow> 'c h2_conn option" where
  "read_piece bops t a body remaining c =
     (if remaining = 0 then Some (end_data t a c)
      else Option.bind (st_read bops (if remaining \<ge> 0 then nat (min remaining 16384) else 16384) body) (\<lambda>(got, body).
        Some (if got = [] then end_data t a c
              else set_task t (Pushing body (if remaining \<ge> 0 then remaining - int (length got) else remaining) got) c)))"

definition begin_send :: "nat \<Rightarrow> nat \<Rightarrow> 'c \<Rightarrow> int \<Rightarrow> string \<Rightarrow> 'c h2_conn \<Rightarrow> 'c h2_conn" where
  "begin_send t a body remaining buf c =
     (let window = h2s_send_window (hc_objects c ! a) in
      if window \<le> 0 \<or> hc_send_window c \<le> 0
      then upd_object a (\<lambda>s. s\<lparr>h2s_window_waiter := Some t\<rparr>) (set_task t (Waiting body remaining buf) c)
      else let allowed = min (min window (hc_send_window c)) (min (uint (hc_peer_max_frame_size c)) (int (length buf)))
           in set_task t (Sending body remaining buf (nat allowed)) c)"

definition put_data :: "nat \<Rightarrow> nat \<Rightarrow> 'c \<Rightarrow> int \<Rightarrow> string \<Rightarrow> nat \<Rightarrow> 'c h2_conn \<Rightarrow> 'c h2_conn" where
  "put_data t a body remaining buf n c =
     set_task t (Sent body remaining buf n) (send_frame ft_data 0 (h2s_id (hc_objects c ! a)) (bytes_of (take n buf)) c)"

definition end_send :: "nat \<Rightarrow> nat \<Rightarrow> 'c \<Rightarrow> int \<Rightarrow> string \<Rightarrow> nat \<Rightarrow> 'c h2_conn \<Rightarrow> 'c h2_conn" where
  "end_send t a body remaining buf n c =
     (let c = upd_object a (\<lambda>s. s\<lparr>h2s_send_window := h2s_send_window s - int n\<rparr>) c;
          c = c\<lparr>hc_send_window := hc_send_window c - int n\<rparr>
      in set_task t (if drop n buf = [] then Streaming body remaining else Pushing body remaining (drop n buf)) c)"

text \<open>One step of a task, from one point where it may be suspended to the next; \<open>None\<close> when it cannot run.\<close>

definition task_step ::
  "(memory_stream request \<Rightarrow> ('c, unit) response option) \<Rightarrow> 'c stream_ops \<Rightarrow> nat \<Rightarrow> 'c h2_conn \<Rightarrow> 'c h2_conn option" where
  "task_step handler bops t c =
     (case hc_tasks c ! t of (a, ph) \<Rightarrow>
       (case ph of
          Handling req \<Rightarrow> Some (case handler req of Some resp \<Rightarrow> set_task t (Responding resp) c | None \<Rightarrow> end_task t a c)
        | Responding resp \<Rightarrow> Some (begin_response t a resp c)
        | Streaming body remaining \<Rightarrow> read_piece bops t a body remaining c
        | Pushing body remaining buf \<Rightarrow> Some (begin_send t a body remaining buf c)
        | Sending body remaining buf n \<Rightarrow> Some (put_data t a body remaining buf n c)
        | Sent body remaining buf n \<Rightarrow> Some (end_send t a body remaining buf n c)
        | Closing \<Rightarrow> Some (end_task t a c)
        | Waiting _ _ _ \<Rightarrow> None
        | Finished \<Rightarrow> None))"

section \<open>The reading loop\<close>

partial_function (option) h2_read_exact ::
  "'s stream_ops \<Rightarrow> nat \<Rightarrow> string \<Rightarrow> 's \<Rightarrow> (string option \<times> string \<times> 's) option" where
  "h2_read_exact ops n buf w =
     (if length buf < n
      then Option.bind (st_read ops 4096 w) (\<lambda>(chunk, w). if chunk = [] then Some (None, buf, w) else h2_read_exact ops n (buf @ chunk) w)
      else Some (Some (take n buf), drop n buf, w))"

definition read_h2_frame :: "'s stream_ops \<Rightarrow> string \<Rightarrow> 's \<Rightarrow> (h2_frame option \<times> string \<times> 's) option" where
  "read_h2_frame ops buf w =
     Option.bind (h2_read_exact ops frame_header_wire_size buf w) (\<lambda>(head, buf, w). case head of
       None \<Rightarrow> Some (None, buf, w)
     | Some head \<Rightarrow>
         let fh = frame_header_parse (bytes_of head);
             mk = (\<lambda>payload. \<lparr>h2f_type = fh_type fh, h2f_flags = fh_flags fh, h2f_stream_id = fh_stream_id fh, h2f_payload = payload\<rparr>)
         in if unat (fh_length fh) > 16 * 1024 * 1024 then Some (None, buf, w)
            else if fh_length fh = 0 then Some (Some (mk []), buf, w)
            else Option.bind (h2_read_exact ops (unat (fh_length fh)) buf w) (\<lambda>(payload, buf, w).
              Some (map_option (\<lambda>p. mk (bytes_of p)) payload, buf, w)))"

definition client_preface :: string where
  "client_preface = ''PRI * HTTP/2.0'' @ CRLF @ CRLF @ ''SM'' @ CRLF @ CRLF"

text \<open>While the loop waits for its \<open>k\<close>-th frame the coroutines run: \<open>between k\<close> is what they do.\<close>

partial_function (option) h2_loop ::
  "'s stream_ops \<Rightarrow> (nat \<Rightarrow> 'c h2_conn \<Rightarrow> 'c h2_conn) \<Rightarrow> nat \<Rightarrow> string \<Rightarrow> 's \<Rightarrow> 'c h2_conn \<Rightarrow> 'c h2_conn option" where
  "h2_loop ops between k buf w c =
     Option.bind (read_h2_frame ops buf w) (\<lambda>(f, buf, w).
       let c = between k c in
       case f of
         None \<Rightarrow> Some c
       | Some f \<Rightarrow> (case h2_receive f c of (go, c) \<Rightarrow> if go then h2_loop ops between (k + 1) buf w c else Some c))"

definition h2_run ::
  "'s stream_ops \<Rightarrow> (nat \<Rightarrow> 'c h2_conn \<Rightarrow> 'c h2_conn) \<Rightarrow> string \<Rightarrow> 's \<Rightarrow> 'c h2_conn option" where
  "h2_run ops between preface_leftover w =
     Option.bind (h2_read_exact ops (length client_preface) preface_leftover w) (\<lambda>(preface_check, buf, w).
       if preface_check \<noteq> Some client_preface then Some new_h2_conn
       else h2_loop ops between 0 buf w (send_frame ft_settings 0 0 [] new_h2_conn))"

end
