(* ===== verification/Http2_Flow.thy ===== *)
theory Http2_Flow
  imports Connection_H2
begin

text \<open>
  Executions of an HTTP/2 connection as sequences of events, a frame received or a step of one of its
  coroutines, in any order: the well-formedness of the connection and the accounting of its windows.
\<close>

section \<open>Executions\<close>

datatype h2_event = Recv h2_frame | Run nat

definition run_event ::
  "(memory_stream request \<Rightarrow> ('c, unit) response option) \<Rightarrow> 'c stream_ops \<Rightarrow> h2_event \<Rightarrow> 'c h2_conn \<Rightarrow> 'c h2_conn option" where
  "run_event handler bops e c =
     (case e of
        Recv f \<Rightarrow> Some (snd (h2_receive f c))
      | Run t \<Rightarrow> if t < length (hc_tasks c) then task_step handler bops t c else None)"

fun h2_exec ::
  "(memory_stream request \<Rightarrow> ('c, unit) response option) \<Rightarrow> 'c stream_ops \<Rightarrow> h2_event list \<Rightarrow> 'c h2_conn \<Rightarrow> 'c h2_conn option" where
  "h2_exec handler bops [] c = Some c"
| "h2_exec handler bops (e # es) c = Option.bind (run_event handler bops e c) (h2_exec handler bops es)"

lemma h2_exec_append:
  "h2_exec handler bops (es @ es') c = Option.bind (h2_exec handler bops es c) (h2_exec handler bops es')"
  by (induction es arbitrary: c) (simp_all split: bind_split)

lemma h2_exec_invariant:
  assumes step: "\<And>e c c'. I c \<Longrightarrow> run_event handler bops e c = Some c' \<Longrightarrow> I c'"
  shows "I c \<Longrightarrow> h2_exec handler bops es c = Some c' \<Longrightarrow> I c'"
  by (induction es arbitrary: c) (auto simp: bind_eq_Some_conv intro: step)

section \<open>The writers' lock\<close>

text \<open>Who has been let in, in order: \<open>Some h\<close> asks for the lock, \<open>None\<close> is the holder leaving.\<close>

fun lock_run :: "nat option list \<Rightarrow> nat list \<times> writer_lock \<Rightarrow> nat list \<times> writer_lock" where
  "lock_run [] st = st"
| "lock_run (Some h # es) (granted, l) = (case lock_h2 h l of (suspended, l) \<Rightarrow> lock_run es (if suspended then granted else granted @ [h], l))"
| "lock_run (None # es) (granted, l) =
     (if wl_locked l then (case unlock_h2 l of (h, l) \<Rightarrow> lock_run es (case h of Some h \<Rightarrow> granted @ [h] | None \<Rightarrow> granted, l))
      else lock_run es (granted, l))"

text \<open>The coroutines enter one at a time and in the order in which they asked; only those that wait have not been let in.\<close>

lemma writer_lock_fifo:
  "lock_run es (granted, l) = (granted', l') \<Longrightarrow> (wl_waiters l \<noteq> [] \<Longrightarrow> wl_locked l) \<Longrightarrow>
   granted' @ wl_waiters l' = granted @ wl_waiters l @ List.map_filter id es \<and> (wl_waiters l' \<noteq> [] \<longrightarrow> wl_locked l')"
proof (induction es "(granted, l)" arbitrary: granted l rule: lock_run.induct)
  case (2 h es granted l)
  then show ?case by (cases "wl_locked l") (fastforce simp: lock_h2_def List.map_filter_def)+
next
  case (3 es granted l)
  then show ?case by (cases "wl_waiters l") (auto simp: unlock_h2_def List.map_filter_def split: if_splits)
qed (simp add: List.map_filter_def)

section \<open>Well-formed connections\<close>

text \<open>
  Every number in the map leads to a live object of that number, every coroutine serves an object,
  a coroutine that waits or sends has bytes to send, and an object's waiter is a coroutine of this
  object that waits.
\<close>

fun task_ok :: "'c task \<Rightarrow> bool" where
  "task_ok (Pushing body remaining buf) \<longleftrightarrow> buf \<noteq> []"
| "task_ok (Waiting body remaining buf) \<longleftrightarrow> buf \<noteq> []"
| "task_ok (Sending body remaining buf n) \<longleftrightarrow> 0 < n \<and> n \<le> length buf"
| "task_ok (Sent body remaining buf n) \<longleftrightarrow> 0 < n \<and> n \<le> length buf"
| "task_ok _ \<longleftrightarrow> True"

fun is_waiting :: "'c task \<Rightarrow> bool" where
  "is_waiting (Waiting body remaining buf) \<longleftrightarrow> True"
| "is_waiting _ \<longleftrightarrow> False"

definition streams_ok :: "(u32 \<times> nat) list \<Rightarrow> h2_stream list \<Rightarrow> bool" where
  "streams_ok streams objs \<longleftrightarrow> (\<forall>(i, a) \<in> set streams. a < length objs \<and> h2s_id (objs ! a) = i)"

definition tasks_ok :: "h2_stream list \<Rightarrow> (nat \<times> 'c task) list \<Rightarrow> bool" where
  "tasks_ok objs tasks \<longleftrightarrow> (\<forall>(a, ph) \<in> set tasks. a < length objs \<and> task_ok ph)"

definition waiters_ok :: "h2_stream list \<Rightarrow> (nat \<times> 'c task) list \<Rightarrow> bool" where
  "waiters_ok objs tasks \<longleftrightarrow>
     (\<forall>a t. a < length objs \<longrightarrow> h2s_window_waiter (objs ! a) = Some t \<longrightarrow>
        t < length tasks \<and> fst (tasks ! t) = a \<and> is_waiting (snd (tasks ! t)))"

definition wf_conn :: "'c h2_conn \<Rightarrow> bool" where
  "wf_conn c \<longleftrightarrow> streams_ok (hc_streams c) (hc_objects c) \<and> tasks_ok (hc_objects c) (hc_tasks c) \<and>
     waiters_ok (hc_objects c) (hc_tasks c) \<and> hc_peer_max_frame_size c \<noteq> 0"

lemmas wf_conn_defs = wf_conn_def streams_ok_def tasks_ok_def waiters_ok_def

lemma wf_conn_new: "wf_conn new_h2_conn"
  by (simp add: wf_conn_defs new_h2_conn_def)

lemma upd_object_simps [simp]:
  "hc_streams (upd_object a f c) = hc_streams c" "hc_tasks (upd_object a f c) = hc_tasks c" "hc_out (upd_object a f c) = hc_out c"
  "hc_send_window (upd_object a f c) = hc_send_window c" "hc_peer_max_frame_size (upd_object a f c) = hc_peer_max_frame_size c"
  "hc_expecting_continuation (upd_object a f c) = hc_expecting_continuation c" "hc_decoder (upd_object a f c) = hc_decoder c"
  "hc_last_header_stream_id (upd_object a f c) = hc_last_header_stream_id c"
  "length (hc_objects (upd_object a f c)) = length (hc_objects c)"
  "b < length (hc_objects c) \<Longrightarrow> hc_objects (upd_object a f c) ! b = (if a = b then f (hc_objects c ! b) else hc_objects c ! b)"
  by (simp_all add: upd_object_def)

lemma send_frame_simps [simp]:
  "hc_streams (send_frame ty fl i p c) = hc_streams c" "hc_tasks (send_frame ty fl i p c) = hc_tasks c"
  "hc_objects (send_frame ty fl i p c) = hc_objects c" "hc_send_window (send_frame ty fl i p c) = hc_send_window c"
  "hc_peer_max_frame_size (send_frame ty fl i p c) = hc_peer_max_frame_size c"
  "hc_expecting_continuation (send_frame ty fl i p c) = hc_expecting_continuation c"
  "hc_out (send_frame ty fl i p c) = hc_out c @ [\<lparr>h2f_type = ty, h2f_flags = fl, h2f_stream_id = i, h2f_payload = p\<rparr>]"
  by (simp_all add: send_frame_def)

lemma set_task_simps [simp]:
  "hc_streams (set_task t ph c) = hc_streams c" "hc_objects (set_task t ph c) = hc_objects c" "hc_out (set_task t ph c) = hc_out c"
  "hc_send_window (set_task t ph c) = hc_send_window c" "hc_peer_max_frame_size (set_task t ph c) = hc_peer_max_frame_size c"
  "hc_tasks (set_task t ph c) = (hc_tasks c)[t := (fst (hc_tasks c ! t), ph)]"
  by (simp_all add: set_task_def)

lemma wf_same:
  "hc_streams c' = hc_streams c \<Longrightarrow> hc_objects c' = hc_objects c \<Longrightarrow> hc_tasks c' = hc_tasks c \<Longrightarrow>
   hc_peer_max_frame_size c' \<noteq> 0 \<Longrightarrow> wf_conn c \<Longrightarrow> wf_conn c'"
  by (simp add: wf_conn_def)

lemma wf_send_frame [simp]: "wf_conn c \<Longrightarrow> wf_conn (send_frame ty fl i p c)"
  by (simp add: wf_conn_def)

lemma wf_upd_object:
  assumes "wf_conn c" "\<And>s. h2s_id (f s) = h2s_id s" "\<And>s. h2s_window_waiter (f s) = h2s_window_waiter s"
  shows "wf_conn (upd_object a f c)"
  using assms unfolding wf_conn_defs by (auto simp: case_prod_beta split: if_splits)

lemma wf_delete_stream: "wf_conn c \<Longrightarrow> wf_conn (c\<lparr>hc_streams := AList.delete i (hc_streams c)\<rparr>)"
  by (auto simp: wf_conn_def streams_ok_def AList.delete_eq)

lemma wf_add_task: "wf_conn c \<Longrightarrow> a < length (hc_objects c) \<Longrightarrow> task_ok ph \<Longrightarrow> wf_conn (c\<lparr>hc_tasks := hc_tasks c @ [(a, ph)]\<rparr>)"
  unfolding wf_conn_defs by (auto simp: nth_append)

text \<open>A running coroutine moves on: it is nobody's waiter.\<close>

lemma wf_set_task:
  assumes "wf_conn c" "t < length (hc_tasks c)" "\<not> is_waiting (snd (hc_tasks c ! t))" "task_ok ph"
  shows "wf_conn (set_task t ph c)"
proof -
  have "fst (hc_tasks c ! t) < length (hc_objects c)"
    using assms(1,2) nth_mem [of t "hc_tasks c"] unfolding wf_conn_defs by (auto simp: case_prod_beta)
  moreover have "set ((hc_tasks c)[t := x]) \<subseteq> insert x (set (hc_tasks c))" for x by (rule set_update_subset_insert)
  ultimately have "tasks_ok (hc_objects c) ((hc_tasks c)[t := (fst (hc_tasks c ! t), ph)])"
    using assms(1,4) unfolding wf_conn_def tasks_ok_def by fastforce
  moreover have "waiters_ok (hc_objects c) ((hc_tasks c)[t := (fst (hc_tasks c ! t), ph)])"
    using assms unfolding wf_conn_def waiters_ok_def by (auto simp: nth_list_update)
  ultimately show ?thesis using assms(1) by (simp add: wf_conn_def)
qed

lemma wf_end_task:
  "wf_conn c \<Longrightarrow> t < length (hc_tasks c) \<Longrightarrow> \<not> is_waiting (snd (hc_tasks c ! t)) \<Longrightarrow> wf_conn (end_task t a c)"
  unfolding end_task_def by (rule wf_set_task) (simp_all add: wf_delete_stream)

lemma max_frame_pos: "wf_conn c \<Longrightarrow> 0 < uint (hc_peer_max_frame_size c)"
  by (simp add: wf_conn_def order_less_le unsigned_eq_0_iff)

lemma wf_begin_send:
  assumes "wf_conn c" "t < length (hc_tasks c)" "hc_tasks c ! t = (a, Pushing body remaining buf)"
  shows "wf_conn (begin_send t a body remaining buf c)"
proof -
  have buf: "buf \<noteq> []" and a: "a < length (hc_objects c)"
    using assms nth_mem [OF assms(2)] unfolding wf_conn_def tasks_ok_def by fastforce+
  note max = max_frame_pos [OF assms(1)]
  show ?thesis
  proof (cases "h2s_send_window (hc_objects c ! a) \<le> 0 \<or> hc_send_window c \<le> 0")
    case True
    have w: "wf_conn (set_task t (Waiting body remaining buf) c)"
      using assms buf by (intro wf_set_task) simp_all
    have "waiters_ok (hc_objects (upd_object a (\<lambda>s. s\<lparr>h2s_window_waiter := Some t\<rparr>) (set_task t (Waiting body remaining buf) c)))
        ((hc_tasks c)[t := (a, Waiting body remaining buf)])"
      using w assms unfolding wf_conn_def waiters_ok_def by (auto split: if_splits)
    with w True assms(3) a show ?thesis
      unfolding wf_conn_def begin_send_def streams_ok_def tasks_ok_def by (auto simp: case_prod_beta)
  next
    case False
    have "0 < nat (min (min (h2s_send_window (hc_objects c ! a)) (hc_send_window c)) (min (uint (hc_peer_max_frame_size c)) (int (length buf))))"
      using False max buf by auto
    with False assms show ?thesis unfolding begin_send_def Let_def
      by (auto intro!: wf_set_task simp: nat_le_iff)
  qed
qed

lemma wf_task_step:
  assumes "wf_conn c" "t < length (hc_tasks c)" "task_step handler bops t c = Some c'"
  shows "wf_conn c'"
proof -
  obtain a ph where t: "hc_tasks c ! t = (a, ph)" by (cases "hc_tasks c ! t")
  have ok: "task_ok ph" using assms(1,2) t nth_mem [OF assms(2)] unfolding wf_conn_def tasks_ok_def by fastforce
  show ?thesis
  proof (cases ph)
    case (Handling req)
    with assms t show ?thesis by (auto simp: task_step_def intro!: wf_set_task wf_end_task split: option.splits)
  next
    case (Responding resp)
    with assms t show ?thesis
      by (auto simp: task_step_def begin_response_def Let_def intro!: wf_set_task wf_end_task split: if_splits)
  next
    case (Streaming body remaining)
    have "wf_conn (end_data t a c)" using assms t Streaming unfolding end_data_def by (intro wf_set_task) simp_all
    moreover have "got \<noteq> [] \<Longrightarrow> wf_conn (set_task t (Pushing body' remaining' got) c)" for body' remaining' got
      using assms t Streaming by (intro wf_set_task) simp_all
    ultimately show ?thesis
      using assms(3) t Streaming by (simp add: task_step_def read_piece_def bind_eq_Some_conv split: if_split_asm) blast+
  next
    case (Pushing body remaining buf)
    with assms t wf_begin_send [OF assms(1,2)] show ?thesis by (auto simp: task_step_def)
  next
    case (Sending body remaining buf n)
    with assms t ok show ?thesis by (auto simp: task_step_def put_data_def intro!: wf_set_task)
  next
    case (Sent body remaining buf n)
    have "wf_conn (upd_object a (\<lambda>s. s\<lparr>h2s_send_window := h2s_send_window s - int n\<rparr>) c)"
      using assms(1) by (intro wf_upd_object) simp_all
    then have w: "wf_conn ((upd_object a (\<lambda>s. s\<lparr>h2s_send_window := h2s_send_window s - int n\<rparr>) c)\<lparr>hc_send_window := x\<rparr>)" for x
      by (simp add: wf_conn_def)
    from Sent assms t show ?thesis
      by (auto simp: task_step_def end_send_def Let_def intro!: wf_set_task w)
  next
    case Closing
    with assms t show ?thesis by (auto simp: task_step_def intro!: wf_end_task)
  qed (use assms t in \<open>simp_all add: task_step_def\<close>)
qed

text \<open>Waking a waiter.\<close>

lemma wf_resume_writer:
  assumes "wf_conn c" "a < length (hc_objects c)"
  shows "wf_conn (resume_writer a c)"
proof (cases "h2s_window_waiter (hc_objects c ! a)")
  case (Some t)
  then have t: "t < length (hc_tasks c)" "fst (hc_tasks c ! t) = a" "is_waiting (snd (hc_tasks c ! t))"
    using assms unfolding wf_conn_def waiters_ok_def by blast+
  then obtain body remaining buf where ph: "hc_tasks c ! t = (a, Waiting body remaining buf)"
    by (cases "hc_tasks c ! t"; cases "snd (hc_tasks c ! t)") auto
  have only: "h2s_window_waiter (hc_objects c ! b) \<noteq> Some t" if "b < length (hc_objects c)" "b \<noteq> a" for b
    using assms(1) t(2) that unfolding wf_conn_def waiters_ok_def by blast
  have "set ((hc_tasks c)[t := x]) \<subseteq> insert x (set (hc_tasks c))" for x by (rule set_update_subset_insert)
  moreover have "buf \<noteq> []" using assms(1) nth_mem [OF t(1)] ph unfolding wf_conn_def tasks_ok_def by fastforce
  ultimately have "tasks_ok (hc_objects c) ((hc_tasks c)[t := (a, Pushing body remaining buf)])"
    using assms unfolding wf_conn_def tasks_ok_def by fastforce
  moreover have "waiters_ok (hc_objects (upd_object a (\<lambda>s. s\<lparr>h2s_window_waiter := None\<rparr>) c)) ((hc_tasks c)[t := (a, Pushing body remaining buf)])"
    using assms(1) only unfolding wf_conn_def waiters_ok_def by (auto split: if_splits) (metis nth_list_update_neq)+
  ultimately show ?thesis
    using assms Some ph unfolding wf_conn_def resume_writer_def streams_ok_def tasks_ok_def
    by (auto simp: case_prod_beta upd_object_def nth_list_update)
qed (use assms in \<open>simp add: resume_writer_def\<close>)

lemma resume_writer_simps [simp]:
  "hc_streams (resume_writer a c) = hc_streams c" "length (hc_objects (resume_writer a c)) = length (hc_objects c)"
  "hc_out (resume_writer a c) = hc_out c" "hc_send_window (resume_writer a c) = hc_send_window c"
  by (simp_all add: resume_writer_def split: option.split)

lemma wf_resume_all:
  "wf_conn c \<Longrightarrow> \<forall>(_, a) \<in> set as. a < length (hc_objects c) \<Longrightarrow>
   wf_conn (foldl (\<lambda>c (_, a). if h2s_send_window (hc_objects c ! a) > 0 then resume_writer a c else c) c as)"
proof (induction as arbitrary: c)
  case (Cons x as)
  then show ?case by (cases x) (auto intro!: Cons.IH wf_resume_writer)
qed simp

text \<open>Receiving a frame.\<close>

lemma map_of_stream: "wf_conn c \<Longrightarrow> map_of (hc_streams c) i = Some a \<Longrightarrow> a < length (hc_objects c) \<and> h2s_id (hc_objects c ! a) = i"
  unfolding wf_conn_def streams_ok_def by (auto dest!: map_of_SomeD)

lemma apply_field_keeps [simp]:
  "h2s_id (apply_field s f) = h2s_id s" "h2s_window_waiter (apply_field s f) = h2s_window_waiter s"
  "h2s_end_stream (apply_field s f) = h2s_end_stream s" "h2s_body_buffer (apply_field s f) = h2s_body_buffer s"
  "h2s_malformed (apply_field s f) = h2s_malformed s" "h2s_send_window (apply_field s f) = h2s_send_window s"
  by (simp_all add: apply_field_def Let_def split_beta)

lemma apply_fields_keep [simp]:
  "h2s_id (foldl apply_field s fs) = h2s_id s" "h2s_window_waiter (foldl apply_field s fs) = h2s_window_waiter s"
  "h2s_end_stream (foldl apply_field s fs) = h2s_end_stream s" "h2s_body_buffer (foldl apply_field s fs) = h2s_body_buffer s"
  "h2s_malformed (foldl apply_field s fs) = h2s_malformed s" "h2s_send_window (foldl apply_field s fs) = h2s_send_window s"
  by (induction fs arbitrary: s) simp_all

lemma wf_decoder [simp]: "wf_conn (c\<lparr>hc_decoder := d\<rparr>) = wf_conn c"
  by (simp add: wf_conn_def)

lemma wf_continuation [simp]: "wf_conn (c\<lparr>hc_expecting_continuation := b\<rparr>) = wf_conn c" "wf_conn (c\<lparr>hc_last_header_stream_id := i\<rparr>) = wf_conn c"
  by (simp_all add: wf_conn_def)

lemma wf_finish_header_block: "wf_conn c \<Longrightarrow> wf_conn (finish_header_block a c)"
  by (auto simp: finish_header_block_def Let_def intro!: wf_upd_object split: prod.split)

lemma finish_header_block_objects [simp]: "length (hc_objects (finish_header_block a c)) = length (hc_objects c)"
  by (simp add: finish_header_block_def Let_def split: prod.split)

lemma wf_dispatch_stream: "wf_conn c \<Longrightarrow> a < length (hc_objects c) \<Longrightarrow> wf_conn (dispatch_stream a c)"
  by (auto simp: dispatch_stream_def Let_def intro!: wf_upd_object wf_add_task)

lemma wf_end_of_headers: "wf_conn c \<Longrightarrow> a < length (hc_objects c) \<Longrightarrow> wf_conn (end_of_headers a c)"
  unfolding end_of_headers_def Let_def by (simp add: wf_dispatch_stream wf_upd_object wf_finish_header_block)

lemma wf_new_stream:
  assumes "wf_conn c" "h2s_id s = i" "h2s_window_waiter s = None"
  shows "wf_conn (c\<lparr>hc_objects := hc_objects c @ [s], hc_streams := AList.update i (length (hc_objects c)) (hc_streams c), hc_highest_stream_id := m\<rparr>)"
proof -
  have "set (AList.update i v xs) \<subseteq> insert (i, v) (set xs)" for v :: nat and xs
    by (induction xs) auto
  then have "streams_ok (AList.update i (length (hc_objects c)) (hc_streams c)) (hc_objects c @ [s])"
    using assms unfolding wf_conn_def streams_ok_def by (fastforce simp: nth_append)
  moreover have "tasks_ok (hc_objects c @ [s]) (hc_tasks c)" "waiters_ok (hc_objects c @ [s]) (hc_tasks c)"
    using assms unfolding wf_conn_def tasks_ok_def waiters_ok_def by (auto simp: nth_append case_prod_beta less_Suc_eq split: if_splits)
  ultimately show ?thesis using assms(1) by (simp add: wf_conn_def)
qed

lemma wf_settings: "wf_conn c \<Longrightarrow> wf_conn (foldl apply_setting c ps)"
proof (induction ps arbitrary: c)
  case (Cons p ps)
  have "wf_conn (apply_setting c p)" using Cons.prems by (simp add: apply_setting_def wf_conn_def)
  with Cons.IH show ?case by simp
qed simp

lemma wf_handlers:
  assumes "wf_conn c"
  shows "wf_conn (snd (handle_settings f c))" "wf_conn (snd (handle_ping f c))" "wf_conn (snd (handle_headers f c))"
    "wf_conn (snd (handle_continuation f c))" "wf_conn (snd (handle_data f c))" "wf_conn (snd (handle_window_update f c))"
proof -
  show "wf_conn (snd (handle_settings f c))" "wf_conn (snd (handle_ping f c))"
    using assms by (simp_all add: handle_settings_def send_settings_ack_def handle_ping_def wf_settings split: option.split)
  show "wf_conn (snd (handle_headers f c))"
    using assms wf_new_stream [OF assms]
    by (auto simp: handle_headers_def Let_def new_h2_stream_def intro!: wf_end_of_headers split: option.split prod.split)
  show "wf_conn (snd (handle_continuation f c))"
    using assms map_of_stream [OF assms] by (auto simp: handle_continuation_def Let_def intro!: wf_end_of_headers wf_upd_object split: option.split)
  show "wf_conn (snd (handle_data f c))"
    using assms map_of_stream [OF assms]
    by (auto simp: handle_data_def Let_def intro!: wf_send_frame wf_dispatch_stream wf_upd_object split: option.split prod.split)
  show "wf_conn (snd (handle_window_update f c))"
  proof -
    have "wf_conn (c\<lparr>hc_send_window := w\<rparr>)" for w using assms by (simp add: wf_conn_def)
    moreover have "\<forall>(_, a) \<in> set (hc_streams c). a < length (hc_objects c)" using assms by (auto simp: wf_conn_def streams_ok_def)
    ultimately show ?thesis
      using assms map_of_stream [OF assms]
      by (auto simp: handle_window_update_def intro!: wf_resume_all wf_resume_writer wf_upd_object split: option.split)
  qed
qed

lemma wf_h2_receive: "wf_conn c \<Longrightarrow> wf_conn (snd (h2_receive f c))"
  using wf_handlers [of c f] unfolding h2_receive_def Let_def
  by (auto simp: send_goaway_def wf_delete_stream case_prod_beta)

lemma wf_run_event: "wf_conn c \<Longrightarrow> run_event handler bops e c = Some c' \<Longrightarrow> wf_conn c'"
  by (auto simp: run_event_def wf_h2_receive intro: wf_task_step split: h2_event.splits if_splits)

definition settled :: "'c task \<Rightarrow> bool" where
  "settled ph \<longleftrightarrow> is_waiting ph \<or> ph = Finished"

lemma task_progress: "(\<And>n b. st_read bops n b \<noteq> None) \<Longrightarrow> \<not> settled (snd (hc_tasks c ! t)) \<Longrightarrow> task_step handler bops t c \<noteq> None"
  by (cases "hc_tasks c ! t"; cases "snd (hc_tasks c ! t)")
    (auto simp: settled_def task_step_def read_piece_def split: bind_split, (metis option.distinct(1))+)

text \<open>
  C5.  The connection never goes wrong.  Whatever frames the peer sends and in whatever order the
  coroutines run, every stream number leads to a live stream of that number, every coroutine serves a
  live stream, a waiter registered with a stream is a suspended coroutine of this very stream, a data frame is
  never empty; and a coroutine that is neither at its end nor suspended for a window can always go on.
\<close>

theorem h2_connection_sound:
  assumes "\<And>n b. st_read bops n b \<noteq> None" and "h2_exec handler bops es new_h2_conn = Some c"
  shows "wf_conn c \<and> (\<forall>t < length (hc_tasks c). settled (snd (hc_tasks c ! t)) \<or> run_event handler bops (Run t) c \<noteq> None)"
proof -
  have "wf_conn c" by (rule h2_exec_invariant [where I = wf_conn, OF wf_run_event wf_conn_new assms(2)])
  then show ?thesis using task_progress [OF assms(1)] by (auto simp: run_event_def)
qed

section \<open>Windows\<close>

text \<open>Bytes of data on the wire; what a coroutine is about to take from the windows; what it has sent and not yet taken.\<close>

definition data_sent :: "h2_frame list \<Rightarrow> int" where
  "data_sent fs = sum_list (map (\<lambda>f. int (length (h2f_payload f))) (filter (\<lambda>f. h2f_type f = ft_data) fs))"

fun claimed :: "'c task \<Rightarrow> int" where
  "claimed (Sending body remaining buf n) = int n"
| "claimed (Sent body remaining buf n) = int n"
| "claimed _ = 0"

fun unaccounted :: "'c task \<Rightarrow> int" where
  "unaccounted (Sent body remaining buf n) = int n"
| "unaccounted _ = 0"

definition profiles :: "'c h2_conn \<Rightarrow> (nat \<times> int \<times> int) list" where
  "profiles c = map (\<lambda>(a, ph). (a, claimed ph, unaccounted ph)) (hc_tasks c)"

definition window_of :: "'c h2_conn \<Rightarrow> nat \<Rightarrow> int" where
  "window_of c a = (if a < length (hc_objects c) then h2s_send_window (hc_objects c ! a) else 0)"

definition window_increment :: "h2_frame \<Rightarrow> int" where
  "window_increment f =
     (if h2f_type f = ft_window_update \<and> h2f_stream_id f = 0
      then (case parse_window_update_payload (h2f_payload f) of None \<Rightarrow> 0 | Some i \<Rightarrow> uint i) else 0)"

fun increments :: "h2_event list \<Rightarrow> int" where
  "increments [] = 0"
| "increments (Recv f # es) = window_increment f + increments es"
| "increments (Run t # es) = increments es"

lemma data_sent_append [simp]: "data_sent (fs @ gs) = data_sent fs + data_sent gs"
  by (simp add: data_sent_def)

lemma data_sent_single [simp]:
  "data_sent [\<lparr>h2f_type = ty, h2f_flags = fl, h2f_stream_id = i, h2f_payload = p\<rparr>] = (if ty = ft_data then int (length p) else 0)"
  "data_sent [] = 0"
  by (simp_all add: data_sent_def)

text \<open>
  What a received frame may do: the connection's window grows, no data is sent, coroutines start or
  wake up with nothing claimed, windows of streams do not shrink.
\<close>

definition receives :: "int \<Rightarrow> 'c h2_conn \<Rightarrow> 'c h2_conn \<Rightarrow> bool" where
  "receives d c c' \<longleftrightarrow> hc_send_window c' = hc_send_window c + d \<and> data_sent (hc_out c') = data_sent (hc_out c) \<and>
     (\<exists>as. profiles c' = profiles c @ map (\<lambda>a. (a, 0, 0)) as) \<and> (\<forall>a. window_of c a \<le> window_of c' a) \<and>
     length (hc_objects c) \<le> length (hc_objects c')"

lemma receives_refl: "receives 0 c c" by (auto simp: receives_def intro: exI [of _ "[]"])

lemma receives_trans:
  assumes "receives d c c1" "receives e c1 c2" shows "receives (d + e) c c2"
proof -
  obtain as bs where "profiles c2 = profiles c @ map (\<lambda>a. (a, 0, 0)) (as @ bs)"
    using assms unfolding receives_def by (metis append_assoc map_append)
  then show ?thesis using assms unfolding receives_def by (metis (no_types, lifting) add.assoc order_trans)
qed

lemma receives_quiet: "receives d c c1 \<Longrightarrow> receives 0 c1 c2 \<Longrightarrow> receives d c c2"
  using receives_trans by force

lemma wake_profile [simp]: "claimed (wake ph) = claimed ph" "unaccounted (wake ph) = unaccounted ph"
  by (cases ph; simp)+

lemma wake_profiles: "profiles (c\<lparr>hc_tasks := (hc_tasks c)[t := map_prod id wake (hc_tasks c ! t)]\<rparr>) = profiles c"
proof (cases "t < length (hc_tasks c)")
  case True
  then show ?thesis by (auto intro!: nth_equalityI simp: profiles_def nth_list_update case_prod_beta)
qed (simp add: profiles_def list_update_beyond)

lemma receives_same:
  "hc_send_window c' = hc_send_window c \<Longrightarrow> data_sent (hc_out c') = data_sent (hc_out c) \<Longrightarrow> profiles c' = profiles c \<Longrightarrow>
   length (hc_objects c') = length (hc_objects c) \<Longrightarrow>
   (\<And>a. a < length (hc_objects c) \<Longrightarrow> h2s_send_window (hc_objects c ! a) \<le> h2s_send_window (hc_objects c' ! a)) \<Longrightarrow> receives 0 c c'"
  by (auto simp: receives_def window_of_def intro: exI [of _ "[]"])

lemma receives_send_frame: "receives d c c' \<Longrightarrow> ty \<noteq> ft_data \<Longrightarrow> receives d c (send_frame ty fl i p c')"
  by (rule receives_quiet, assumption, rule receives_same) (simp_all add: profiles_def)

lemma receives_upd_object:
  "receives d c c' \<Longrightarrow> (\<And>s. h2s_send_window s \<le> h2s_send_window (f s)) \<Longrightarrow> receives d c (upd_object a f c')"
  by (rule receives_quiet, assumption, rule receives_same) (simp_all add: profiles_def)

lemma receives_update:
  assumes "receives d c c'"
  shows "receives d c (c'\<lparr>hc_decoder := x\<rparr>)" "receives d c (c'\<lparr>hc_expecting_continuation := b\<rparr>)"
    "receives d c (c'\<lparr>hc_last_header_stream_id := m\<rparr>)" "receives d c (c'\<lparr>hc_streams := ss\<rparr>)" "receives d c (apply_setting c' q)"
  by (rule receives_quiet [OF assms], rule receives_same; simp add: profiles_def apply_setting_def)+

lemma receives_add_task:
  assumes "receives d c c'" "claimed ph = 0" "unaccounted ph = 0"
  shows "receives d c (c'\<lparr>hc_tasks := hc_tasks c' @ [(a, ph)]\<rparr>)"
proof (rule receives_quiet [OF assms(1)])
  show "receives 0 c' (c'\<lparr>hc_tasks := hc_tasks c' @ [(a, ph)]\<rparr>)"
    using assms(2,3) by (auto simp: receives_def profiles_def window_of_def intro: exI [of _ "[a]"])
qed

lemma receives_new_stream:
  assumes "0 \<le> h2s_send_window s"
  shows "receives 0 c (c\<lparr>hc_objects := hc_objects c @ [s], hc_streams := ss, hc_highest_stream_id := m\<rparr>)"
  using assms by (auto simp: receives_def profiles_def window_of_def nth_append)

lemma receives_resume_writer:
  assumes "receives d c c'" shows "receives d c (resume_writer a c')"
proof (cases "h2s_window_waiter (hc_objects c' ! a)")
  case (Some t)
  have "receives 0 c' (c'\<lparr>hc_tasks := (hc_tasks c')[t := map_prod id wake (hc_tasks c' ! t)]\<rparr>)"
    by (rule receives_same) (simp_all add: wake_profiles)
  with assms Some show ?thesis
    by (auto simp: resume_writer_def intro!: receives_upd_object intro: receives_quiet)
qed (use assms in \<open>simp add: resume_writer_def\<close>)

lemmas receives_intros = receives_send_frame receives_upd_object receives_update receives_add_task receives_new_stream
  receives_resume_writer receives_refl

lemma receives_resume_all:
  "receives d c0 c \<Longrightarrow> receives d c0 (foldl (\<lambda>c (_, a). if h2s_send_window (hc_objects c ! a) > 0 then resume_writer a c else c) c as)"
proof (induction as arbitrary: c)
  case (Cons x as)
  then show ?case by (cases x) (auto intro!: Cons.IH receives_resume_writer)
qed simp

lemma receives_settings: "receives d c0 c \<Longrightarrow> receives d c0 (foldl apply_setting c ps)"
  by (induction ps arbitrary: c) (auto intro: receives_update)

lemma receives_dispatch: "receives d c0 c \<Longrightarrow> receives d c0 (dispatch_stream a c)"
  by (auto simp: dispatch_stream_def Let_def intro!: receives_intros)

lemma receives_end_of_headers: "receives d c0 c \<Longrightarrow> receives d c0 (end_of_headers a c)"
  by (auto simp: end_of_headers_def finish_header_block_def Let_def intro!: receives_intros receives_dispatch split: prod.split)

lemma receives_handlers:
  "receives 0 c (snd (handle_settings f c))" "receives 0 c (snd (handle_ping f c))" "receives 0 c (snd (handle_headers f c))"
  "receives 0 c (snd (handle_continuation f c))" "receives 0 c (snd (handle_data f c))"
proof -
  show "receives 0 c (snd (handle_settings f c))" "receives 0 c (snd (handle_ping f c))"
    by (auto simp: handle_settings_def send_settings_ack_def handle_ping_def frame_type_defs
        intro!: receives_intros receives_settings split: option.split)
  show "receives 0 c (snd (handle_headers f c))"
    by (auto simp: handle_headers_def Let_def intro!: receives_intros receives_end_of_headers split: option.split prod.split)
  show "receives 0 c (snd (handle_continuation f c))"
    by (auto simp: handle_continuation_def Let_def intro!: receives_intros receives_end_of_headers split: option.split)
  show "receives 0 c (snd (handle_data f c))"
    by (auto simp: handle_data_def Let_def frame_type_defs intro!: receives_intros receives_dispatch split: option.split prod.split)
qed

lemma receives_window_update:
  assumes "h2f_type f = ft_window_update"
  shows "receives (window_increment f) c (snd (handle_window_update f c))"
proof (cases "parse_window_update_payload (h2f_payload f)")
  case (Some i)
  have "receives (uint i) c (c\<lparr>hc_send_window := hc_send_window c + uint i\<rparr>)"
    by (auto simp: receives_def profiles_def window_of_def)
  then show ?thesis using Some assms
    by (auto simp: handle_window_update_def window_increment_def intro!: receives_intros receives_resume_all split: option.split)
qed (simp add: handle_window_update_def window_increment_def receives_refl)

lemma receives_h2_receive: "receives (window_increment f) c (snd (h2_receive f c))"
proof -
  have "receives d c c' \<Longrightarrow> receives d c (send_goaway e c')" for d e and c' :: "'a h2_conn"
    by (simp add: send_goaway_def receives_send_frame frame_type_defs)
  then show ?thesis
    using receives_handlers [of c f] receives_window_update [of f c]
    by (auto simp: h2_receive_def Let_def case_prod_beta window_increment_def frame_type_defs receives_refl intro!: receives_update)
qed

text \<open>What a step of a coroutine does to the windows.\<close>

inductive flow_step :: "nat \<Rightarrow> 'c h2_conn \<Rightarrow> 'c h2_conn \<Rightarrow> bool" for t c c' where
  idle: "profiles c' = profiles c \<Longrightarrow> window_of c' = window_of c \<Longrightarrow> hc_send_window c' = hc_send_window c \<Longrightarrow>
    data_sent (hc_out c') = data_sent (hc_out c) \<Longrightarrow> flow_step t c c'"
| claim: "profiles c ! t = (a, 0, 0) \<Longrightarrow> profiles c' = (profiles c)[t := (a, n, 0)] \<Longrightarrow> 0 < n \<Longrightarrow> n \<le> window_of c a \<Longrightarrow>
    n \<le> hc_send_window c \<Longrightarrow> window_of c' = window_of c \<Longrightarrow> hc_send_window c' = hc_send_window c \<Longrightarrow>
    data_sent (hc_out c') = data_sent (hc_out c) \<Longrightarrow> flow_step t c c'"
| put: "profiles c ! t = (a, n, 0) \<Longrightarrow> profiles c' = (profiles c)[t := (a, n, n)] \<Longrightarrow> window_of c' = window_of c \<Longrightarrow>
    hc_send_window c' = hc_send_window c \<Longrightarrow> data_sent (hc_out c') = data_sent (hc_out c) + n \<Longrightarrow> flow_step t c c'"
| take: "profiles c ! t = (a, n, n) \<Longrightarrow> profiles c' = (profiles c)[t := (a, 0, 0)] \<Longrightarrow>
    window_of c' = (window_of c)(a := window_of c a - n) \<Longrightarrow> hc_send_window c' = hc_send_window c - n \<Longrightarrow>
    data_sent (hc_out c') = data_sent (hc_out c) \<Longrightarrow> flow_step t c c'"

lemma profiles_set_task:
  "t < length (hc_tasks c) \<Longrightarrow> profiles (set_task t ph c) = (profiles c)[t := (fst (hc_tasks c ! t), claimed ph, unaccounted ph)]"
  by (simp add: profiles_def map_update)

lemma profiles_simps [simp]:
  "profiles (send_frame ty fl i p c) = profiles c" "profiles (upd_object a f c) = profiles c"
  "profiles (c\<lparr>hc_streams := ss\<rparr>) = profiles c" "profiles (c\<lparr>hc_send_window := w\<rparr>) = profiles c" "length (profiles c) = length (hc_tasks c)"
  "profiles (set_task t ph (send_frame ty fl i p c)) = profiles (set_task t ph c)"
  "profiles (set_task t ph (c\<lparr>hc_streams := ss\<rparr>)) = profiles (set_task t ph c)"
  by (simp_all add: profiles_def)

lemma window_of_simps [simp]:
  "window_of (send_frame ty fl i p c) = window_of c" "window_of (set_task t ph c) = window_of c"
  "window_of (c\<lparr>hc_streams := ss\<rparr>) = window_of c" "window_of (c\<lparr>hc_send_window := w\<rparr>) = window_of c"
  "(\<And>s. h2s_send_window (f s) = h2s_send_window s) \<Longrightarrow> window_of (upd_object a f c) = window_of c"
  by (auto simp: window_of_def fun_eq_iff)

lemma profiles_nth: "t < length (hc_tasks c) \<Longrightarrow> hc_tasks c ! t = (a, ph) \<Longrightarrow> profiles c ! t = (a, claimed ph, unaccounted ph)"
  by (simp add: profiles_def)

lemma quiet_task:
  assumes "t < length (hc_tasks c)" "hc_tasks c ! t = (a, ph)" "claimed ph = 0" "unaccounted ph = 0" "claimed ph' = 0" "unaccounted ph' = 0"
  shows "profiles (set_task t ph' c) = profiles c"
  using profiles_nth [OF assms(1,2)] assms by (simp add: profiles_set_task) (metis list_update_id)

lemma task_step_flow:
  assumes "wf_conn c" "t < length (hc_tasks c)" "task_step handler bops t c = Some c'"
  shows "flow_step t c c'"
proof -
  obtain a ph where t: "hc_tasks c ! t = (a, ph)" by (cases "hc_tasks c ! t")
  note prof = profiles_nth [OF assms(2) t]
  have ok: "task_ok ph" "a < length (hc_objects c)"
    using assms(1,2) t nth_mem [OF assms(2)] unfolding wf_conn_def tasks_ok_def by fastforce+
  note quiet = quiet_task [OF assms(2) t]
  show ?thesis
  proof (cases ph)
    case (Pushing body remaining buf)
    show ?thesis
    proof (cases "h2s_send_window (hc_objects c ! a) \<le> 0 \<or> hc_send_window c \<le> 0")
      case True
      with Pushing t assms(3) quiet show ?thesis
        by (intro idle) (auto simp: task_step_def begin_send_def)
    next
      case False
      define n where "n = min (min (window_of c a) (hc_send_window c)) (min (uint (hc_peer_max_frame_size c)) (int (length buf)))"
      have n: "0 < n" using False ok max_frame_pos [OF assms(1)] Pushing by (auto simp: n_def window_of_def)
      have "c' = set_task t (Sending body remaining buf (nat n)) c"
        using False Pushing t assms(3) ok by (auto simp: task_step_def begin_send_def Let_def n_def window_of_def)
      then show ?thesis using prof Pushing n t assms(2) by (intro claim [of _ _ a _ n]) (auto simp: profiles_set_task n_def)
    qed
  next
    case (Sending body remaining buf n)
    then show ?thesis using prof t assms(2,3) ok(1)
      by (intro put [of _ _ a "int n"]) (auto simp: task_step_def put_data_def profiles_set_task)
  next
    case (Sent body remaining buf n)
    then show ?thesis using prof t assms(2,3) ok
      by (intro take [of _ _ a "int n"])
        (auto simp: task_step_def end_send_def Let_def profiles_set_task window_of_def fun_eq_iff)
  next
    case (Streaming body remaining)
    then show ?thesis using t assms(3) quiet
      by (intro idle) (auto simp: task_step_def read_piece_def end_data_def bind_eq_Some_conv profiles_set_task split: if_split_asm)
  qed (use t assms(3) quiet in \<open>auto intro!: idle simp: task_step_def begin_response_def end_task_def Let_def frame_type_defs split: option.splits if_splits\<close>)
qed

definition pending :: "'c h2_conn \<Rightarrow> int" where
  "pending c = sum_list (map (\<lambda>(a, n, m). m) (profiles c))"

definition claims :: "'c h2_conn \<Rightarrow> int" where
  "claims c = sum_list (map (\<lambda>(a, n, m). n) (profiles c))"

lemma sum_list_map_update:
  fixes g :: "'a \<Rightarrow> int"
  shows "t < length xs \<Longrightarrow> sum_list (map g (xs[t := x])) = sum_list (map g xs) + g x - g (xs ! t)"
proof (induction xs arbitrary: t)
  case (Cons y xs)
  then show ?case by (cases t) simp_all
qed simp

lemma receives_sums: "receives d c c' \<Longrightarrow> pending c' = pending c \<and> claims c' = claims c"
  by (auto simp: receives_def pending_def claims_def o_def sum_list_0)

text \<open>Nothing is lost: every byte of data on the wire has been, or is about to be, taken from the window.\<close>

lemma window_balance:
  assumes "wf_conn c" "run_event handler bops e c = Some c'"
  shows "hc_send_window c' + data_sent (hc_out c') - pending c' = hc_send_window c + data_sent (hc_out c) - pending c + increments [e]"
proof (cases e)
  case (Recv f)
  then have "c' = snd (h2_receive f c)" using assms(2) by (simp add: run_event_def)
  then show ?thesis using receives_h2_receive [of f c] receives_sums Recv by (fastforce simp: receives_def)
next
  case (Run t)
  then have t: "t < length (hc_tasks c)" and "task_step handler bops t c = Some c'"
    using assms(2) by (auto simp: run_event_def split: if_splits)
  then have "flow_step t c c'" using task_step_flow assms(1) by blast
  then show ?thesis using t Run by cases (simp_all add: pending_def sum_list_map_update)
qed

lemma increments_Cons: "increments (e # es) = increments [e] + increments es"
  by (cases e) simp_all

lemma window_accounting:
  "wf_conn c \<Longrightarrow> h2_exec handler bops es c = Some c' \<Longrightarrow>
   hc_send_window c' + data_sent (hc_out c') - pending c' = hc_send_window c + data_sent (hc_out c) - pending c + increments es"
proof (induction es arbitrary: c)
  case (Cons e es)
  then obtain c1 where c1: "run_event handler bops e c = Some c1" "h2_exec handler bops es c1 = Some c'" by (auto simp: bind_eq_Some_conv)
  with Cons.IH [of c1] Cons.prems(1) wf_run_event window_balance [OF Cons.prems(1) c1(1)] increments_Cons [of e es]
  show ?case by force
qed simp

text \<open>At most one coroutine between the choice of a frame's length and the accounting for it, at every moment.\<close>

definition lone_writer :: "'c h2_conn \<Rightarrow> bool" where
  "lone_writer c \<longleftrightarrow> (\<forall>i < length (profiles c). \<forall>j < length (profiles c).
     0 < fst (snd (profiles c ! i)) \<longrightarrow> 0 < fst (snd (profiles c ! j)) \<longrightarrow> i = j)"

fun h2_serial ::
  "(memory_stream request \<Rightarrow> ('c, unit) response option) \<Rightarrow> 'c stream_ops \<Rightarrow> h2_event list \<Rightarrow> 'c h2_conn \<Rightarrow> bool" where
  "h2_serial handler bops [] c \<longleftrightarrow> lone_writer c"
| "h2_serial handler bops (e # es) c \<longleftrightarrow> lone_writer c \<and>
     (case run_event handler bops e c of None \<Rightarrow> True | Some c' \<Rightarrow> h2_serial handler bops es c')"

lemma h2_serial_lone: "h2_serial handler bops es c \<Longrightarrow> lone_writer c"
  by (cases es) simp_all

lemma claimed_bounds: "(a, n, m) \<in> set (profiles c) \<Longrightarrow> 0 \<le> m \<and> m \<le> n"
proof -
  have "0 \<le> unaccounted ph \<and> unaccounted ph \<le> claimed ph" for ph :: "'a task" by (cases ph) simp_all
  then show "(a, n, m) \<in> set (profiles c) \<Longrightarrow> 0 \<le> m \<and> m \<le> n" by (auto simp: profiles_def)
qed

lemma sum_list_zero: "(\<And>i. i < length xs \<Longrightarrow> g (xs ! i) = (0::int)) \<Longrightarrow> sum_list (map g xs) = 0"
proof -
  assume "\<And>i. i < length xs \<Longrightarrow> g (xs ! i) = (0::int)"
  then have "map g xs = map (\<lambda>_. 0) xs" by (auto simp: list_eq_iff_nth_eq)
  then show ?thesis by (simp only: sum_list_0)
qed

lemma lone_claim:
  assumes "lone_writer c'" "profiles c' = (profiles c)[t := (a, n, 0)]" "0 < n" "profiles c ! t = (a, 0, 0)" "t < length (profiles c)"
  shows "claims c = 0"
  unfolding claims_def
proof (rule sum_list_zero)
  fix i assume i: "i < length (profiles c)"
  obtain b k m where p: "profiles c ! i = (b, k, m)" by (cases "profiles c ! i")
  show "(case profiles c ! i of (a, n, m) \<Rightarrow> n) = 0"
  proof (cases "i = t")
    case False
    then have "\<not> 0 < k" using assms i p unfolding lone_writer_def by (metis fst_conv length_list_update nth_list_update snd_conv)
    with claimed_bounds [of b k m c] p nth_mem [OF i] show ?thesis by force
  qed (use assms in simp)
qed

lemma serial_claims:
  assumes "wf_conn c" "claims c \<le> hc_send_window c" "run_event handler bops e c = Some c'" "lone_writer c'"
  shows "claims c' \<le> hc_send_window c'"
proof (cases e)
  case (Recv f)
  then have "c' = snd (h2_receive f c)" using assms(3) by (simp add: run_event_def)
  moreover have "0 \<le> window_increment f" by (simp add: window_increment_def split: option.split)
  ultimately show ?thesis using receives_h2_receive [of f c] receives_sums assms(2) by (fastforce simp: receives_def)
next
  case (Run t)
  then have t: "t < length (hc_tasks c)" and "task_step handler bops t c = Some c'"
    using assms(3) by (auto simp: run_event_def split: if_splits)
  then have "flow_step t c c'" using task_step_flow assms(1) by blast
  then show ?thesis
  proof cases
    case (claim a n)
    then have "claims c = 0" using lone_claim [OF assms(4)] t by auto
    with claim t show ?thesis by (simp add: claims_def sum_list_map_update)
  qed (use t assms(2) in \<open>simp_all add: claims_def sum_list_map_update\<close>)
qed

lemma serial_exec:
  "wf_conn c \<Longrightarrow> claims c \<le> hc_send_window c \<Longrightarrow> h2_exec handler bops es c = Some c' \<Longrightarrow> h2_serial handler bops es c \<Longrightarrow>
   claims c' \<le> hc_send_window c'"
proof (induction es arbitrary: c)
  case (Cons e es)
  then obtain c1 where c1: "run_event handler bops e c = Some c1" "h2_exec handler bops es c1 = Some c'" "h2_serial handler bops es c1"
    by (auto simp: bind_eq_Some_conv)
  with Cons.prems show ?case by (intro Cons.IH [OF _ _ c1(2,3)]) (auto intro: wf_run_event serial_claims h2_serial_lone)
qed simp

lemma pending_le_claims: "0 \<le> pending c \<and> pending c \<le> claims c"
proof -
  have le: "0 \<le> sum_list (map (\<lambda>(a, n, m). m) ps) \<and> sum_list (map (\<lambda>(a, n, m). m) ps) \<le> sum_list (map (\<lambda>(a, n, m). n) ps)"
    if "\<And>a n m. (a, n, m) \<in> set ps \<Longrightarrow> 0 \<le> m \<and> m \<le> n" for ps :: "(nat \<times> int \<times> int) list"
    using that by (induction ps) (fastforce simp: add_mono)+
  show ?thesis unfolding pending_def claims_def by (rule le [OF claimed_bounds])
qed

lemma new_conn_sums: "pending new_h2_conn = 0" "claims new_h2_conn = 0" "data_sent (hc_out new_h2_conn) = 0" "hc_send_window new_h2_conn = 65535"
  by (simp_all add: pending_def claims_def profiles_def new_h2_conn_def)

text \<open>
  C6.  The connection's window.  In every execution the window and the bytes of data sent add up to the initial 65535,
  the increments granted by the peer, and the bytes of frames whose writers have not yet taken them from the window.
  While no two coroutines are between choosing the length of a frame and accounting for it, the window never
  becomes negative and the peer never receives more data than it has granted.
\<close>

theorem connection_window:
  assumes "h2_exec handler bops es new_h2_conn = Some c"
  shows "hc_send_window c + data_sent (hc_out c) = 65535 + increments es + pending c \<and>
    (h2_serial handler bops es new_h2_conn \<longrightarrow> 0 \<le> hc_send_window c \<and> data_sent (hc_out c) \<le> 65535 + increments es)"
proof -
  have balance: "hc_send_window c + data_sent (hc_out c) = 65535 + increments es + pending c"
    using window_accounting [OF wf_conn_new assms] by (simp add: new_conn_sums)
  have "claims c \<le> hc_send_window c" if "h2_serial handler bops es new_h2_conn"
    using serial_exec [OF wf_conn_new _ assms that] by (simp add: new_conn_sums)
  with balance show ?thesis using pending_le_claims [of c] by auto
qed

text \<open>The same for the windows of the streams, under any interleaving, as long as no stream has two coroutines.\<close>

definition streams_within :: "'c h2_conn \<Rightarrow> bool" where
  "streams_within c \<longleftrightarrow> (\<forall>a. 0 \<le> window_of c a) \<and> (\<forall>i < length (profiles c). fst (snd (profiles c ! i)) \<le> window_of c (fst (profiles c ! i)))"

lemma receives_within:
  assumes "receives d c c'" "streams_within c" shows "streams_within c'"
proof -
  obtain as where as: "profiles c' = profiles c @ map (\<lambda>a. (a, 0, 0)) as" and grow: "window_of c a \<le> window_of c' a" for a
    using assms(1) by (auto simp: receives_def)
  have pos: "0 \<le> window_of c' a" for a using assms(2) grow [of a] order_trans unfolding streams_within_def by blast
  have "fst (snd (profiles c' ! i)) \<le> window_of c' (fst (profiles c' ! i))" if "i < length (profiles c')" for i
  proof (cases "i < length (profiles c)")
    case True
    then show ?thesis using assms(2) grow [of "fst (profiles c ! i)"] order_trans unfolding streams_within_def as by (simp add: nth_append) blast
  next
    case False
    with that have "i - length (profiles c) < length as" using as by (metis add_diff_inverse_nat length_append length_map nat_add_left_cancel_less)
    with False show ?thesis unfolding as by (simp add: nth_append pos)
  qed
  with pos show ?thesis by (simp add: streams_within_def)
qed

lemma flow_within:
  assumes "flow_step t c c'" "t < length (profiles c)" "distinct (map fst (profiles c))" "streams_within c"
  shows "streams_within c'"
  using assms(1)
proof cases
  case (take a n)
  have "fst (profiles c ! i) \<noteq> a" if "i < length (profiles c)" "i \<noteq> t" for i
    using assms(2,3) that take(1) by (metis fst_conv length_map nth_eq_iff_index_eq nth_map)
  moreover have "n \<le> window_of c a" using assms(2,4) take(1) unfolding streams_within_def by force
  ultimately show ?thesis using take assms(2,4) unfolding streams_within_def by (auto simp: nth_list_update)
qed (use assms(2,4) in \<open>auto simp: streams_within_def nth_list_update\<close>)

lemma flow_fst:
  assumes "flow_step t c c'" shows "map fst (profiles c') = map fst (profiles c)"
proof -
  have same: "fst x = fst (ps ! t) \<Longrightarrow> map fst (ps[t := x]) = map fst ps" for x and ps :: "(nat \<times> int \<times> int) list"
    by (cases "t < length ps") (simp_all add: map_update list_update_beyond list_update_same_conv)
  from assms show ?thesis by cases (simp_all add: same)
qed

lemma within_run_event:
  assumes "wf_conn c \<and> (distinct (map fst (profiles c)) \<longrightarrow> streams_within c)" "run_event handler bops e c = Some c'"
  shows "wf_conn c' \<and> (distinct (map fst (profiles c')) \<longrightarrow> streams_within c')"
proof (cases e)
  case (Recv f)
  then have "c' = snd (h2_receive f c)" using assms(2) by (simp add: run_event_def)
  then have r: "receives (window_increment f) c c'" using receives_h2_receive by blast
  then have "distinct (map fst (profiles c')) \<Longrightarrow> distinct (map fst (profiles c))" by (auto simp: receives_def)
  with r assms wf_run_event show ?thesis by (blast intro: receives_within)
next
  case (Run t)
  then have t: "t < length (hc_tasks c)" and "task_step handler bops t c = Some c'"
    using assms(2) by (auto simp: run_event_def split: if_splits)
  then have "flow_step t c c'" using task_step_flow assms(1) by blast
  with t assms wf_run_event flow_fst [of t c c'] flow_within [of t c c'] show ?thesis by auto
qed


text \<open>Two responses that share the connection.\<close>

definition duel :: "memory_stream h2_conn \<Rightarrow> memory_stream task \<Rightarrow> memory_stream task \<Rightarrow> int \<Rightarrow> int \<Rightarrow> int \<Rightarrow> bool" where
  "duel c s0 s1 w0 w1 w \<longleftrightarrow> hc_tasks c = [(0, s0), (1, s1)] \<and> length (hc_objects c) = 2 \<and>
     h2s_send_window (hc_objects c ! 0) = w0 \<and> h2s_send_window (hc_objects c ! 1) = w1 \<and> hc_send_window c = w \<and>
     hc_peer_max_frame_size c = 16384"

abbreviation body_at :: "string \<Rightarrow> nat \<Rightarrow> memory_stream" where
  "body_at d p \<equiv> \<lparr>mem_data = d, mem_position = p\<rparr>"

abbreviation streaming_at :: "string \<Rightarrow> nat \<Rightarrow> memory_stream task" where
  "streaming_at d p \<equiv> Streaming (body_at d p) (int (length d) - int p)"

abbreviation pushing_at :: "string \<Rightarrow> nat \<Rightarrow> memory_stream task" where
  "pushing_at d p \<equiv> Pushing (body_at d p) (int (length d) - int p) (take 16384 (drop (p - 16384) d))"

lemma duel_read:
  assumes "p + 16384 \<le> length d"
  shows "duel c (streaming_at d p) s1 w0 w1 w \<Longrightarrow>
      \<exists>c'. run_event handler memory_ops (Run 0) c = Some c' \<and> duel c' (pushing_at d (p + 16384)) s1 w0 w1 w"
    "duel c s0 (streaming_at d p) w0 w1 w \<Longrightarrow>
      \<exists>c'. run_event handler memory_ops (Run 1) c = Some c' \<and> duel c' s0 (pushing_at d (p + 16384)) w0 w1 w"
  using assms by (auto simp: duel_def run_event_def task_step_def read_piece_def memory_ops_def memory_read_def Let_def min_def)

lemma duel_claim:
  assumes "0 < w" "buf \<noteq> []"
  shows "duel c (Pushing b r buf) s1 w0 w1 w \<Longrightarrow> 0 < w0 \<Longrightarrow> \<exists>c'. run_event handler memory_ops (Run 0) c = Some c' \<and>
      duel c' (Sending b r buf (nat (min (min w0 w) (min 16384 (int (length buf)))))) s1 w0 w1 w"
    "duel c s0 (Pushing b r buf) w0 w1 w \<Longrightarrow> 0 < w1 \<Longrightarrow> \<exists>c'. run_event handler memory_ops (Run 1) c = Some c' \<and>
      duel c' s0 (Sending b r buf (nat (min (min w1 w) (min 16384 (int (length buf)))))) w0 w1 w"
  using assms by (auto simp: duel_def run_event_def task_step_def begin_send_def Let_def)

lemma duel_put:
  "duel c (Sending b r buf n) s1 w0 w1 w \<Longrightarrow> \<exists>c'. run_event handler memory_ops (Run 0) c = Some c' \<and> duel c' (Sent b r buf n) s1 w0 w1 w"
  "duel c s0 (Sending b r buf n) w0 w1 w \<Longrightarrow> \<exists>c'. run_event handler memory_ops (Run 1) c = Some c' \<and> duel c' s0 (Sent b r buf n) w0 w1 w"
  by (auto simp: duel_def run_event_def task_step_def put_data_def Let_def)

lemma duel_take:
  "duel c (Sent b r buf n) s1 w0 w1 w \<Longrightarrow> \<exists>c'. run_event handler memory_ops (Run 0) c = Some c' \<and>
     duel c' (if drop n buf = [] then Streaming b r else Pushing b r (drop n buf)) s1 (w0 - int n) w1 (w - int n)"
  "duel c s0 (Sent b r buf n) w0 w1 w \<Longrightarrow> \<exists>c'. run_event handler memory_ops (Run 1) c = Some c' \<and>
     duel c' s0 (if drop n buf = [] then Streaming b r else Pushing b r (drop n buf)) w0 (w1 - int n) (w - int n)"
  by (auto simp: duel_def run_event_def task_step_def end_send_def Let_def)

text \<open>A whole piece of the first response, while the second stands still.\<close>

lemma duel_piece:
  assumes "duel c (streaming_at d p) s1 w0 w1 w" "p + 16384 \<le> length d" "16384 \<le> w0" "16384 \<le> w"
  shows "\<exists>c'. h2_exec handler memory_ops [Run 0, Run 0, Run 0, Run 0] c = Some c' \<and>
    duel c' (streaming_at d (p + 16384)) s1 (w0 - 16384) w1 (w - 16384)"
proof -
  obtain c1 where c1: "run_event handler memory_ops (Run 0) c = Some c1" "duel c1 (pushing_at d (p + 16384)) s1 w0 w1 w"
    using duel_read(1) [OF assms(2,1)] by blast
  have len: "length (take 16384 (drop p d)) = 16384" using assms(2) by simp
  have n: "nat (min (min w0 w) (min 16384 (int (length (take 16384 (drop p d)))))) = 16384" unfolding len using assms(3,4) by simp
  obtain c2 where c2: "run_event handler memory_ops (Run 0) c1 = Some c2"
      "duel c2 (Sending (body_at d (p + 16384)) (int (length d) - int (p + 16384)) (take 16384 (drop p d)) 16384) s1 w0 w1 w"
    using duel_claim(1) [of w "take 16384 (drop p d)" c1 _ _ s1 w0 w1 handler] c1(2) assms(2-4) unfolding n by fastforce
  obtain c3 where c3: "run_event handler memory_ops (Run 0) c2 = Some c3"
      "duel c3 (Sent (body_at d (p + 16384)) (int (length d) - int (p + 16384)) (take 16384 (drop p d)) 16384) s1 w0 w1 w"
    using duel_put(1) [OF c2(2)] by blast
  obtain c4 where c4: "run_event handler memory_ops (Run 0) c3 = Some c4" "duel c4 (streaming_at d (p + 16384)) s1 (w0 - 16384) w1 (w - 16384)"
    using duel_take(1) [OF c3(2)] by fastforce
  from c1(1) c2(1) c3(1) c4 show ?thesis by simp
qed

text \<open>Both choose the length of their next frame from the same window.\<close>

lemma duel_clash:
  assumes duel: "duel c (streaming_at d p) (streaming_at d q) w0 w1 w" and len: "p + 16384 \<le> length d" "q + 16384 \<le> length d"
    and w: "0 < w" "w < 16384" "w \<le> w0" "w \<le> w1"
  shows "\<exists>c' s0 s1. h2_exec handler memory_ops [Run 0, Run 1, Run 0, Run 1, Run 0, Run 0, Run 1, Run 1] c = Some c' \<and>
    duel c' s0 s1 (w0 - w) (w1 - w) (- w) \<and> claimed s0 = 0 \<and> unaccounted s0 = 0 \<and> claimed s1 = 0 \<and> unaccounted s1 = 0"
proof -
  let ?b0 = "take 16384 (drop p d)" and ?b1 = "take 16384 (drop q d)"
  obtain c1 where c1: "run_event handler memory_ops (Run 0) c = Some c1" "duel c1 (pushing_at d (p + 16384)) (streaming_at d q) w0 w1 w"
    using duel_read(1) [OF len(1) duel] by blast
  obtain c2 where c2: "run_event handler memory_ops (Run 1) c1 = Some c2" "duel c2 (pushing_at d (p + 16384)) (pushing_at d (q + 16384)) w0 w1 w"
    using duel_read(2) [OF len(2) c1(2)] by blast
  have n: "nat (min (min w0 w) (min 16384 (int (length ?b0)))) = nat w" "nat (min (min w1 w) (min 16384 (int (length ?b1)))) = nat w"
    using w len by (simp_all add: min_def)
  have ne: "?b0 \<noteq> []" "?b1 \<noteq> []" and pos: "0 < w0" "0 < w1" using len w by auto
  obtain b0 r0 where c2': "duel c2 (Pushing b0 r0 ?b0) (pushing_at d (q + 16384)) w0 w1 w" using c2(2) by simp
  obtain c3 where c3: "run_event handler memory_ops (Run 0) c2 = Some c3" "duel c3 (Sending b0 r0 ?b0 (nat w)) (pushing_at d (q + 16384)) w0 w1 w"
    using duel_claim(1) [OF w(1) ne(1) c2' pos(1), of handler] unfolding n by blast
  obtain b1 r1 where c3': "duel c3 (Sending b0 r0 ?b0 (nat w)) (Pushing b1 r1 ?b1) w0 w1 w" using c3(2) by simp
  obtain c4 where c4: "run_event handler memory_ops (Run 1) c3 = Some c4" "duel c4 (Sending b0 r0 ?b0 (nat w)) (Sending b1 r1 ?b1 (nat w)) w0 w1 w"
    using duel_claim(2) [OF w(1) ne(2) c3' pos(2), of handler] unfolding n by blast
  obtain c5 where c5: "run_event handler memory_ops (Run 0) c4 = Some c5" "duel c5 (Sent b0 r0 ?b0 (nat w)) (Sending b1 r1 ?b1 (nat w)) w0 w1 w"
    using duel_put(1) [OF c4(2)] by blast
  define after :: "memory_stream \<Rightarrow> int \<Rightarrow> string \<Rightarrow> memory_stream task" where
    "after b r buf = (if drop (nat w) buf = [] then Streaming b r else Pushing b r (drop (nat w) buf))" for b r buf
  have after: "claimed (after b r buf) = 0" "unaccounted (after b r buf) = 0" for b r buf by (simp_all add: after_def)
  have iw: "int (nat w) = w" using w(1) by simp
  obtain c6 where c6: "run_event handler memory_ops (Run 0) c5 = Some c6"
      "duel c6 (after b0 r0 ?b0) (Sending b1 r1 ?b1 (nat w)) (w0 - w) w1 (w - w)"
    using duel_take(1) [OF c5(2), of handler] unfolding iw after_def by blast
  obtain c7 where c7: "run_event handler memory_ops (Run 1) c6 = Some c7" "duel c7 (after b0 r0 ?b0) (Sent b1 r1 ?b1 (nat w)) (w0 - w) w1 (w - w)"
    using duel_put(2) [OF c6(2)] by blast
  obtain c8 where c8: "run_event handler memory_ops (Run 1) c7 = Some c8"
      "duel c8 (after b0 r0 ?b0) (after b1 r1 ?b1) (w0 - w) (w1 - w) (w - w - w)"
    using duel_take(2) [OF c7(2), of handler] unfolding iw after_def by blast
  have "h2_exec handler memory_ops [Run 0, Run 1, Run 0, Run 1, Run 0, Run 0, Run 1, Run 1] c = Some c8"
    using c1(1) c2(1) c3(1) c4(1) c5(1) c6(1) c7(1) c8(1) by simp
  moreover have "duel c8 (after b0 r0 ?b0) (after b1 r1 ?b1) (w0 - w) (w1 - w) (- w)" using c8(2) by simp
  ultimately show ?thesis using after by blast
qed

text \<open>Requests for \<open>/\<close> in single frames, and an application that answers every request with the same bytes.\<close>

definition get_frame :: "u32 \<Rightarrow> h2_frame" where
  "get_frame i = \<lparr>h2f_type = ft_headers, h2f_flags = fl_end_headers OR fl_end_stream, h2f_stream_id = i, h2f_payload = [0x82, 0x84]\<rparr>"

definition answer_with :: "string \<Rightarrow> memory_stream request \<Rightarrow> (memory_stream, unit) response option" where
  "answer_with d _ = Some (empty_response\<lparr>rs_body := Some (memory_of d), rs_content_length := int (length d)\<rparr>)"

lemma get_frame_flags:
  "has_flag (fl_end_headers OR fl_end_stream) fl_end_headers" "has_flag (fl_end_headers OR fl_end_stream) fl_end_stream"
  "has_flag (fl_end_headers OR fl_end_stream) fl_padded = False" "has_flag (fl_end_headers OR fl_end_stream) fl_priority = False"
  by code_simp+

lemma decode_get:
  "hpack_decode [0x82, 0x84] (new_hpack_decoder 4096) [] =
   (True, new_hpack_decoder 4096, [\<lparr>hf_name = '':method'', hf_value = ''GET''\<rparr>, \<lparr>hf_name = '':path'', hf_value = ''/''\<rparr>])"
  by code_simp

lemma receive_get:
  assumes "hc_decoder c = new_hpack_decoder 4096" "\<not> hc_expecting_continuation c" "i \<noteq> 0"
  shows "\<exists>r s c'. run_event handler bops (Recv (get_frame i)) c = Some c' \<and> hc_tasks c' = hc_tasks c @ [(length (hc_objects c), Handling r)] \<and>
    hc_objects c' = hc_objects c @ [s] \<and> h2s_send_window s = uint (hc_peer_initial_window_size c) \<and>
    hc_decoder c' = hc_decoder c \<and> \<not> hc_expecting_continuation c' \<and> hc_send_window c' = hc_send_window c \<and>
    hc_peer_max_frame_size c' = hc_peer_max_frame_size c \<and> hc_peer_initial_window_size c' = hc_peer_initial_window_size c"
proof -
  define c0 where "c0 = c\<lparr>hc_objects := hc_objects c @ [(new_h2_stream i)\<lparr>h2s_send_window := uint (hc_peer_initial_window_size c),
      h2s_header_block := [0x82, 0x84], h2s_end_stream := True\<rparr>], hc_streams := AList.update i (length (hc_objects c)) (hc_streams c),
      hc_highest_stream_id := max (hc_highest_stream_id c) i\<rparr>"
  have "run_event handler bops (Recv (get_frame i)) c = Some (end_of_headers (length (hc_objects c)) c0)"
    using assms(2,3) by (simp add: run_event_def h2_receive_def get_frame_def frame_type_defs handle_headers_def strip_padding_def
        get_frame_flags c0_def Let_def)
  moreover have "h2s_header_block (hc_objects c0 ! length (hc_objects c)) = [0x82, 0x84]" "hc_decoder c0 = new_hpack_decoder 4096"
    using assms(1) by (simp_all add: c0_def)
  ultimately show ?thesis using assms(1,2)
    by (simp add: end_of_headers_def finish_header_block_def decode_get Let_def upd_object_def dispatch_stream_def del: hpack_decode.simps)
      (simp add: c0_def new_h2_stream_def)
qed

lemma duel_handle:
  "duel c (Handling r) s1 w0 w1 w \<Longrightarrow> \<exists>c'. run_event (answer_with d) memory_ops (Run 0) c = Some c' \<and>
     duel c' (Responding (the (answer_with d r))) s1 w0 w1 w"
  "duel c s0 (Handling r) w0 w1 w \<Longrightarrow> \<exists>c'. run_event (answer_with d) memory_ops (Run 1) c = Some c' \<and>
     duel c' s0 (Responding (the (answer_with d r))) w0 w1 w"
  by (auto simp: duel_def run_event_def task_step_def answer_with_def)

lemma duel_respond:
  assumes "d \<noteq> []"
  shows "duel c (Responding (the (answer_with d r))) s1 w0 w1 w \<Longrightarrow> \<exists>c'. run_event (answer_with d) memory_ops (Run 0) c = Some c' \<and>
      duel c' (streaming_at d 0) s1 w0 w1 w"
    "duel c s0 (Responding (the (answer_with d r))) w0 w1 w \<Longrightarrow> \<exists>c'. run_event (answer_with d) memory_ops (Run 1) c = Some c' \<and>
      duel c' s0 (streaming_at d 0) w0 w1 w"
  using assms by (auto simp: duel_def run_event_def task_step_def answer_with_def begin_response_def empty_response_def memory_of_def Let_def)

lemma duel_respond_first:
  assumes "duel c (Handling r0) s1 w0 w1 w" "d \<noteq> []"
  shows "\<exists>c'. h2_exec (answer_with d) memory_ops [Run 0, Run 0] c = Some c' \<and> duel c' (streaming_at d 0) s1 w0 w1 w"
proof -
  obtain c1 where c1: "run_event (answer_with d) memory_ops (Run 0) c = Some c1" "duel c1 (Responding (the (answer_with d r0))) s1 w0 w1 w"
    using duel_handle(1) [OF assms(1)] by blast
  with duel_respond(1) [OF assms(2) c1(2)] show ?thesis by auto
qed

lemma duel_respond_second:
  assumes "duel c s0 (Handling r1) w0 w1 w" "d \<noteq> []"
  shows "\<exists>c'. h2_exec (answer_with d) memory_ops [Run 1, Run 1] c = Some c' \<and> duel c' s0 (streaming_at d 0) w0 w1 w"
proof -
  obtain c1 where c1: "run_event (answer_with d) memory_ops (Run 1) c = Some c1" "duel c1 s0 (Responding (the (answer_with d r1))) w0 w1 w"
    using duel_handle(2) [OF assms(1)] by blast
  with duel_respond(2) [OF assms(2) c1(2)] show ?thesis by auto
qed

lemma duel_start:
  "\<exists>c r0 r1. h2_exec handler memory_ops [Recv (get_frame 1), Recv (get_frame 3)] new_h2_conn = Some c \<and>
     duel c (Handling r0) (Handling r1) 65535 65535 65535"
proof -
  have new: "hc_objects (new_h2_conn :: memory_stream h2_conn) = []" "hc_tasks (new_h2_conn :: memory_stream h2_conn) = []"
    "hc_decoder (new_h2_conn :: memory_stream h2_conn) = new_hpack_decoder 4096" "hc_peer_initial_window_size (new_h2_conn :: memory_stream h2_conn) = 65535"
    "\<not> hc_expecting_continuation (new_h2_conn :: memory_stream h2_conn)" "hc_send_window (new_h2_conn :: memory_stream h2_conn) = 65535"
    "hc_peer_max_frame_size (new_h2_conn :: memory_stream h2_conn) = 16384"
    by (simp_all add: new_h2_conn_def)
  obtain c1 r0 s0 where c1: "run_event handler memory_ops (Recv (get_frame 1)) new_h2_conn = Some c1" "hc_tasks c1 = [(0, Handling r0)]"
      "hc_objects c1 = [s0]" "h2s_send_window s0 = 65535" "hc_decoder c1 = new_hpack_decoder 4096" "\<not> hc_expecting_continuation c1"
      "hc_send_window c1 = 65535" "hc_peer_max_frame_size c1 = 16384" "hc_peer_initial_window_size c1 = 65535"
    using receive_get [OF new(3,5), of 1 handler memory_ops] by (auto simp: new)
  obtain c2 r1 s1 where c2: "run_event handler memory_ops (Recv (get_frame 3)) c1 = Some c2" "hc_tasks c2 = [(0, Handling r0), (1, Handling r1)]"
      "hc_objects c2 = [s0, s1]" "h2s_send_window s1 = 65535" "hc_send_window c2 = 65535" "hc_peer_max_frame_size c2 = 16384"
    using receive_get [OF c1(5,6), of 3 handler memory_ops] c1 by auto
  show ?thesis using c1(1,4) c2 by (auto simp: duel_def)
qed

text \<open>
  C40.  Two responses overrun the connection's window.  A peer that grants nothing beyond the initial 65535 bytes
  and asks for two resources of at least 65536 bytes may be sent 81918 bytes of data: both writers choose the length of their
  frame from the same remaining window, before either of them takes it from the window, which becomes negative.
\<close>

theorem connection_window_overrun:
  assumes "65536 \<le> length d"
  shows "\<exists>es c. h2_exec (answer_with d) memory_ops es new_h2_conn = Some c \<and> increments es = 0 \<and>
    data_sent (hc_out c) = 81918 \<and> hc_send_window c = - 16383"
proof -
  let ?x = "h2_exec (answer_with d) memory_ops" and ?piece = "[Run 0, Run 0, Run 0, Run 0]"
  obtain c0 r0 r1 where c0: "?x [Recv (get_frame 1), Recv (get_frame 3)] new_h2_conn = Some c0"
      "duel c0 (Handling r0) (Handling r1) 65535 65535 65535" using duel_start by blast
  have "d \<noteq> []" using assms by auto
  then obtain b1 c1 where b1: "?x [Run 0, Run 0] c0 = Some b1" and c1: "?x [Run 1, Run 1] b1 = Some c1"
      "duel c1 (streaming_at d 0) (streaming_at d 0) 65535 65535 65535"
    using duel_respond_first [OF c0(2)] duel_respond_second by blast
  obtain c2 where c2: "?x ?piece c1 = Some c2" "duel c2 (streaming_at d 16384) (streaming_at d 0) 49151 65535 49151"
    using duel_piece [OF c1(2), of "answer_with d"] assms by auto
  obtain c3 where c3: "?x ?piece c2 = Some c3" "duel c3 (streaming_at d 32768) (streaming_at d 0) 32767 65535 32767"
    using duel_piece [OF c2(2), of "answer_with d"] assms by auto
  obtain c4 where c4: "?x ?piece c3 = Some c4" "duel c4 (streaming_at d 49152) (streaming_at d 0) 16383 65535 16383"
    using duel_piece [OF c3(2), of "answer_with d"] assms by auto
  obtain c5 s0 s1 where c5: "?x [Run 0, Run 1, Run 0, Run 1, Run 0, Run 0, Run 1, Run 1] c4 = Some c5"
      "duel c5 s0 s1 0 49152 (- 16383)" "unaccounted s0 = 0" "unaccounted s1 = 0"
    using duel_clash [OF c4(2), of "answer_with d"] assms by auto
  define es where "es = [Recv (get_frame 1), Recv (get_frame 3)] @ [Run 0, Run 0] @ [Run 1, Run 1] @ ?piece @ ?piece @ ?piece @
    [Run 0, Run 1, Run 0, Run 1, Run 0, Run 0, Run 1, Run 1]"
  have ex: "?x es new_h2_conn = Some c5"
    unfolding es_def h2_exec_append by (simp only: c0(1) b1 c1(1) c2(1) c3(1) c4(1) c5(1) Option.bind.simps)
  have "window_increment (get_frame i) = 0" for i by (simp add: window_increment_def get_frame_def frame_type_defs)
  then have inc: "increments es = 0" by (simp add: es_def)
  have "pending c5 = 0" using c5(2-4) by (simp add: pending_def profiles_def duel_def)
  then have "data_sent (hc_out c5) = 81918"
    using window_accounting [OF wf_conn_new ex] inc c5(2) by (simp add: new_conn_sums duel_def)
  with ex inc c5(2) show ?thesis by (auto simp: duel_def)
qed

theorem connection_window_overrun_witness:
  "\<exists>es c. h2_exec (answer_with (replicate 65536 CHR ''x'')) memory_ops es new_h2_conn = Some c \<and> increments es = 0 \<and>
    data_sent (hc_out c) = 81918 \<and> hc_send_window c = - 16383"
  by (rule connection_window_overrun) simp

text \<open>When all the steps are those of one coroutine the execution has a lone writer.\<close>

definition only_writer :: "nat \<Rightarrow> 'c h2_conn \<Rightarrow> bool" where
  "only_writer t c \<longleftrightarrow> wf_conn c \<and> (\<forall>i < length (profiles c). i \<noteq> t \<longrightarrow> fst (snd (profiles c ! i)) = 0)"

lemma only_writer_lone: "only_writer t c \<Longrightarrow> lone_writer c"
  unfolding only_writer_def lone_writer_def by (metis less_irrefl)

lemma only_writer_run:
  assumes "only_writer t c" "run_event handler bops e c = Some c'" "\<And>i. e = Run i \<Longrightarrow> i = t"
  shows "only_writer t c'"
proof (cases e)
  case (Recv f)
  then have "c' = snd (h2_receive f c)" using assms(2) by (simp add: run_event_def)
  then obtain as where "profiles c' = profiles c @ map (\<lambda>a. (a, 0, 0)) as" using receives_h2_receive [of f c] by (auto simp: receives_def)
  with assms(1) wf_run_event [OF _ assms(2)] show ?thesis by (auto simp: only_writer_def nth_append)
next
  case (Run i)
  then have t: "t < length (hc_tasks c)" and "task_step handler bops t c = Some c'"
    using assms(2,3) by (auto simp: run_event_def split: if_splits)
  then have "flow_step t c c'" using task_step_flow assms(1) by (auto simp: only_writer_def)
  then have "\<forall>i < length (profiles c'). i \<noteq> t \<longrightarrow> fst (snd (profiles c' ! i)) = 0"
    using assms(1) by cases (auto simp: only_writer_def)
  with assms(1) wf_run_event [OF _ assms(2)] show ?thesis by (simp add: only_writer_def)
qed

lemma only_writer_serial: "only_writer t c \<Longrightarrow> (\<And>i. Run i \<in> set es \<Longrightarrow> i = t) \<Longrightarrow> h2_serial handler bops es c"
proof (induction es arbitrary: c)
  case (Cons e es)
  then show ?case using only_writer_run [OF Cons.prems(1), of handler bops e] by (auto simp: only_writer_lone split: option.split)
qed (simp add: only_writer_lone)

text \<open>A sample: two requests, and a whole frame of the response to the first.\<close>

definition sample_events :: "h2_event list" where
  "sample_events = [Recv (get_frame 1), Recv (get_frame 3)] @ [Run 0, Run 0] @ [Run 0, Run 0, Run 0, Run 0]"

abbreviation sample_handler :: "memory_stream request \<Rightarrow> (memory_stream, unit) response option" where
  "sample_handler \<equiv> answer_with (replicate 20000 CHR ''x'')"

lemma sample_run:
  "\<exists>c r. h2_exec sample_handler memory_ops sample_events new_h2_conn = Some c \<and>
     duel c (streaming_at (replicate 20000 CHR ''x'') 16384) (Handling r) 49151 65535 49151"
proof -
  let ?d = "replicate 20000 CHR ''x''"
  obtain c0 r0 r1 where c0: "h2_exec sample_handler memory_ops [Recv (get_frame 1), Recv (get_frame 3)] new_h2_conn = Some c0"
      "duel c0 (Handling r0) (Handling r1) 65535 65535 65535" using duel_start by blast
  obtain c1 where c1: "h2_exec sample_handler memory_ops [Run 0, Run 0] c0 = Some c1"
      "duel c1 (streaming_at ?d 0) (Handling r1) 65535 65535 65535"
    using duel_respond_first [OF c0(2), of ?d] by auto
  obtain c2 where c2: "h2_exec sample_handler memory_ops [Run 0, Run 0, Run 0, Run 0] c1 = Some c2"
      "duel c2 (streaming_at ?d 16384) (Handling r1) 49151 65535 49151"
    using duel_piece [OF c1(2), of sample_handler] by auto
  have "h2_exec sample_handler memory_ops sample_events new_h2_conn = Some c2"
    unfolding sample_events_def h2_exec_append by (simp only: c0(1) c1(1) c2(1) Option.bind.simps)
  with c2(2) show ?thesis by blast
qed

lemma new_conn_profiles: "profiles new_h2_conn = []" "hc_tasks new_h2_conn = []"
  by (simp_all add: profiles_def new_h2_conn_def)

lemma sample_serial: "h2_serial sample_handler memory_ops sample_events new_h2_conn"
  by (rule only_writer_serial [of 0]) (auto simp: only_writer_def wf_conn_new sample_events_def new_conn_profiles)

lemma memory_reads: "st_read memory_ops n b \<noteq> None"
  by (simp add: memory_ops_def)

theorem h2_connection_sound_witness:
  "\<exists>c. h2_exec sample_handler memory_ops sample_events new_h2_conn = Some c \<and> wf_conn c \<and>
     run_event sample_handler memory_ops (Run 1) c \<noteq> None"
proof -
  obtain c r where c: "h2_exec sample_handler memory_ops sample_events new_h2_conn = Some c"
      "duel c (streaming_at (replicate 20000 CHR ''x'') 16384) (Handling r) 49151 65535 49151" using sample_run by blast
  have t: "length (hc_tasks c) = 2" "snd (hc_tasks c ! 1) = Handling r" using c(2) by (simp_all add: duel_def)
  from h2_connection_sound [OF memory_reads c(1)] t show ?thesis
    by (auto simp: settled_def c(1) dest!: spec [of _ 1])
qed

theorem connection_window_witness:
  "\<exists>c. h2_exec sample_handler memory_ops sample_events new_h2_conn = Some c \<and>
     hc_send_window c + data_sent (hc_out c) = 65535 + increments sample_events + pending c \<and>
     0 \<le> hc_send_window c \<and> data_sent (hc_out c) \<le> 65535 + increments sample_events"
proof -
  obtain c where c: "h2_exec sample_handler memory_ops sample_events new_h2_conn = Some c" using sample_run by blast
  from connection_window [OF c] sample_serial show ?thesis by (auto simp: c)
qed


end
