(* ===== verification/Http2_Exchange.thy ===== *)
theory Http2_Exchange
  imports Http2_Flow
begin

text \<open>
  What an HTTP/2 connection does with a peer's bytes: the reading loop as a fold over the frames on the wire, the
  assembly of a request from its frames, and the frames of a response.
\<close>

section \<open>Frames on the wire\<close>

text \<open>The frames of a byte string, up to the first that is cut short or longer than the cap.\<close>

definition frame_of :: "string \<Rightarrow> h2_frame" where
  "frame_of bs = (let fh = frame_header_parse (bytes_of (take frame_header_wire_size bs)) in
     \<lparr>h2f_type = fh_type fh, h2f_flags = fh_flags fh, h2f_stream_id = fh_stream_id fh,
      h2f_payload = bytes_of (take (unat (fh_length fh)) (drop frame_header_wire_size bs))\<rparr>)"

definition frame_size :: "string \<Rightarrow> nat" where
  "frame_size bs = unat (fh_length (frame_header_parse (bytes_of (take frame_header_wire_size bs))))"

function wire_frames :: "string \<Rightarrow> h2_frame list" where
  "wire_frames bs =
     (if length bs < frame_header_wire_size \<or> frame_size bs > 16 * 1024 * 1024 \<or> length bs < frame_header_wire_size + frame_size bs
      then [] else frame_of bs # wire_frames (drop (frame_header_wire_size + frame_size bs) bs))"
  by auto
termination by (relation "measure length") (auto simp: frame_header_wire_size_def)

declare wire_frames.simps [simp del]

fun h2_serve :: "(nat \<Rightarrow> 'c h2_conn \<Rightarrow> 'c h2_conn) \<Rightarrow> nat \<Rightarrow> h2_frame list \<Rightarrow> 'c h2_conn \<Rightarrow> 'c h2_conn" where
  "h2_serve between k [] c = between k c"
| "h2_serve between k (f # fs) c =
     (case h2_receive f (between k c) of (go, c) \<Rightarrow> if go then h2_serve between (k + 1) fs c else c)"

lemma bytes_of_Nil: "bytes_of [] = []" by (simp add: bytes_of_def)

context byte_source
begin

lemma h2_read_exact_ok:
  assumes "invar w"
  shows "\<exists>buf' w'. h2_read_exact ops n buf w =
    Some (if length (buf @ content w) < n then None else Some (take n (buf @ content w)), buf', w') \<and> invar w' \<and>
    (n \<le> length (buf @ content w) \<longrightarrow> buf' @ content w' = drop n (buf @ content w))"
  using assms
proof (induction "length (content w)" arbitrary: buf w rule: less_induct)
  case less
  show ?case
  proof (cases "length buf < n")
    case False
    with less.prems show ?thesis by (subst h2_read_exact.simps) simp
  next
    case True
    obtain chunk w1 where r: "st_read ops 4096 w = Some (chunk, w1)" "content w = chunk @ content w1"
      "content w = [] \<longleftrightarrow> chunk = []" "invar w1"
      using readE [OF less.prems, of 4096] by (metis zero_less_numeral)
    show ?thesis
    proof (cases "chunk = []")
      case True
      with \<open>length buf < n\<close> r show ?thesis by (subst h2_read_exact.simps) auto
    next
      case False
      then have "length (content w1) < length (content w)" using r(2) by simp
      moreover have step: "h2_read_exact ops n buf w = h2_read_exact ops n (buf @ chunk) w1"
        using \<open>length buf < n\<close> False r(1) by (subst h2_read_exact.simps) simp
      ultimately show ?thesis using less.hyps [OF _ r(4), of "buf @ chunk"] unfolding step r(2) append_assoc by blast
    qed
  qed
qed

lemma read_h2_frame_ok:
  assumes "invar w"
  shows "\<exists>buf' w'. read_h2_frame ops buf w =
    Some (case wire_frames (buf @ content w) of [] \<Rightarrow> None | f # fs \<Rightarrow> Some f, buf', w') \<and> invar w' \<and>
    (wire_frames (buf @ content w) \<noteq> [] \<longrightarrow> buf' @ content w' = drop (frame_header_wire_size + frame_size (buf @ content w)) (buf @ content w))"
proof -
  let ?bs = "buf @ content w" and ?h = frame_header_wire_size
  obtain b1 w1 where r1: "h2_read_exact ops ?h buf w = Some (if length ?bs < ?h then None else Some (take ?h ?bs), b1, w1)" "invar w1"
    "?h \<le> length ?bs \<Longrightarrow> b1 @ content w1 = drop ?h ?bs" using h2_read_exact_ok [OF assms, of ?h buf] by blast
  show ?thesis
  proof (cases "length ?bs < ?h \<or> frame_size ?bs > 16 * 1024 * 1024")
    case True
    then have "wire_frames ?bs = []" by (subst wire_frames.simps) auto
    with True r1 show ?thesis by (auto simp: read_h2_frame_def frame_size_def Let_def)
  next
    case False
    then have raw: "b1 @ content w1 = drop ?h ?bs" using r1(3) by simp
    obtain b2 w2 where r2: "h2_read_exact ops (frame_size ?bs) b1 w1 =
        Some (if length (drop ?h ?bs) < frame_size ?bs then None else Some (take (frame_size ?bs) (drop ?h ?bs)), b2, w2)" "invar w2"
      "frame_size ?bs \<le> length (drop ?h ?bs) \<Longrightarrow> b2 @ content w2 = drop (frame_size ?bs) (drop ?h ?bs)"
      using h2_read_exact_ok [OF r1(2), of "frame_size ?bs" b1] unfolding raw by blast
    have frames: "wire_frames ?bs = (if length (drop ?h ?bs) < frame_size ?bs then []
        else frame_of ?bs # wire_frames (drop (?h + frame_size ?bs) ?bs))"
      using False by (subst wire_frames.simps) auto
    show ?thesis
    proof (cases "frame_size ?bs = 0")
      case True
      then have len: "fh_length (frame_header_parse (bytes_of (take ?h ?bs))) = 0" by (simp add: frame_size_def unsigned_eq_0_iff)
      from True r1 raw False show ?thesis unfolding frames read_h2_frame_def Let_def
        by (auto simp: frame_of_def Let_def len bytes_of_Nil simp del: take_append drop_append length_append)
    next
      case nonzero: False
      then have "fh_length (frame_header_parse (bytes_of (take ?h ?bs))) \<noteq> 0" by (auto simp: frame_size_def)
      with False r1 r2 show ?thesis unfolding frames read_h2_frame_def Let_def
        by (auto simp: frame_of_def frame_size_def Let_def drop_drop add.commute simp del: take_append drop_append length_append)
    qed
  qed
qed

lemma h2_loop_serve:
  assumes "invar w"
  shows "h2_loop ops between k buf w c = Some (h2_serve between k (wire_frames (buf @ content w)) c)"
  using assms
proof (induction "length (buf @ content w)" arbitrary: buf w k c rule: less_induct)
  case less
  let ?bs = "buf @ content w"
  obtain b1 w1 where r: "read_h2_frame ops buf w = Some (case wire_frames ?bs of [] \<Rightarrow> None | f # fs \<Rightarrow> Some f, b1, w1)" "invar w1"
    "wire_frames ?bs \<noteq> [] \<Longrightarrow> b1 @ content w1 = drop (frame_header_wire_size + frame_size ?bs) ?bs"
    using read_h2_frame_ok [OF less.prems, of buf] by blast
  show ?case
  proof (cases "wire_frames ?bs")
    case Nil
    with r(1) show ?thesis by (subst h2_loop.simps) simp
  next
    case (Cons f fs)
    then have f: "f = frame_of ?bs" "fs = wire_frames (b1 @ content w1)" "frame_header_wire_size \<le> length ?bs"
      using r(3) by (subst (asm) (1) wire_frames.simps, simp split: if_splits)+
    have "b1 @ content w1 = drop (frame_header_wire_size + frame_size ?bs) ?bs" using r(3) Cons by simp
    then have "length (b1 @ content w1) < length ?bs" using f(3) by (simp add: frame_header_wire_size_def)
    from less.hyps [OF this r(2)] r(1) Cons f(2) show ?thesis
      by (subst h2_loop.simps) (simp split: prod.split)
  qed
qed

end

text \<open>Well-formed frames, of lengths and stream numbers that fit their fields, are read as they were written.\<close>

definition wf_h2_frame :: "h2_frame \<Rightarrow> bool" where
  "wf_h2_frame f \<longleftrightarrow> length (h2f_payload f) < 2 ^ 24 \<and> h2f_stream_id f < 2 ^ 31"

abbreviation h2_frame_text :: "h2_frame \<Rightarrow> string" where
  "h2_frame_text f \<equiv> string_of (frame_bytes f)"

lemma frame_header_of_text:
  assumes "wf_h2_frame f"
  shows "frame_header_parse (bytes_of (take frame_header_wire_size (h2_frame_text f @ rest))) =
    \<lparr>fh_length = of_nat (length (h2f_payload f)), fh_type = h2f_type f, fh_flags = h2f_flags f, fh_stream_id = h2f_stream_id f\<rparr>"
proof -
  let ?h = "\<lparr>fh_length = of_nat (length (h2f_payload f)), fh_type = h2f_type f, fh_flags = h2f_flags f, fh_stream_id = h2f_stream_id f\<rparr>"
  have "(of_nat (length (h2f_payload f)) :: u32) < 2 ^ 24"
    using assms by (simp add: wf_h2_frame_def word_less_nat_alt unat_of_nat)
  then have "fh_length ?h AND 0xffffff = fh_length ?h" "fh_stream_id ?h AND 0x7fffffff = fh_stream_id ?h"
    using less_mask_eq [of "fh_length ?h" 24] less_mask_eq [of "fh_stream_id ?h" 31] assms
    by (simp_all add: mask_eq_exp_minus_1 wf_h2_frame_def)
  then have "frame_header_parse (frame_header_write ?h @ []) = ?h" unfolding frame_header_parse_write by simp
  moreover have "bytes_of (take frame_header_wire_size (h2_frame_text f @ rest)) = frame_header_write ?h"
    by (simp add: frame_bytes_def string_of_def bytes_of_def take_map o_def flip: map_append)
  ultimately show ?thesis by simp
qed

lemma frame_size_text: "wf_h2_frame f \<Longrightarrow> frame_size (h2_frame_text f @ rest) = length (h2f_payload f)"
  unfolding frame_size_def frame_header_of_text by (simp add: unat_of_nat wf_h2_frame_def)

lemma frame_of_text: "wf_h2_frame f \<Longrightarrow> frame_of (h2_frame_text f @ rest) = f"
  unfolding frame_of_def frame_header_of_text Let_def
  by (simp add: unat_of_nat wf_h2_frame_def frame_bytes_def) (simp add: string_of_def bytes_of_def o_def)

lemma wire_frames_text:
  "list_all wf_h2_frame fs \<Longrightarrow> length short < frame_header_wire_size \<Longrightarrow> wire_frames (concat (map h2_frame_text fs) @ short) = fs"
proof (induction fs)
  case Nil
  then show ?case by (subst wire_frames.simps) simp
next
  case (Cons f fs)
  let ?rest = "concat (map h2_frame_text fs) @ short"
  have f: "wf_h2_frame f" using Cons.prems(1) by simp
  have len: "length (h2_frame_text f) = frame_header_wire_size + length (h2f_payload f)" by (simp add: frame_bytes_def)
  have "length (h2f_payload f) \<le> 16 * 1024 * 1024" using f by (simp add: wf_h2_frame_def)
  with Cons len show ?case
    by (subst wire_frames.simps) (simp add: frame_size_text [OF f] frame_of_text [OF f])
qed

text \<open>
  C8.  The reading loop.  However the transport cuts the bytes and whatever they are, \<open>run\<close> returns; after the preface
  it handles exactly the frames that are complete on the wire, in order, up to the first that ends
  the connection, with the coroutines running in between; a wire that does not begin with the preface gets no answer.  The
  frames a peer has written in their wire form are the frames that are handled.
\<close>

theorem h2_run_frames:
  assumes "[] \<notin> set segs"
  shows "h2_run socket_ops between leftover \<lparr>rx = segs, tx = []\<rparr> = Some
      (if take (length client_preface) (leftover @ concat segs) = client_preface
       then h2_serve between 0 (wire_frames (drop (length client_preface) (leftover @ concat segs))) (send_frame ft_settings 0 0 [] new_h2_conn)
       else new_h2_conn) \<and>
    (list_all wf_h2_frame fs \<and> length short < frame_header_wire_size \<longrightarrow> wire_frames (concat (map h2_frame_text fs) @ short) = fs)"
proof -
  let ?w = "\<lparr>rx = segs, tx = []\<rparr>" and ?n = "length client_preface"
  obtain b w where r: "h2_read_exact socket_ops ?n leftover ?w =
      Some (if length (leftover @ concat segs) < ?n then None else Some (take ?n (leftover @ concat segs)), b, w)" "socket_inv w"
      "?n \<le> length (leftover @ concat segs) \<longrightarrow> b @ socket_content w = drop ?n (leftover @ concat segs)"
    using socket.h2_read_exact_ok [of ?w ?n leftover] assms by auto
  have "h2_run socket_ops between leftover ?w = Some
      (if take ?n (leftover @ concat segs) = client_preface
       then h2_serve between 0 (wire_frames (drop ?n (leftover @ concat segs))) (send_frame ft_settings 0 0 [] new_h2_conn)
       else new_h2_conn)"
  proof (cases "length (leftover @ concat segs) < ?n")
    case True
    then have "take ?n (leftover @ concat segs) \<noteq> client_preface" by (metis length_take min_less_iff_conj less_irrefl)
    with True r(1) show ?thesis by (simp add: h2_run_def)
  next
    case False
    with r(3) have "b @ socket_content w = drop ?n (leftover @ concat segs)" by simp
    with False r(1) show ?thesis unfolding h2_run_def by (simp add: socket.h2_loop_serve [OF r(2)])
  qed
  with wire_frames_text show ?thesis by blast
qed

theorem h2_run_frames_witness:
  "h2_run socket_ops (\<lambda>_ c. c) (take 10 client_preface) \<lparr>rx = [take 8 (drop 10 client_preface), drop 18 client_preface @
       h2_frame_text \<lparr>h2f_type = ft_ping, h2f_flags = 0, h2f_stream_id = 0, h2f_payload = [1, 2, 3, 4, 5, 6, 7, 8]\<rparr>], tx = []\<rparr> =
   Some (send_frame ft_ping fl_ack 0 [1, 2, 3, 4, 5, 6, 7, 8] (send_frame ft_settings 0 0 [] (new_h2_conn :: memory_stream h2_conn)))"
proof -
  let ?p = "client_preface" and ?f = "\<lparr>h2f_type = ft_ping, h2f_flags = 0, h2f_stream_id = 0, h2f_payload = [1, 2, 3, 4, 5, 6, 7, 8]\<rparr>"
  let ?segs = "[take 8 (drop 10 ?p), drop 18 ?p @ h2_frame_text ?f]"
  have len: "length ?p = 24" by (simp add: client_preface_def)
  have "take 8 (drop 10 ?p) @ drop 18 ?p = drop 10 ?p" using append_take_drop_id [of 8 "drop 10 ?p"] by (simp add: drop_drop)
  then have "take 10 ?p @ take 8 (drop 10 ?p) @ drop 18 ?p = ?p" by (metis append_take_drop_id)
  then have whole: "take 10 ?p @ concat ?segs = ?p @ h2_frame_text ?f" by (simp flip: append_assoc)
  have "?segs = ?segs \<and> [] \<notin> set ?segs" using len by (auto simp: frame_bytes_def)
  moreover have "wf_h2_frame ?f" by (simp add: wf_h2_frame_def)
  moreover have "h2_receive ?f c = (True, send_frame ft_ping fl_ack 0 [1, 2, 3, 4, 5, 6, 7, 8] c)" for c :: "memory_stream h2_conn"
    by (simp add: h2_receive_def handle_ping_def frame_type_defs has_flag_def)
  ultimately show ?thesis
    using h2_run_frames [of ?segs "\<lambda>_ (c :: memory_stream h2_conn). c" "take 10 ?p" "[?f]" "[]"] unfolding whole by (simp add: frame_header_wire_size_def)
qed

section \<open>Requests\<close>

fun receive_all :: "h2_frame list \<Rightarrow> 'c h2_conn \<Rightarrow> bool \<times> 'c h2_conn" where
  "receive_all [] c = (True, c)"
| "receive_all (f # fs) c = (case h2_receive f c of (go, c) \<Rightarrow> if go then receive_all fs c else (False, c))"

lemma receive_all_append:
  "receive_all (fs @ gs) c = (case receive_all fs c of (go, c) \<Rightarrow> if go then receive_all gs c else (False, c))"
  by (induction fs arbitrary: c) (simp_all split: prod.split)

lemma h2_serve_receive_all: "h2_serve (\<lambda>_ c. c) k fs c = snd (receive_all fs c)"
  by (induction fs arbitrary: k c) (simp_all split: prod.split)

text \<open>A peer's frames for a request: its header block in fragments, and its body in pieces.\<close>

abbreviation mk_frame :: "byte \<Rightarrow> byte \<Rightarrow> u32 \<Rightarrow> byte list \<Rightarrow> h2_frame" where
  "mk_frame ty fl i p \<equiv> \<lparr>h2f_type = ty, h2f_flags = fl, h2f_stream_id = i, h2f_payload = p\<rparr>"

fun continuation_frames :: "u32 \<Rightarrow> byte list list \<Rightarrow> h2_frame list" where
  "continuation_frames i [] = []"
| "continuation_frames i (p # ps) = mk_frame ft_continuation (if ps = [] then fl_end_headers else 0) i p # continuation_frames i ps"

fun body_frames :: "u32 \<Rightarrow> byte list list \<Rightarrow> h2_frame list" where
  "body_frames i [] = []"
| "body_frames i (d # ds) = mk_frame ft_data (if ds = [] then fl_end_stream else 0) i d # body_frames i ds"

definition head_flags :: "bool \<Rightarrow> bool \<Rightarrow> byte" where
  "head_flags whole final = (if whole then fl_end_headers else 0) OR (if final then fl_end_stream else 0)"

definition request_frames :: "u32 \<Rightarrow> byte list \<Rightarrow> byte list list \<Rightarrow> byte list list \<Rightarrow> h2_frame list" where
  "request_frames i p ps ds = mk_frame ft_headers (head_flags (ps = []) (ds = [])) i p # continuation_frames i ps @ body_frames i ds"

lemma head_flags_simps [simp]:
  "has_flag (head_flags whole final) fl_end_headers = whole" "has_flag (head_flags whole final) fl_end_stream = final"
  "has_flag (head_flags whole final) fl_padded = False" "has_flag (head_flags whole final) fl_priority = False"
  by (cases whole; cases final; simp add: head_flags_def has_flag_def frame_flag_defs)+

lemma one_flag_simps [simp]:
  "has_flag fl_end_headers fl_end_headers" "has_flag 0 x = False" "has_flag fl_end_stream fl_end_stream" "has_flag fl_end_stream fl_padded = False"
  by (simp_all add: has_flag_def frame_flag_defs)

text \<open>The stream under assembly is the last object; its request is complete when it has been dispatched.\<close>

definition assembling :: "'c h2_conn \<Rightarrow> u32 \<Rightarrow> h2_stream \<Rightarrow> bool \<Rightarrow> 'c h2_conn \<Rightarrow> bool" where
  "assembling c0 i s e c \<longleftrightarrow> hc_objects c = hc_objects c0 @ [s] \<and> map_of (hc_streams c) i = Some (length (hc_objects c0)) \<and>
     hc_tasks c = hc_tasks c0 \<and> hc_decoder c = hc_decoder c0 \<and> hc_expecting_continuation c = e \<and> (e \<longrightarrow> hc_last_header_stream_id c = i)"

definition dispatched :: "'c h2_conn \<Rightarrow> h2_stream \<Rightarrow> 'c h2_conn \<Rightarrow> bool" where
  "dispatched c0 s c \<longleftrightarrow> hc_tasks c = hc_tasks c0 @ [(length (hc_objects c0), Handling (h2_request s))] \<and>
     hc_decoder c = hc_decoder c0 \<and> \<not> hc_expecting_continuation c"

definition headers_done :: "header_list \<Rightarrow> h2_stream \<Rightarrow> h2_stream" where
  "headers_done hs s = (let s = foldl apply_field s hs in s\<lparr>h2s_resource := (h2s_resource s)\<lparr>r_major := 2, r_minor := 0\<rparr>, h2s_end_headers := True\<rparr>)"

lemma headers_done_simps [simp]:
  "h2s_malformed (headers_done hs s) = h2s_malformed s" "h2s_end_stream (headers_done hs s) = h2s_end_stream s"
  "h2s_end_headers (headers_done hs s)" "h2s_body_buffer (headers_done hs s) = h2s_body_buffer s"
  by (simp_all add: headers_done_def Let_def)

definition fits :: "header_list \<Rightarrow> bool" where
  "fits hs \<longleftrightarrow> list_all (\<lambda>h. length (hf_name h) < 2 ^ 59 \<and> length (hf_value h) < 2 ^ 59) hs"

lemma decode_encoded: "fits hs \<Longrightarrow> hpack_decode (hpack_encode hs) d [] = (True, d, hs)"
proof -
  assume "fits hs"
  then have "list_all (\<lambda>h. length (huffman_encode (hf_name h)) < 2 ^ 64 \<and> length (huffman_encode (hf_value h)) < 2 ^ 64) hs"
    using huffman_encode_fits unfolding list_all_iff fits_def by blast
  from hpack_decode_encode [OF this, of "[]" d "[]"] show ?thesis by simp
qed

lemma assembling_dispatch:
  assumes "assembling c0 i s False c" "\<not> h2s_malformed s"
  shows "dispatched c0 s (dispatch_stream (length (hc_objects c0)) c)"
  using assms by (simp add: dispatched_def assembling_def dispatch_stream_def upd_object_def)

definition head_read :: "'c h2_conn \<Rightarrow> u32 \<Rightarrow> header_list \<Rightarrow> h2_stream \<Rightarrow> 'c h2_conn \<Rightarrow> bool" where
  "head_read c0 i hs s c \<longleftrightarrow>
     (if h2s_end_stream s then dispatched c0 (headers_done hs s) c else assembling c0 i (headers_done hs s) False c)"

lemma assembling_end_of_headers:
  assumes "assembling c0 i s False c" "h2s_header_block s = hpack_encode hs" "fits hs" "\<not> h2s_malformed s"
  shows "head_read c0 i hs s (end_of_headers (length (hc_objects c0)) c)"
proof -
  let ?a = "length (hc_objects c0)"
  have "finish_header_block ?a c = upd_object ?a (\<lambda>s. let s = foldl apply_field s hs
      in s\<lparr>h2s_resource := (h2s_resource s)\<lparr>r_major := 2, r_minor := 0\<rparr>\<rparr>) (c\<lparr>hc_decoder := hc_decoder c\<rparr>)"
    using assms(1,2) decode_encoded [OF assms(3)] by (simp add: finish_header_block_def assembling_def)
  then have "assembling c0 i (headers_done hs s) False (upd_object ?a (\<lambda>s. s\<lparr>h2s_end_headers := True\<rparr>) (finish_header_block ?a c))"
    using assms(1) by (simp add: assembling_def upd_object_def headers_done_def Let_def)
  moreover from this have "hc_objects (upd_object ?a (\<lambda>s. s\<lparr>h2s_end_headers := True\<rparr>) (finish_header_block ?a c)) ! ?a = headers_done hs s"
    by (simp add: assembling_def)
  ultimately show ?thesis using assms(4) assembling_dispatch [of c0 i "headers_done hs s"] unfolding end_of_headers_def Let_def head_read_def by simp
qed

lemma receive_continuations:
  assumes "assembling c0 i s True c" "h2s_header_block s @ concat ps = hpack_encode hs" "ps \<noteq> []" "fits hs" "\<not> h2s_malformed s"
  shows "\<exists>c'. receive_all (continuation_frames i ps) c = (True, c') \<and> head_read c0 i hs (s\<lparr>h2s_header_block := hpack_encode hs\<rparr>) c'"
  using assms
proof (induction ps arbitrary: s c)
  case (Cons p ps)
  let ?a = "length (hc_objects c0)" and ?s = "s\<lparr>h2s_header_block := h2s_header_block s @ p\<rparr>"
  let ?c = "upd_object ?a (\<lambda>s. s\<lparr>h2s_header_block := h2s_header_block s @ p\<rparr>) c"
  have upd: "assembling c0 i ?s True ?c" using Cons.prems(1) by (simp add: assembling_def upd_object_def)
  have f: "h2_receive (mk_frame ft_continuation fl i p) c =
      (True, if has_flag fl fl_end_headers then end_of_headers ?a (?c\<lparr>hc_expecting_continuation := False\<rparr>) else ?c)" for fl
    using Cons.prems(1) by (simp add: h2_receive_def frame_type_defs handle_continuation_def assembling_def Let_def)
  show ?case
  proof (cases "ps = []")
    case True
    have "assembling c0 i ?s False (?c\<lparr>hc_expecting_continuation := False\<rparr>)" using upd by (simp add: assembling_def)
    moreover have whole: "?s = s\<lparr>h2s_header_block := hpack_encode hs\<rparr>" using True Cons.prems(2) by simp
    ultimately have "head_read c0 i hs (s\<lparr>h2s_header_block := hpack_encode hs\<rparr>) (end_of_headers ?a (?c\<lparr>hc_expecting_continuation := False\<rparr>))"
      using Cons.prems(4,5) unfolding whole by (intro assembling_end_of_headers) simp_all
    with True f [of fl_end_headers] show ?thesis by simp
  next
    case False
    with Cons.IH [OF upd] Cons.prems(2,4,5) f show ?thesis by simp
  qed
qed simp

definition opened_stream :: "'c h2_conn \<Rightarrow> u32 \<Rightarrow> byte list \<Rightarrow> bool \<Rightarrow> h2_stream" where
  "opened_stream c i block final = (new_h2_stream i)\<lparr>h2s_send_window := uint (hc_peer_initial_window_size c), h2s_header_block := block,
     h2s_end_stream := final\<rparr>"

lemma opened_stream_simps [simp]:
  "h2s_header_block (opened_stream c i block final) = block" "\<not> h2s_malformed (opened_stream c i block final)"
  "h2s_end_stream (opened_stream c i block final) = final" "h2s_body_buffer (opened_stream c i block final) = []"
  "(opened_stream c i block final)\<lparr>h2s_header_block := block'\<rparr> = opened_stream c i block' final"
  by (simp_all add: opened_stream_def new_h2_stream_def)

lemma receive_headers:
  assumes "i \<noteq> 0" "\<not> hc_expecting_continuation c" "concat (p # ps) = hpack_encode hs" "fits hs"
  shows "\<exists>c'. receive_all (mk_frame ft_headers (head_flags (ps = []) final) i p # continuation_frames i ps) c = (True, c') \<and>
    head_read c i hs (opened_stream c i (hpack_encode hs) final) c'"
proof -
  let ?a = "length (hc_objects c)"
  let ?s = "opened_stream c i p final"
  let ?c = "c\<lparr>hc_objects := hc_objects c @ [?s], hc_streams := AList.update i ?a (hc_streams c),
      hc_highest_stream_id := max (hc_highest_stream_id c) i\<rparr>"
  have f: "h2_receive (mk_frame ft_headers (head_flags (ps = []) final) i p) c =
      (True, if ps = [] then end_of_headers ?a ?c else ?c\<lparr>hc_expecting_continuation := True, hc_last_header_stream_id := i\<rparr>)"
    using assms(1,2) by (simp add: h2_receive_def frame_type_defs handle_headers_def strip_padding_def Let_def opened_stream_def)
  show ?thesis
  proof (cases "ps = []")
    case True
    have "assembling c i ?s False ?c" using assms(2) by (simp add: assembling_def update_conv')
    from assembling_end_of_headers [OF this _ assms(4)] True assms(3) f show ?thesis by simp
  next
    case False
    have "assembling c i ?s True (?c\<lparr>hc_expecting_continuation := True, hc_last_header_stream_id := i\<rparr>)"
      by (simp add: assembling_def update_conv')
    from receive_continuations [OF this _ False assms(4)] assms(3) False f show ?thesis by simp
  qed
qed

lemma receive_body:
  assumes "assembling c0 i s False c" "h2s_end_headers s" "\<not> h2s_malformed s" "ds \<noteq> []"
    "length (h2s_body_buffer s) + length (concat ds) \<le> max_request_body_size"
  shows "\<exists>c'. receive_all (body_frames i ds) c = (True, c') \<and>
    dispatched c0 (s\<lparr>h2s_body_buffer := h2s_body_buffer s @ string_of (concat ds), h2s_end_stream := True\<rparr>) c'"
  using assms
proof (induction ds arbitrary: s c)
  case (Cons d ds)
  let ?a = "length (hc_objects c0)" and ?s = "s\<lparr>h2s_body_buffer := h2s_body_buffer s @ string_of d\<rparr>"
  define c1 where "c1 = upd_object ?a (\<lambda>s. s\<lparr>h2s_body_buffer := h2s_body_buffer s @ string_of d\<rparr>) c"
  define wu where "wu = write_window_update_payload (of_nat (length d))"
  define c2 where "c2 = (if d \<noteq> [] then send_frame ft_window_update 0 0 wu (send_frame ft_window_update 0 i wu c1) else c1)"
  have c2: "assembling c0 i ?s False c2" using Cons.prems(1) by (simp add: c2_def c1_def assembling_def upd_object_def send_frame_def)
  have f: "h2_receive (mk_frame ft_data (if final then fl_end_stream else 0) i d) c =
      (True, if final then dispatch_stream ?a (upd_object ?a (\<lambda>s. s\<lparr>h2s_end_stream := True\<rparr>) c2) else c2)" for final
  proof -
    have "handle_data (mk_frame ft_data (if final then fl_end_stream else 0) i d) c =
        (if final then (let c = upd_object ?a (\<lambda>s. s\<lparr>h2s_end_stream := True\<rparr>) c2
           in (True, if h2s_end_headers (hc_objects c ! ?a) then dispatch_stream ?a c else c)) else (True, c2))"
      using Cons.prems(1,5) by (simp add: handle_data_def assembling_def strip_padding_def Let_def c2_def c1_def wu_def)
    moreover have "h2s_end_headers (hc_objects (upd_object ?a (\<lambda>s. s\<lparr>h2s_end_stream := True\<rparr>) c2) ! ?a)"
      using c2 Cons.prems(2) by (simp add: assembling_def)
    ultimately show ?thesis by (simp add: h2_receive_def frame_type_defs Let_def)
  qed
  show ?case
  proof (cases "ds = []")
    case True
    have "assembling c0 i (?s\<lparr>h2s_end_stream := True\<rparr>) False (upd_object ?a (\<lambda>s. s\<lparr>h2s_end_stream := True\<rparr>) c2)"
      using c2 by (simp add: assembling_def upd_object_def)
    from assembling_dispatch [OF this] True Cons.prems(3) f [of True] show ?thesis by simp
  next
    case False
    with Cons.IH [OF c2] Cons.prems f [of False] show ?thesis by (simp add: string_of_def)
  qed
qed simp

text \<open>A request as a peer describes it, its header fields, and the request object the handler is to receive.\<close>

record h2_ask =
  ask_method :: string
  ask_path :: string
  ask_query :: "string option"
  ask_host :: string
  ask_fields :: header_list
  ask_body :: "byte list"

definition ask_target :: "h2_ask \<Rightarrow> string" where
  "ask_target q = ask_path q @ (case ask_query q of None \<Rightarrow> [] | Some s \<Rightarrow> CHR ''?'' # s)"

definition ask_headers :: "h2_ask \<Rightarrow> header_list" where
  "ask_headers q = [\<lparr>hf_name = '':method'', hf_value = ask_method q\<rparr>, \<lparr>hf_name = '':scheme'', hf_value = ''https''\<rparr>,
     \<lparr>hf_name = '':path'', hf_value = ask_target q\<rparr>, \<lparr>hf_name = '':authority'', hf_value = ask_host q\<rparr>] @ ask_fields q"

definition wf_ask :: "h2_ask \<Rightarrow> bool" where
  "wf_ask q \<longleftrightarrow> CHR ''?'' \<notin> set (ask_path q) \<and> list_all (\<lambda>f. hf_name f = [] \<or> hd (hf_name f) \<noteq> CHR '':'') (ask_fields q) \<and>
     fits (ask_headers q) \<and> length (ask_body q) \<le> max_request_body_size"

definition asked_request :: "h2_ask \<Rightarrow> memory_stream request" where
  "asked_request q = \<lparr>rq_resource = \<lparr>r_method = http_method_of (ask_method q), r_path = url_decode (ask_path q), r_raw_path = ask_path q,
       r_query = query_parse (case ask_query q of None \<Rightarrow> [] | Some s \<Rightarrow> s), r_major = 2, r_minor = 0\<rparr>,
     rq_headers = map (\<lambda>f. \<lparr>h_name = hf_name f, h_value = hf_value f\<rparr>) (ask_fields q), rq_body = memory_of (string_of (ask_body q)),
     rq_hostname = ask_host q, rq_tags = Map.empty\<rparr>"

lemma apply_ordinary:
  "list_all (\<lambda>f. hf_name f = [] \<or> hd (hf_name f) \<noteq> CHR '':'') fs \<Longrightarrow>
   foldl apply_field s fs = s\<lparr>h2s_headers := h2s_headers s @ map (\<lambda>f. \<lparr>h_name = hf_name f, h_value = hf_value f\<rparr>) fs\<rparr>"
proof (induction fs arbitrary: s)
  case (Cons f fs)
  have "apply_field s f = s\<lparr>h2s_headers := h2s_headers s @ [\<lparr>h_name = hf_name f, h_value = hf_value f\<rparr>]\<rparr>"
    using Cons.prems by (auto simp: apply_field_def headers_add_def)
  with Cons show ?case by simp
qed simp

lemma asked_fold:
  assumes "wf_ask q"
  shows "foldl apply_field (opened_stream c i block final) (ask_headers q) =
    (opened_stream c i block final)\<lparr>h2s_resource := \<lparr>r_method = http_method_of (ask_method q), r_path = url_decode (ask_path q),
        r_raw_path = ask_path q, r_query = query_parse (case ask_query q of None \<Rightarrow> [] | Some s \<Rightarrow> s), r_major = 1, r_minor = 1\<rparr>,
      h2s_hostname := ask_host q, h2s_headers := map (\<lambda>f. \<lparr>h_name = hf_name f, h_value = hf_value f\<rparr>) (ask_fields q)\<rparr>"
proof -
  have "find_char (CHR ''?'') (ask_path q) = None" using assms by (simp add: wf_ask_def find_char_None)
  with assms show ?thesis by (simp add: ask_headers_def wf_ask_def apply_ordinary)
    (simp add: apply_field_def ask_target_def find_char_hit default_resource_def opened_stream_def new_h2_stream_def split: option.split)
qed

lemma asked_headers:
  assumes "wf_ask q"
  shows "ask_body q = [] \<Longrightarrow> h2_request (headers_done (ask_headers q) (opened_stream c i block final)) = asked_request q"
    "h2_request ((headers_done (ask_headers q) (opened_stream c i block final))\<lparr>h2s_body_buffer := string_of (ask_body q), h2s_end_stream := e\<rparr>) =
     asked_request q"
  by (simp_all add: h2_request_def headers_done_def asked_request_def asked_fold [OF assms] string_of_def)

text \<open>
  C9.  A request over HTTP/2.  However the peer cuts its header block into a HEADERS frame and CONTINUATION frames and its body into
  DATA frames, the frames are accepted and start exactly one coroutine, whose request has the method, the path and the query, the
  host, the header fields in order and the bytes of the body that the peer sent; the connection is ready for the next request.
\<close>

theorem request_assembled:
  assumes "wf_ask q" and "i \<noteq> 0" and "\<not> hc_expecting_continuation c"
    and "concat (p # ps) = hpack_encode (ask_headers q)" and "concat ds = ask_body q"
  shows "\<exists>c'. receive_all (request_frames i p ps ds) c = (True, c') \<and>
    hc_tasks c' = hc_tasks c @ [(length (hc_objects c), Handling (asked_request q))] \<and>
    hc_decoder c' = hc_decoder c \<and> \<not> hc_expecting_continuation c'"
proof -
  have fits: "fits (ask_headers q)" and body: "length (ask_body q) \<le> max_request_body_size" using assms(1) by (simp_all add: wf_ask_def)
  let ?s = "opened_stream c i (hpack_encode (ask_headers q)) (ds = [])"
  obtain c1 where c1: "receive_all (mk_frame ft_headers (head_flags (ps = []) (ds = [])) i p # continuation_frames i ps) c = (True, c1)"
      "head_read c i (ask_headers q) ?s c1"
    using receive_headers [OF assms(2,3,4) fits, of "ds = []"] by blast
  have split: "receive_all (request_frames i p ps ds) c = receive_all (body_frames i ds) c1"
    using receive_all_append [of "mk_frame ft_headers (head_flags (ps = []) (ds = [])) i p # continuation_frames i ps" "body_frames i ds" c] c1(1)
    by (simp add: request_frames_def)
  show ?thesis
  proof (cases "ds = []")
    case True
    with split c1(2) asked_headers(1) [OF assms(1)] assms(5) show ?thesis by (auto simp: head_read_def dispatched_def)
  next
    case False
    with c1(2) have "assembling c i (headers_done (ask_headers q) ?s) False c1" by (simp add: head_read_def)
    from receive_body [OF this _ _ False] obtain c2 where "receive_all (body_frames i ds) c1 = (True, c2)"
      "dispatched c ((headers_done (ask_headers q) ?s)\<lparr>h2s_body_buffer := string_of (ask_body q), h2s_end_stream := True\<rparr>) c2"
      using body assms(5) by auto
    with split asked_headers(2) [OF assms(1)] show ?thesis by (auto simp: dispatched_def)
  qed
qed

theorem request_assembled_witness:
  "\<exists>c'. receive_all (request_frames 1
       (take 5 (hpack_encode (ask_headers \<lparr>ask_method = ''POST'', ask_path = ''/a%20b'', ask_query = Some ''k=v'', ask_host = ''h'',
          ask_fields = [\<lparr>hf_name = ''accept'', hf_value = ''text/html''\<rparr>], ask_body = [104, 105]\<rparr>)))
       [drop 5 (hpack_encode (ask_headers \<lparr>ask_method = ''POST'', ask_path = ''/a%20b'', ask_query = Some ''k=v'', ask_host = ''h'',
          ask_fields = [\<lparr>hf_name = ''accept'', hf_value = ''text/html''\<rparr>], ask_body = [104, 105]\<rparr>))]
       [[104], [], [105]]) (new_h2_conn :: memory_stream h2_conn) = (True, c') \<and>
     hc_tasks c' = [(0, Handling \<lparr>rq_resource = \<lparr>r_method = http_method_of ''POST'', r_path = ''/a b'', r_raw_path = ''/a%20b'',
       r_query = query_parse ''k=v'', r_major = 2, r_minor = 0\<rparr>, rq_headers = [\<lparr>h_name = ''accept'', h_value = ''text/html''\<rparr>],
       rq_body = memory_of ''hi'', rq_hostname = ''h'', rq_tags = Map.empty\<rparr>)]"
proof -
  let ?q = "\<lparr>ask_method = ''POST'', ask_path = ''/a%20b'', ask_query = Some ''k=v'', ask_host = ''h'',
    ask_fields = [\<lparr>hf_name = ''accept'', hf_value = ''text/html''\<rparr>], ask_body = [104, 105]\<rparr>"
  have "wf_ask ?q" by (simp add: wf_ask_def fits_def ask_headers_def ask_target_def max_request_body_size_def)
  moreover have "url_decode ''/a%20b'' = ''/a b''" "string_of [104, 105] = ''hi''" by code_simp+
  then have "asked_request ?q = \<lparr>rq_resource = \<lparr>r_method = http_method_of ''POST'', r_path = ''/a b'', r_raw_path = ''/a%20b'',
       r_query = query_parse ''k=v'', r_major = 2, r_minor = 0\<rparr>, rq_headers = [\<lparr>h_name = ''accept'', h_value = ''text/html''\<rparr>],
       rq_body = memory_of ''hi'', rq_hostname = ''h'', rq_tags = Map.empty\<rparr>" by (simp add: asked_request_def)
  moreover have new: "\<not> hc_expecting_continuation (new_h2_conn :: memory_stream h2_conn)" "hc_tasks (new_h2_conn :: memory_stream h2_conn) = []"
    "hc_objects (new_h2_conn :: memory_stream h2_conn) = []" by (simp_all add: new_h2_conn_def)
  ultimately show ?thesis
    using request_assembled [of ?q 1 "new_h2_conn :: memory_stream h2_conn" "take 5 (hpack_encode (ask_headers ?q))"
      "[drop 5 (hpack_encode (ask_headers ?q))]" "[[104], [], [105]]"] by auto
qed

section \<open>Responses\<close>

text \<open>A coroutine at a place, with the number and the windows it sees.\<close>

definition writer_at :: "'c h2_conn \<Rightarrow> nat \<Rightarrow> nat \<Rightarrow> u32 \<Rightarrow> int \<Rightarrow> int \<Rightarrow> u32 \<Rightarrow> 'c task \<Rightarrow> bool" where
  "writer_at c t a i w cw m ph \<longleftrightarrow> t < length (hc_tasks c) \<and> hc_tasks c ! t = (a, ph) \<and> a < length (hc_objects c) \<and>
     h2s_id (hc_objects c ! a) = i \<and> h2s_send_window (hc_objects c ! a) = w \<and> hc_send_window c = cw \<and> hc_peer_max_frame_size c = m"

text \<open>Some steps of the coroutine lead from one state to another and put these frames on the wire.\<close>

definition advances ::
  "(memory_stream request \<Rightarrow> ('c, unit) response option) \<Rightarrow> 'c stream_ops \<Rightarrow> nat \<Rightarrow> 'c h2_conn \<Rightarrow> h2_frame list \<Rightarrow> 'c h2_conn \<Rightarrow> bool" where
  "advances handler bops t c fs c' \<longleftrightarrow> (\<exists>n. h2_exec handler bops (replicate n (Run t)) c = Some c') \<and> hc_out c' = hc_out c @ fs"

lemma advances_refl: "advances handler bops t c [] c"
  by (auto simp: advances_def intro: exI [of _ 0])

lemma advances_trans:
  assumes "advances handler bops t c fs c1" "advances handler bops t c1 gs c2"
  shows "advances handler bops t c (fs @ gs) c2"
proof -
  obtain n k where "h2_exec handler bops (replicate n (Run t)) c = Some c1" "h2_exec handler bops (replicate k (Run t)) c1 = Some c2"
    using assms by (auto simp: advances_def)
  then have "h2_exec handler bops (replicate (n + k) (Run t)) c = Some c2" by (simp add: replicate_add h2_exec_append)
  with assms show ?thesis by (auto simp: advances_def)
qed

lemma advances_step: "t < length (hc_tasks c) \<Longrightarrow> task_step handler bops t c = Some c' \<Longrightarrow> hc_out c' = hc_out c @ fs \<Longrightarrow> advances handler bops t c fs c'"
  by (auto simp: advances_def run_event_def intro!: exI [of _ 1])

text \<open>Frames of data: none empty, none longer than the peer's maximum, their payloads the bytes.\<close>

definition data_frames :: "u32 \<Rightarrow> u32 \<Rightarrow> h2_frame list \<Rightarrow> string \<Rightarrow> bool" where
  "data_frames m i fs text \<longleftrightarrow> list_all (\<lambda>f. h2f_type f = ft_data \<and> h2f_flags f = 0 \<and> h2f_stream_id f = i \<and> h2f_payload f \<noteq> [] \<and>
     length (h2f_payload f) \<le> unat m) fs \<and> concat (map h2f_payload fs) = bytes_of text"

lemma data_frames_append: "data_frames m i fs s \<Longrightarrow> data_frames m i gs s' \<Longrightarrow> data_frames m i (fs @ gs) (s @ s')"
  by (simp add: data_frames_def bytes_of_append)

lemma advances_frame:
  assumes "writer_at c t a i w cw m (Pushing b r buf)" "buf \<noteq> []" "int (length buf) \<le> w" "int (length buf) \<le> cw" "m \<noteq> 0"
  shows "\<exists>n c'. 0 < n \<and> n \<le> length buf \<and> n \<le> unat m \<and> advances handler bops t c [mk_frame ft_data 0 i (bytes_of (take n buf))] c' \<and>
    writer_at c' t a i (w - int n) (cw - int n) m (if drop n buf = [] then Streaming b r else Pushing b r (drop n buf))"
proof -
  define n where "n = min (unat m) (length buf)"
  have "0 < unat m" using assms(5) by (simp add: unat_gt_0)
  then have n: "0 < n" "n \<le> length buf" "n \<le> unat m" using assms(2) by (auto simp: n_def)
  have t: "t < length (hc_tasks c)" "hc_tasks c ! t = (a, Pushing b r buf)" "a < length (hc_objects c)"
    using assms(1) by (simp_all add: writer_at_def)
  have "min (min w cw) (min (int k) (int (length buf))) = int (min k (length buf))" for k using assms(3,4) by (auto simp: min_def)
  from this [of "unat m"] have "nat (min (min w cw) (min (uint m) (int (length buf)))) = n" by (simp only: uint_nat nat_int n_def)
  moreover have "\<not> (w \<le> 0 \<or> cw \<le> 0)" using assms(2-4) by (cases buf) auto
  ultimately have "task_step handler bops t c = Some (set_task t (Sending b r buf n) c)"
    using assms(1) by (simp add: task_step_def begin_send_def writer_at_def Let_def)
  then have s1: "advances handler bops t c [] (set_task t (Sending b r buf n) c)" using t(1) by (intro advances_step) simp_all
  define c1 where "c1 = set_task t (Sending b r buf n) c"
  have w1: "writer_at c1 t a i w cw m (Sending b r buf n)" using assms(1) by (simp add: c1_def writer_at_def)
  define c2 where "c2 = put_data t a b r buf n c1"
  have s2: "advances handler bops t c1 [mk_frame ft_data 0 i (bytes_of (take n buf))] c2"
    using w1 by (intro advances_step) (simp_all add: writer_at_def task_step_def c2_def put_data_def)
  have w2: "writer_at c2 t a i w cw m (Sent b r buf n)" using w1 by (simp add: c2_def put_data_def writer_at_def)
  define c3 where "c3 = end_send t a b r buf n c2"
  have s3: "advances handler bops t c2 [] c3"
    using w2 by (intro advances_step) (simp_all add: writer_at_def task_step_def c3_def end_send_def Let_def)
  have "writer_at c3 t a i (w - int n) (cw - int n) m (if drop n buf = [] then Streaming b r else Pushing b r (drop n buf))"
    using w2 by (simp add: c3_def end_send_def writer_at_def Let_def)
  moreover have "advances handler bops t c [mk_frame ft_data 0 i (bytes_of (take n buf))] c3"
    using advances_trans [OF s1 [folded c1_def] advances_trans [OF s2 s3]] by simp
  ultimately show ?thesis using n by blast
qed

lemma advances_piece:
  assumes "writer_at c t a i w cw m (Pushing b r buf)" "buf \<noteq> []" "int (length buf) \<le> w" "int (length buf) \<le> cw" "m \<noteq> 0"
  shows "\<exists>fs c'. advances handler bops t c fs c' \<and> data_frames m i fs buf \<and>
    writer_at c' t a i (w - int (length buf)) (cw - int (length buf)) m (Streaming b r)"
  using assms
proof (induction "length buf" arbitrary: buf c w cw rule: less_induct)
  case less
  obtain n c1 where n: "0 < n" "n \<le> length buf" "n \<le> unat m"
      and s1: "advances handler bops t c [mk_frame ft_data 0 i (bytes_of (take n buf))] c1"
      and w1: "writer_at c1 t a i (w - int n) (cw - int n) m (if drop n buf = [] then Streaming b r else Pushing b r (drop n buf))"
    using advances_frame [OF less.prems, of handler bops] by blast
  have d1: "data_frames m i [mk_frame ft_data 0 i (bytes_of (take n buf))] (take n buf)"
    using n less.prems(2) by (auto simp: data_frames_def bytes_of_def)
  show ?case
  proof (cases "drop n buf = []")
    case True
    then have "n = length buf" using n(2) by simp
    with s1 w1 d1 show ?thesis by auto
  next
    case False
    then have "writer_at c1 t a i (w - int n) (cw - int n) m (Pushing b r (drop n buf))" using w1 by simp
    moreover have "length (drop n buf) < length buf" using n less.prems(2) by simp
    ultimately obtain fs c2 where "advances handler bops t c1 fs c2" "data_frames m i fs (drop n buf)"
        "writer_at c2 t a i (w - int n - int (length (drop n buf))) (cw - int n - int (length (drop n buf))) m (Streaming b r)"
      using less.hyps [of "drop n buf"] False less.prems(3-5) n(2) by force
    with advances_trans [OF s1] data_frames_append [OF d1] n(2) show ?thesis by (fastforce simp: of_nat_diff)
  qed
qed

lemma advances_end_data:
  assumes "writer_at c t a i w cw m (Streaming b r)" "read_piece bops t a b r c = Some (end_data t a c)"
  shows "\<exists>c'. advances handler bops t c [mk_frame ft_data fl_end_stream i []] c' \<and> writer_at c' t a i w cw m Closing"
  using assms by (intro exI [of _ "end_data t a c"] conjI advances_step) (auto simp: writer_at_def task_step_def end_data_def)

context byte_source
begin

lemma advances_body:
  assumes "writer_at c t a i w cw m (Streaming b r)" "invar b" "r < 0 \<or> r = int (length (content b))"
    "int (length (content b)) \<le> w" "int (length (content b)) \<le> cw" "m \<noteq> 0"
  shows "\<exists>fs c' w' cw'. advances handler ops t c (fs @ [mk_frame ft_data fl_end_stream i []]) c' \<and> data_frames m i fs (content b) \<and>
    writer_at c' t a i w' cw' m Closing"
  using assms
proof (induction "length (content b)" arbitrary: b r c w cw rule: less_induct)
  case less
  let ?n = "if r \<ge> 0 then nat (min r 16384) else 16384"
  have stopped: ?case if stop: "read_piece ops t a b r c = Some (end_data t a c)" "content b = []"
  proof -
    obtain c' where "advances handler ops t c ([] @ [mk_frame ft_data fl_end_stream i []]) c'" "writer_at c' t a i w cw m Closing"
      using advances_end_data [OF less.prems(1) stop(1), of handler] by auto
    moreover have "data_frames m i [] (content b)" using stop(2) by (simp add: data_frames_def bytes_of_Nil)
    ultimately show ?thesis by blast
  qed
  show ?case
  proof (cases "r = 0")
    case True
    then have "read_piece ops t a b r c = Some (end_data t a c)" "content b = []" using less.prems(3) by (simp_all add: read_piece_def)
    then show ?thesis by (rule stopped)
  next
    case False
    then have pos: "0 < ?n" using less.prems(3) by auto
    obtain got b' where g: "st_read ops ?n b = Some (got, b')" "content b = got @ content b'" "length got \<le> ?n"
        "content b = [] \<longleftrightarrow> got = []" "invar b'" using readE [OF less.prems(2) pos] by blast
    show ?thesis
    proof (cases "got = []")
      case True
      then have "read_piece ops t a b r c = Some (end_data t a c)" "content b = []" using g(1,4) False by (simp_all add: read_piece_def)
      then show ?thesis by (rule stopped)
    next
      case ne: False
      let ?r = "if r \<ge> 0 then r - int (length got) else r"
      define c1 where "c1 = set_task t (Pushing b' ?r got) c"
      have s1: "advances handler ops t c [] c1"
        using less.prems(1) g(1) ne False
        by (intro advances_step) (auto simp: writer_at_def task_step_def read_piece_def c1_def)
      have w1: "writer_at c1 t a i w cw m (Pushing b' ?r got)" using less.prems(1) by (simp add: writer_at_def c1_def)
      obtain fs c2 where s2: "advances handler ops t c1 fs c2" "data_frames m i fs got"
          "writer_at c2 t a i (w - int (length got)) (cw - int (length got)) m (Streaming b' ?r)"
        using advances_piece [OF w1 ne, of handler ops] less.prems(4-6) g(2) by auto
      have "length (content b') < length (content b)" using g(2) ne by simp
      moreover have "?r < 0 \<or> ?r = int (length (content b'))" using less.prems(3) g(2) by auto
      ultimately obtain gs c3 w' cw' where s3: "advances handler ops t c2 (gs @ [mk_frame ft_data fl_end_stream i []]) c3"
          "data_frames m i gs (content b')" "writer_at c3 t a i w' cw' m Closing"
        using less.hyps [OF _ s2(3) g(5)] less.prems(4-6) g(2) by auto
      have "advances handler ops t c ((fs @ gs) @ [mk_frame ft_data fl_end_stream i []]) c3"
        using advances_trans [OF s1 advances_trans [OF s2(1) s3(1)]] by simp
      moreover have "data_frames m i (fs @ gs) (content b)" using data_frames_append [OF s2(2) s3(2)] g(2) by simp
      ultimately show ?thesis using s3(3) by blast
    qed
  qed
qed

end

lemma advances_close:
  assumes "writer_at c t a i w cw m Closing"
  shows "\<exists>c'. advances handler bops t c [] c' \<and> hc_tasks c' ! t = (a, Finished) \<and> map_of (hc_streams c') i = None"
  using assms by (intro exI [of _ "end_task t a c"] conjI advances_step)
    (auto simp: writer_at_def task_step_def end_task_def AList.delete_conv' map_of_eq_None_iff)



end
