(* ===== verification/Spec2Isabelle.thy ===== *)
theory Spec2Isabelle
  imports Http_Resource Http1_Io Frame Hpack Route Http_Date Mime Multipart Websocket Handshake Router Static_Content Http2_Exchange
begin

text \<open>
  A verification library of libnhttp, an asynchronous HTTP server library in C++20.  This theory
  collects the development; the definitions and the theorems are in the theories it imports.  File
  names below are relative to \<open>src/src\<close> and, for headers, \<open>src/include/nhttp\<close>.

  \<^bold>\<open>The program.\<close>  A listener accepts sockets and runs one connection object per socket.
  The HTTP/1.1 connection parses request lines and header blocks, builds a stream for the request's body,
  calls the application and writes its response.  The HTTP/2 connection does the same for many streams at a time over
  frames, with HPACK-coded headers and flow control.  The application is a registry of extensions, tried in the order
  of their priority: virtual paths and hosts that scope a registry of their own, a router over a tree of
  path segments with middlewares, and extensions that serve files.  A handler may take the connection over,
  as WebSocket endpoints do.

  \<^bold>\<open>How the code is modelled.\<close>  A \<open>std::string\<close> is a list of characters, a
  byte buffer a list of bytes, a fixed-width integer a word where its width matters and an integer elsewhere.  A
  class is a record, a method a function from the record to its result and the new record.  An awaited call is a call.
  \<open>io::stream\<close> is a record of its virtual functions (\<open>stream_ops\<close>) over a state type; a read
  that would never return is \<open>None\<close>, and a socket is a list of segments still to arrive and the bytes sent, so that a
  theorem about every list of segments is one about every way the transport may cut the bytes.  Loops that read from a wire
  are partial functions in the option type; that they return is a theorem (C8, C19, C33) and not an assumption.  No loop has fuel.

  \<^bold>\<open>The theories.\<close>
  \<^item> Prelude: characters, bytes, searching and splitting, decimal numbers, 64-bit wrap-around, incremental parsers' results,
    and the binary search of \<open>std::upper_bound\<close>.  Dictionary: the contract of the string-keyed dictionaries (locale
    \<open>dictionary\<close>), met by \<open>std::map\<close> here, by the header collection in Http_Header and by the captures in Route.
  \<^item> Url (\<open>protocol/urlencode.cpp\<close>, \<open>http_query_string.cpp\<close>): percent coding and query strings, with the round trip of the coding.
  \<^item> Http_Method, Http_Header, Http_Resource (\<open>protocol/http_method.cpp\<close>, \<open>http_status.cpp\<close>,
    \<open>http_header.cpp\<close>, \<open>http_resource.cpp\<close>): the line parsers.  Each meets the contract \<open>incremental_parser\<close>: a longer buffer never changes
    a result already given, so the result does not depend on how the bytes arrive; C26.
  \<^item> Io_Stream (\<open>io/stream.cpp\<close>, \<open>memory_stream.cpp\<close>, \<open>range_stream.cpp\<close>): the streams and
    their contracts \<open>byte_source\<close>, \<open>seekable_source\<close>, \<open>live_source\<close>.  File_Stream
    (\<open>io/file_stream.cpp\<close>, \<open>platform/posix/file_mapping.cpp\<close>): a file read through a sliding mapping or through
    \<open>FILE\<close>, which give the same bytes; C14.  Whether a mapping succeeds is a parameter.
  \<^item> Chunked, Http1_Io (\<open>protocol/http_chunked.cpp\<close>, \<open>server/http1_io.cpp\<close>): transfer coding, header
    blocks, body framing, copying a body to a wire (\<open>byte_sink\<close>, \<open>duplex\<close>, \<open>body_copy\<close>); C21, C27, C28.
  \<^item> Http_Date, Mime, Multipart (\<open>protocol/http_date.cpp\<close>, \<open>http_mime_type.cpp\<close>,
    \<open>http_multipart.cpp\<close>): dates, media types and the reader of multipart bodies; C13, C31.
  \<^item> Frame, Huffman, Hpack (\<open>http2/frame.cpp\<close>, \<open>hpack.cpp\<close>, \<open>hpack_tables.hpp\<close>): HTTP/2
    frames, the Huffman code of RFC 7541 as a tree of array nodes, and header compression with its dynamic table; C12, C15, C20, C30.
  \<^item> Route, Router (\<open>router/route.cpp\<close>, \<open>router.cpp\<close>, \<open>middleware.cpp\<close>, \<open>group_proxy.cpp\<close>):
    the tree of segments with its search and captures, middleware chains and groups; C3, C18, C22, C23, C29, C35, C36, C37.
  \<^item> Server (\<open>server/extension.cpp\<close>, \<open>response.cpp\<close>, \<open>request.hpp\<close>, \<open>tag_storage.hpp\<close>,
    \<open>extensions/vpath.cpp\<close>, \<open>vhost.cpp\<close>): requests, responses, the registry and the scoping extensions
    (\<open>scoped_extension\<close>); C11, C17.
  \<^item> Connection (\<open>server/connection.cpp\<close>): the HTTP/1.1 loop.  The loop against an abstract server that maps a list of
    requests to a list of responses is C1; that it returns C19; refused headers C25 (\<open>http_wire\<close>, \<open>http_app\<close>, \<open>http_service\<close>).
  \<^item> Static_Content (\<open>server/extensions/static_content.cpp\<close>, \<open>overlay.cpp\<close>, \<open>single_file.cpp\<close>):
    conditional requests, ranges, and confinement of an overlay to its directory, over a file system that is a parameter; C2, C4, C38, C39.
  \<^item> Handshake, Websocket (\<open>ws/sha1.cpp\<close>, \<open>handshake.cpp\<close>, \<open>ws/connection.cpp\<close>): SHA-1
    against FIPS 180, base64, frames and messages; C16, C24, C32, C33, C34.
  \<^item> Connection_H2, Http2_Flow, Http2_Exchange (\<open>server/connection_h2.cpp\<close>): the HTTP/2 connection.  Streams
    are shared objects with addresses, because a coroutine keeps its stream when the map has lost it.  The coroutine of a response is a task
    with a constructor per place where it can be suspended.  An execution is a list of events, a frame received or a step of one task, in any
    order; the order in which the event loop of the code resumes coroutines is one of these.  Every execution is well-formed (C5) and balances its windows
    (C6, C7); two writers may overrun the connection's window (C40); the reading loop is a fold over the frames on the wire
    (C8), which assembles requests (C9), and a response is written as its frames (C10).

  \<^bold>\<open>Bounds and parameters.\<close>  The code's constants are those of the source: 4096-byte reads of a wire, 16384-byte
  pieces of an HTTP/2 body, the 16 MB caps of a frame and of a buffered body, the 4096-byte dynamic table.  Theorems that round-trip
  sizes through fixed-width fields have the width as a hypothesis (24-bit frame lengths, 31-bit stream numbers, header strings
  below \<open>2 ^ 59\<close> bytes, years of four digits).  Parameters are: the handlers of an application, the file system and the outcome of a
  memory mapping, the clock (the date of a response), and the state and \<open>st_read\<close> of a body the handler supplies, all with
  their contracts as locale assumptions or hypotheses and discharged for a concrete instance.

  \<^bold>\<open>Not modelled.\<close>  TLS (\<open>tls/\<close>) consists of calls into OpenSSL, which is not part of the sources.
  The platform layer (\<open>platform/\<close>, \<open>io/socket_stream.cpp\<close>) wraps system calls.  The coroutine, event-loop and thread-pool classes
  (\<open>async/\<close>) are the machinery behind an awaited call.  The listener (\<open>server/listener.cpp\<close>) and the reverse proxy
  (\<open>extensions/reverse_proxy.cpp\<close>) are mostly accepting, connecting, timing and closing sockets over these.  The WebSocket
  endpoint and the plugin manager register callbacks with the parts above.  In the parts that are modelled: the
  \<open>sendfile\<close> path of a response body, writes that fail (a wire accepts what is written to it), memory exhaustion, and closing
  or flushing a file.
\<close>

end
